(* ===== verification/Prelude.thy ===== *)
theory Prelude
  imports Main "HOL-Library.Word" "HOL-Library.Finite_Map"
begin

text \<open>
  Shared vocabulary of the development.

  \<^item> Type names for the fixed-width integers of \<^verbatim>\<open>rai/lib/numbers.hpp\<close>.
  \<^item> \<open>outcome\<close>: how a C++ call ends.  The source is modelled as built with assertions enabled:
    a failed \<^verbatim>\<open>assert\<close> (or the dereference of a null pointer) is \<open>Abort\<close>, a loop that used up the
    fuel of the model is \<open>Diverge\<close>, a normal return is \<open>Ret\<close>.
  \<^item> Sums over finite maps, used for the conservation laws of the ledger.
  \<^item> The interface of a state machine with an invariant, interpreted for the ledger.
\<close>

unbundle bit_operations_syntax

type_synonym byte = "8 word"
type_synonym u16 = "16 word"
type_synonym u32 = "32 word"
type_synonym u64 = "64 word"
type_synonym u128 = "128 word"
type_synonym u256 = "256 word"
type_synonym u512 = "512 word"

named_theorems codec_simps \<open>round trips of byte codecs\<close>
named_theorems store_simps \<open>effect of the store operations on the observations\<close>

section \<open>How a call ends\<close>

datatype 'a outcome = Ret 'a | Abort | Diverge

fun obind :: "'a outcome \<Rightarrow> ('a \<Rightarrow> 'b outcome) \<Rightarrow> 'b outcome" where
  "obind (Ret x) f = f x"
| "obind Abort f = Abort"
| "obind Diverge f = Diverge"

definition check :: "bool \<Rightarrow> unit outcome" where
  "check b = (if b then Ret () else Abort)"

definition of_option :: "'a option \<Rightarrow> 'a outcome" where
  "of_option x = (case x of None \<Rightarrow> Abort | Some y \<Rightarrow> Ret y)"

lemma check_simps [simp]: "check True = Ret ()" "check False = Abort"
  by (simp_all add: check_def)

lemma of_option_simps [simp]: "of_option None = Abort" "of_option (Some x) = Ret x"
  by (simp_all add: of_option_def)

lemma obind_eq_Ret: "obind m f = Ret y \<longleftrightarrow> (\<exists>x. m = Ret x \<and> f x = Ret y)"
  by (cases m) auto

lemma check_eq_Ret [simp]: "check b = Ret u \<longleftrightarrow> b"
  by (simp add: check_def)

lemma of_option_eq_Ret [simp]: "of_option x = Ret y \<longleftrightarrow> x = Some y"
  by (cases x) auto

lemma obind_assoc: "obind (obind m f) g = obind m (\<lambda>x. obind (f x) g)"
  by (cases m) auto

lemma obind_cong [fundef_cong]:
  "m = m' \<Longrightarrow> (\<And>x. m' = Ret x \<Longrightarrow> f x = f' x) \<Longrightarrow> obind m f = obind m' f'"
  by (cases m') auto

section \<open>Sums over finite maps\<close>

definition msum :: "('v \<Rightarrow> nat) \<Rightarrow> ('k \<rightharpoonup> 'v) \<Rightarrow> nat" where
  "msum f m = (\<Sum>k\<in>dom m. f (the (m k)))"

lemma msum_cong: "(\<And>k v. m k = Some v \<Longrightarrow> f v = g v) \<Longrightarrow> msum f m = msum g m"
  unfolding msum_def by (rule sum.cong) auto

lemma msum_drop:
  assumes "finite (dom m)"
  shows "msum f m = msum f (m(k := None)) + (case m k of None \<Rightarrow> 0 | Some v \<Rightarrow> f v)"
proof (cases "m k")
  case None
  then have "m(k := None) = m" by auto
  with None show ?thesis by simp
next
  case (Some v)
  have "k \<in> dom m" using Some by auto
  then have "msum f m = f v + (\<Sum>j\<in>dom (m(k := None)). f (the (m j)))"
    using Some sum.remove [OF assms, of k "\<lambda>j. f (the (m j))"] by (simp add: msum_def)
  also have "(\<Sum>j\<in>dom (m(k := None)). f (the (m j))) = msum f (m(k := None))"
    unfolding msum_def by (rule sum.cong) auto
  finally show ?thesis using Some by simp
qed

lemma msum_upd:
  assumes "finite (dom m)"
  shows "msum f (m(k \<mapsto> v)) + (case m k of None \<Rightarrow> 0 | Some w \<Rightarrow> f w) = msum f m + f v"
proof -
  have "msum f (m(k \<mapsto> v)) = msum f (m(k := None)) + f v"
    using msum_drop [of "m(k \<mapsto> v)" f k] assms by simp
  with msum_drop [OF assms, of f k] show ?thesis by simp
qed

lemma msum_upd_new: "finite (dom m) \<Longrightarrow> m k = None \<Longrightarrow> msum f (m(k \<mapsto> v)) = msum f m + f v"
  using msum_upd [of m f k v] by simp

lemma msum_upd_old:
  "finite (dom m) \<Longrightarrow> m k = Some w \<Longrightarrow> msum f (m(k \<mapsto> v)) + f w = msum f m + f v"
  using msum_upd [of m f k v] by simp

lemma msum_drop_old:
  "finite (dom m) \<Longrightarrow> m k = Some w \<Longrightarrow> msum f (m(k := None)) + f w = msum f m"
  using msum_drop [of m f k] by simp

lemma msum_ge: "finite (dom m) \<Longrightarrow> m k = Some v \<Longrightarrow> f v \<le> msum f m"
  using msum_drop [of m f k] by simp

lemma msum_mono:
  "(\<And>k v. m k = Some v \<Longrightarrow> f v \<le> g v) \<Longrightarrow> msum f m \<le> msum g m"
  unfolding msum_def by (rule sum_mono) auto

lemma msum_empty [simp]: "msum f Map.empty = 0"
  by (simp add: msum_def)

lemma finite_dom_upd [simp]: "finite (dom (m(k := x))) \<longleftrightarrow> finite (dom m)"
proof -
  have "dom (m(k := x)) \<subseteq> insert k (dom m)" "dom m \<subseteq> insert k (dom (m(k := x)))" by auto
  then show ?thesis by (meson finite_insert finite_subset)
qed

section \<open>State machines with an invariant\<close>

locale invariant_system =
  fixes init :: "'s \<Rightarrow> bool"
    and step :: "'s \<Rightarrow> 's \<Rightarrow> bool"
    and inv :: "'s \<Rightarrow> bool"
  assumes inv_init: "init s \<Longrightarrow> inv s"
    and inv_step: "inv s \<Longrightarrow> step s t \<Longrightarrow> inv t"
begin

lemma inv_steps: "step\<^sup>*\<^sup>* s t \<Longrightarrow> inv s \<Longrightarrow> inv t"
  by (induction rule: rtranclp_induct) (auto intro: inv_step)

lemma inv_reachable: "init s \<Longrightarrow> step\<^sup>*\<^sup>* s t \<Longrightarrow> inv t"
  using inv_init inv_steps by blast

end

end
