(* ===== verification/Codec.thy ===== *)
theory Codec
  imports Prelude "HOL-Library.Monad_Syntax"
begin

text \<open>
  Byte streams: how the program writes fixed-width values to a \<^verbatim>\<open>rai::stream\<close> and reads them
  back (\<^verbatim>\<open>rai::read\<close> and \<^verbatim>\<open>rai::write\<close> of \<^verbatim>\<open>rai/lib/blocks.hpp\<close>).

  A \<^verbatim>\<open>uint128_union\<close>, \<^verbatim>\<open>uint256_union\<close> or \<^verbatim>\<open>uint512_union\<close> is identified with the number its bytes
  denote, most significant byte first; \<open>Numbers\<close> proves that the conversion loops of the source
  are this identification.  A plain integer is written as the host lays it out; the model is the
  little-endian host the wire format presupposes.  An input stream is the list of bytes not read
  yet, and a short read is \<open>None\<close>.

  The interface \<open>codec\<close> states what a serialiser and a deserialiser owe each other; it is
  interpreted for the integers here and for blocks, database records and votes in their theories.
\<close>

section \<open>Byte images of words\<close>

fun le_bytes :: "nat \<Rightarrow> 'a::len word \<Rightarrow> byte list" where
  "le_bytes 0 w = []"
| "le_bytes (Suc n) w = ucast w # le_bytes n (drop_bit 8 w)"

fun of_le_bytes :: "byte list \<Rightarrow> 'a::len word" where
  "of_le_bytes [] = 0"
| "of_le_bytes (b # bs) = ucast b OR push_bit 8 (of_le_bytes bs)"

definition be_bytes :: "nat \<Rightarrow> 'a::len word \<Rightarrow> byte list" where
  "be_bytes n w = rev (le_bytes n w)"

definition of_be_bytes :: "byte list \<Rightarrow> 'a::len word" where
  "of_be_bytes bs = of_le_bytes (rev bs)"

lemma length_le_bytes [simp]: "length (le_bytes n w) = n"
  by (induction n arbitrary: w) auto

lemma length_be_bytes [simp]: "length (be_bytes n w) = n"
  by (simp add: be_bytes_def)

lemma of_le_bytes_le_bytes: "of_le_bytes (le_bytes n w) = take_bit (8 * n) (w :: 'a::len word)"
proof (induction n arbitrary: w)
  case 0
  then show ?case by simp
next
  case (Suc n)
  show ?case
    unfolding le_bytes.simps of_le_bytes.simps Suc.IH
    by (rule bit_word_eqI)
      (auto simp: bit_simps not_less dest: bit_imp_le_length)
qed

lemma bit_of_le_bytes_less:
  "bit (of_le_bytes bs :: 'a::len word) k \<Longrightarrow> k < 8 * length bs"
proof (induction bs arbitrary: k)
  case (Cons b bs)
  then show ?case
    by (cases "k < 8") (auto simp: bit_simps dest: Cons.IH bit_imp_le_length)
qed simp

lemma le_bytes_of_le_bytes:
  "8 * length bs \<le> LENGTH('a) \<Longrightarrow> le_bytes (length bs) (of_le_bytes bs :: 'a::len word) = bs"
proof (induction bs)
  case (Cons b bs)
  have "ucast (ucast b OR push_bit 8 (of_le_bytes bs) :: 'a word) = b"
    using Cons.prems by (intro bit_word_eqI) (auto simp: bit_simps)
  moreover have "drop_bit 8 (ucast b OR push_bit 8 (of_le_bytes bs) :: 'a word) = of_le_bytes bs"
    using Cons.prems
    by (intro bit_word_eqI) (auto simp: bit_simps dest: bit_imp_le_length bit_of_le_bytes_less)
  ultimately show ?case using Cons by simp
qed simp

text \<open>Evaluation goes through the integers.\<close>

fun int_of_le_bytes :: "byte list \<Rightarrow> int" where
  "int_of_le_bytes [] = 0"
| "int_of_le_bytes (b # bs) = uint b + 256 * int_of_le_bytes bs"

lemma push_bit_8: "push_bit 8 x = 256 * (x :: 'a::len word)"
  by (simp add: push_bit_eq_mult mult.commute)

lemma of_le_bytes_code [code]: "of_le_bytes bs = (word_of_int (int_of_le_bytes bs) :: 'a::len word)"
proof (induction bs)
  case (Cons b bs)
  have "of_le_bytes (b # bs) = (ucast b OR push_bit 8 (of_le_bytes bs) :: 'a word)" by simp
  also have "\<dots> = ucast b + push_bit 8 (of_le_bytes bs)"
    by (rule disjunctive_add [symmetric], auto simp: bit_simps dest: bit_imp_le_length)
  also have "\<dots> = word_of_int (int_of_le_bytes (b # bs))"
    by (simp only: Cons.IH push_bit_8 ucast_eq int_of_le_bytes.simps of_int_add of_int_mult of_int_numeral)
  finally show ?case .
qed simp

fun int_le_bytes :: "nat \<Rightarrow> int \<Rightarrow> byte list" where
  "int_le_bytes 0 i = []"
| "int_le_bytes (Suc n) i =
     (if i = 0 then replicate (Suc n) 0 else word_of_int (i mod 256) # int_le_bytes n (i div 256))"

lemma int_le_bytes_zero: "int_le_bytes n 0 = replicate n 0"
  by (cases n) auto

lemma le_bytes_code [code]: "le_bytes n w = int_le_bytes n (uint (w :: 'a::len word))"
proof (induction n arbitrary: w)
  case (Suc n)
  have m: "uint w mod 256 = take_bit 8 (uint w)" by (simp add: take_bit_eq_mod)
  have "ucast w = (word_of_int (uint w mod 256) :: byte)"
    unfolding m by (intro bit_word_eqI) (auto simp: bit_simps dest: bit_imp_le_length)
  moreover have "uint (drop_bit 8 w) = uint w div 256"
    using drop_bit_eq_div [of 8 "uint w"] by (simp only: unsigned_drop_bit_eq) (simp add: take_bit_int_eq_self)
  ultimately show ?case using Suc.IH [of "drop_bit 8 w"]
    by (cases "uint w = 0") (auto simp: int_le_bytes_zero)
qed simp

lemma of_be_bytes_be_bytes:
  "LENGTH('a) \<le> 8 * n \<Longrightarrow> of_be_bytes (be_bytes n w) = (w :: 'a::len word)"
  by (simp add: be_bytes_def of_be_bytes_def of_le_bytes_le_bytes take_bit_word_eq_self)

lemma be_bytes_of_be_bytes:
  "8 * length bs \<le> LENGTH('a) \<Longrightarrow> be_bytes (length bs) (of_be_bytes bs :: 'a::len word) = bs"
  using le_bytes_of_le_bytes [of "rev bs", where 'a = 'a] by (simp add: be_bytes_def of_be_bytes_def)

section \<open>Reading and writing streams\<close>

definition read_raw :: "nat \<Rightarrow> byte list \<Rightarrow> (byte list \<times> byte list) option" where
  "read_raw n s = (if n \<le> length s then Some (take n s, drop n s) else None)"

definition write_be :: "'a::len word \<Rightarrow> byte list" where
  "write_be w = be_bytes (LENGTH('a) div 8) w"

definition read_be :: "byte list \<Rightarrow> ('a::len word \<times> byte list) option" where
  "read_be s = map_option (\<lambda>(bs, r). (of_be_bytes bs, r)) (read_raw (LENGTH('a) div 8) s)"

definition write_le :: "'a::len word \<Rightarrow> byte list" where
  "write_le w = le_bytes (LENGTH('a) div 8) w"

definition read_le :: "byte list \<Rightarrow> ('a::len word \<times> byte list) option" where
  "read_le s = map_option (\<lambda>(bs, r). (of_le_bytes bs, r)) (read_raw (LENGTH('a) div 8) s)"

locale codec =
  fixes ser :: "'a \<Rightarrow> byte list"
    and des :: "byte list \<Rightarrow> ('a \<times> byte list) option"
    and ok :: "'a \<Rightarrow> bool"
  assumes des_ser: "ok x \<Longrightarrow> des (ser x @ r) = Some (x, r)"
    and ser_des: "des s = Some (x, r) \<Longrightarrow> s = ser x @ r \<and> ok x"
begin

lemma des_ser_nil: "ok x \<Longrightarrow> des (ser x) = Some (x, [])"
  using des_ser [of x "[]"] by simp

lemma ser_inj_append: "ok x \<Longrightarrow> ok y \<Longrightarrow> ser x @ r = ser y @ t \<Longrightarrow> x = y \<and> r = t"
  by (metis des_ser option.inject prod.inject)

lemma ser_inj: "ok x \<Longrightarrow> ok y \<Longrightarrow> ser x = ser y \<Longrightarrow> x = y"
  using ser_inj_append [of x y "[]" "[]"] by simp

lemma des_iff: "des s = Some (x, r) \<longleftrightarrow> s = ser x @ r \<and> ok x"
  using des_ser ser_des by blast

lemma des_truncated:
  assumes "ok x" "s @ t = ser x" "t \<noteq> []"
  shows "des s = None"
proof (cases "des s")
  case (Some p)
  then obtain y r where "des s = Some (y, r)" by (cases p) auto
  then have y: "s = ser y @ r" "ok y" using ser_des by blast+
  with assms have "ser x @ [] = ser y @ (r @ t)" by simp
  with y assms(1) have "[] = r @ t" using ser_inj_append by blast
  with assms(3) show ?thesis by simp
qed

end

lemma codec_be:
  assumes "LENGTH('a) = 8 * n"
  shows "codec (write_be :: 'a::len word \<Rightarrow> byte list) read_be (\<lambda>_. True)"
proof
  fix x :: "'a word" and r
  show "read_be (write_be x @ r) = Some (x, r)"
    using assms by (simp add: read_be_def write_be_def read_raw_def of_be_bytes_be_bytes)
next
  fix s x r
  assume "read_be s = Some (x :: 'a word, r)"
  then show "s = write_be x @ r \<and> True"
    using assms be_bytes_of_be_bytes [where 'a = 'a, of "take n s"]
    by (auto simp: read_be_def write_be_def read_raw_def split: if_splits)
qed

lemma codec_le:
  assumes "LENGTH('a) = 8 * n"
  shows "codec (write_le :: 'a::len word \<Rightarrow> byte list) read_le (\<lambda>_. True)"
proof
  fix x :: "'a word" and r
  show "read_le (write_le x @ r) = Some (x, r)"
    using assms by (simp add: read_le_def write_le_def read_raw_def of_le_bytes_le_bytes take_bit_word_eq_self)
next
  fix s x r
  assume "read_le s = Some (x :: 'a word, r)"
  then show "s = write_le x @ r \<and> True"
    using assms le_bytes_of_le_bytes [where 'a = 'a, of "take n s"]
    by (auto simp: read_le_def write_le_def read_raw_def split: if_splits)
qed

interpretation u8c: codec "write_le :: 8 word \<Rightarrow> byte list" read_le "\<lambda>_. True"
  by (rule codec_le [where n = 1]) simp
interpretation u64c: codec "write_le :: 64 word \<Rightarrow> byte list" read_le "\<lambda>_. True"
  by (rule codec_le [where n = 8]) simp
interpretation u128c: codec "write_be :: 128 word \<Rightarrow> byte list" read_be "\<lambda>_. True"
  by (rule codec_be [where n = 16]) simp
interpretation u256c: codec "write_be :: 256 word \<Rightarrow> byte list" read_be "\<lambda>_. True"
  by (rule codec_be [where n = 32]) simp
interpretation u512c: codec "write_be :: 512 word \<Rightarrow> byte list" read_be "\<lambda>_. True"
  by (rule codec_be [where n = 64]) simp

lemmas word_codecs [codec_simps] =
  u8c.des_ser [OF TrueI] u64c.des_ser [OF TrueI] u128c.des_ser [OF TrueI]
  u256c.des_ser [OF TrueI] u512c.des_ser [OF TrueI]
  u8c.des_ser_nil [OF TrueI] u64c.des_ser_nil [OF TrueI] u128c.des_ser_nil [OF TrueI]
  u256c.des_ser_nil [OF TrueI] u512c.des_ser_nil [OF TrueI]

lemmas word_des_iff = u8c.des_iff u64c.des_iff u128c.des_iff u256c.des_iff u512c.des_iff

lemma length_write_be [simp]: "length (write_be (w :: 'a::len word)) = LENGTH('a) div 8"
  by (simp add: write_be_def)

lemma length_write_le [simp]: "length (write_le (w :: 'a::len word)) = LENGTH('a) div 8"
  by (simp add: write_le_def)

end
