(* ===== verification/Blocks.thy ===== *)
theory Blocks
  imports Codec
begin

text \<open>
  The five block types of \<^verbatim>\<open>rai/lib/blocks.hpp\<close> and \<^verbatim>\<open>rai/lib/blocks.cpp\<close>: their fields, the byte
  string a block is hashed over, the accessors of the virtual interface of \<^verbatim>\<open>rai::block\<close>, and the
  binary serialisation.  The dynamic type of a \<^verbatim>\<open>rai::block\<close> is the constructor of \<open>block\<close>, so a
  visitor is a case distinction.

  BLAKE2b is a parameter: \<open>blake2b n bs\<close> is the \<open>n\<close>-byte digest of \<open>bs\<close>; the successive
  \<^verbatim>\<open>blake2b_update\<close> calls of the source are the concatenation of their arguments.
\<close>

section \<open>Block types\<close>

record send_hashables =
  send_previous :: u256
  send_destination :: u256
  send_balance :: u128

record send_hashables_v2 =
  send_v2_previous :: u256
  send_v2_destination :: u256
  send_v2_action :: "byte list"

record receive_hashables =
  receive_previous :: u256
  receive_source :: u256

record open_hashables =
  open_source :: u256
  open_representative :: u256
  open_account :: u256

record change_hashables =
  change_previous :: u256
  change_representative :: u256

text \<open>Every block carries its hashables, a signature and the proof of work.\<close>

datatype block =
    Send send_hashables u512 u64
  | Send_v2 send_hashables_v2 u512 u64
  | Receive receive_hashables u512 u64
  | Open open_hashables u512 u64
  | Change change_hashables u512 u64

datatype block_type = Type_invalid | Type_not_a_block | Type_send | Type_receive | Type_open
  | Type_change | Type_send_v2

fun type_code :: "block_type \<Rightarrow> byte" where
  "type_code Type_invalid = 0"
| "type_code Type_not_a_block = 1"
| "type_code Type_send = 2"
| "type_code Type_receive = 3"
| "type_code Type_open = 4"
| "type_code Type_change = 5"
| "type_code Type_send_v2 = 6"

fun type_of_block :: "block \<Rightarrow> block_type" where
  "type_of_block (Send _ _ _) = Type_send"
| "type_of_block (Send_v2 _ _ _) = Type_send_v2"
| "type_of_block (Receive _ _ _) = Type_receive"
| "type_of_block (Open _ _ _) = Type_open"
| "type_of_block (Change _ _ _) = Type_change"

section \<open>Accessors\<close>

fun previous :: "block \<Rightarrow> u256" where
  "previous (Send h _ _) = send_previous h"
| "previous (Send_v2 h _ _) = send_v2_previous h"
| "previous (Receive h _ _) = receive_previous h"
| "previous (Open h _ _) = 0"
| "previous (Change h _ _) = change_previous h"

fun source :: "block \<Rightarrow> u256" where
  "source (Send h _ _) = 0"
| "source (Send_v2 h _ _) = 0"
| "source (Receive h _ _) = receive_source h"
| "source (Open h _ _) = open_source h"
| "source (Change h _ _) = 0"

fun root :: "block \<Rightarrow> u256" where
  "root (Send h _ _) = send_previous h"
| "root (Send_v2 h _ _) = send_v2_previous h"
| "root (Receive h _ _) = receive_previous h"
| "root (Open h _ _) = open_account h"
| "root (Change h _ _) = change_previous h"

fun representative :: "block \<Rightarrow> u256" where
  "representative (Send h _ _) = 0"
| "representative (Send_v2 h _ _) = 0"
| "representative (Receive h _ _) = 0"
| "representative (Open h _ _) = open_representative h"
| "representative (Change h _ _) = change_representative h"

fun block_signature :: "block \<Rightarrow> u512" where
  "block_signature (Send _ s _) = s"
| "block_signature (Send_v2 _ s _) = s"
| "block_signature (Receive _ s _) = s"
| "block_signature (Open _ s _) = s"
| "block_signature (Change _ s _) = s"

fun signature_set :: "u512 \<Rightarrow> block \<Rightarrow> block" where
  "signature_set s (Send h _ w) = Send h s w"
| "signature_set s (Send_v2 h _ w) = Send_v2 h s w"
| "signature_set s (Receive h _ w) = Receive h s w"
| "signature_set s (Open h _ w) = Open h s w"
| "signature_set s (Change h _ w) = Change h s w"

fun block_work :: "block \<Rightarrow> u64" where
  "block_work (Send _ _ w) = w"
| "block_work (Send_v2 _ _ w) = w"
| "block_work (Receive _ _ w) = w"
| "block_work (Open _ _ w) = w"
| "block_work (Change _ _ w) = w"

fun block_work_set :: "u64 \<Rightarrow> block \<Rightarrow> block" where
  "block_work_set w (Send h s _) = Send h s w"
| "block_work_set w (Send_v2 h s _) = Send_v2 h s w"
| "block_work_set w (Receive h s _) = Receive h s w"
| "block_work_set w (Open h s _) = Open h s w"
| "block_work_set w (Change h s _) = Change h s w"

section \<open>Hashing\<close>

text \<open>The bytes fed to BLAKE2b by the \<^verbatim>\<open>hash (blake2b_state &)\<close> members of the hashables.\<close>

definition send_hashables_hash :: "send_hashables \<Rightarrow> byte list" where
  [simp]: "send_hashables_hash h =
     write_be (send_previous h) @ write_be (send_destination h) @ write_be (send_balance h)"

definition send_hashables_v2_hash :: "send_hashables_v2 \<Rightarrow> byte list" where
  [simp]: "send_hashables_v2_hash h =
     write_be (send_v2_previous h) @ write_be (send_v2_destination h) @ send_v2_action h"

definition receive_hashables_hash :: "receive_hashables \<Rightarrow> byte list" where
  [simp]: "receive_hashables_hash h = write_be (receive_previous h) @ write_be (receive_source h)"

definition open_hashables_hash :: "open_hashables \<Rightarrow> byte list" where
  [simp]: "open_hashables_hash h =
     write_be (open_source h) @ write_be (open_representative h) @ write_be (open_account h)"

definition change_hashables_hash :: "change_hashables \<Rightarrow> byte list" where
  [simp]: "change_hashables_hash h = write_be (change_previous h) @ write_be (change_representative h)"

fun hash_input :: "block \<Rightarrow> byte list" where
  "hash_input (Send h _ _) = send_hashables_hash h"
| "hash_input (Send_v2 h _ _) = send_hashables_v2_hash h"
| "hash_input (Receive h _ _) = receive_hashables_hash h"
| "hash_input (Open h _ _) = open_hashables_hash h"
| "hash_input (Change h _ _) = change_hashables_hash h"

definition block_hash :: "(nat \<Rightarrow> byte list \<Rightarrow> byte list) \<Rightarrow> block \<Rightarrow> u256" where
  "block_hash blake2b b = of_be_bytes (blake2b 32 (hash_input b))"

section \<open>Variable-length byte strings\<close>

text \<open>
  \<^verbatim>\<open>read_bytes\<close> reads a two-byte length without looking at the result of the two reads: when the
  stream is exhausted, the uninitialised locals \<^verbatim>\<open>c1\<close> and \<^verbatim>\<open>c2\<close> keep the memory content \<open>junk\<close>.
  The bytes are appended to what the vector holds already.
\<close>

fun sgetc :: "byte \<Rightarrow> byte list \<Rightarrow> byte \<times> byte list" where
  "sgetc junk [] = (junk, [])"
| "sgetc junk (c # s) = (c, s)"

fun read_bytes_loop :: "nat \<Rightarrow> byte list \<Rightarrow> byte list \<Rightarrow> (byte list \<times> byte list) option" where
  "read_bytes_loop 0 s bytes = Some (bytes, s)"
| "read_bytes_loop (Suc n) [] bytes = None"
| "read_bytes_loop (Suc n) (c # s) bytes = read_bytes_loop n s (bytes @ [c])"

definition read_bytes ::
    "byte \<times> byte \<Rightarrow> byte list \<Rightarrow> byte list \<Rightarrow> (byte list \<times> byte list) option" where
  "read_bytes junk bytes s =
     (let (c1, s1) = sgetc (fst junk) s;
          (c2, s2) = sgetc (snd junk) s1
      in read_bytes_loop (unat c1 + unat c2 * 256) s2 bytes)"

definition write_bytes :: "byte list \<Rightarrow> byte list" where
  "write_bytes bytes =
     [of_nat (length bytes mod 256), of_nat (length bytes div 256)] @ bytes"

section \<open>Binary serialisation\<close>

definition send_block_serialize :: "send_hashables \<Rightarrow> u512 \<Rightarrow> u64 \<Rightarrow> byte list" where
  [simp]: "send_block_serialize h sig work =
     write_be (send_previous h) @ write_be (send_destination h) @ write_be (send_balance h) @
     write_be sig @ write_le work"

definition send_block_v2_serialize :: "send_hashables_v2 \<Rightarrow> u512 \<Rightarrow> u64 \<Rightarrow> byte list" where
  [simp]: "send_block_v2_serialize h sig work =
     write_be (send_v2_previous h) @ write_be (send_v2_destination h) @
     write_bytes (send_v2_action h) @ write_be sig @ write_le work"

definition receive_block_serialize :: "receive_hashables \<Rightarrow> u512 \<Rightarrow> u64 \<Rightarrow> byte list" where
  [simp]: "receive_block_serialize h sig work =
     write_be (receive_previous h) @ write_be (receive_source h) @ write_be sig @ write_le work"

definition open_block_serialize :: "open_hashables \<Rightarrow> u512 \<Rightarrow> u64 \<Rightarrow> byte list" where
  [simp]: "open_block_serialize h sig work =
     write_be (open_source h) @ write_be (open_representative h) @ write_be (open_account h) @
     write_be sig @ write_le work"

definition change_block_serialize :: "change_hashables \<Rightarrow> u512 \<Rightarrow> u64 \<Rightarrow> byte list" where
  [simp]: "change_block_serialize h sig work =
     write_be (change_previous h) @ write_be (change_representative h) @ write_be sig @ write_le work"

fun serialize :: "block \<Rightarrow> byte list" where
  "serialize (Send h sig work) = send_block_serialize h sig work"
| "serialize (Send_v2 h sig work) = send_block_v2_serialize h sig work"
| "serialize (Receive h sig work) = receive_block_serialize h sig work"
| "serialize (Open h sig work) = open_block_serialize h sig work"
| "serialize (Change h sig work) = change_block_serialize h sig work"

text \<open>The stream constructors of the hashables and of the blocks.\<close>

definition send_hashables_read :: "byte list \<Rightarrow> (send_hashables \<times> byte list) option" where
  "send_hashables_read s = do {
     (p, s) \<leftarrow> read_be s;
     (d, s) \<leftarrow> read_be s;
     (b, s) \<leftarrow> read_be s;
     Some (\<lparr>send_previous = p, send_destination = d, send_balance = b\<rparr>, s) }"

definition send_block_read :: "byte list \<Rightarrow> (block \<times> byte list) option" where
  "send_block_read s = do {
     (h, s) \<leftarrow> send_hashables_read s;
     (sig, s) \<leftarrow> read_be s;
     (work, s) \<leftarrow> read_le s;
     Some (Send h sig work, s) }"

definition send_hashables_v2_read ::
    "byte \<times> byte \<Rightarrow> byte list \<Rightarrow> (send_hashables_v2 \<times> byte list) option" where
  "send_hashables_v2_read junk s = do {
     (p, s) \<leftarrow> read_be s;
     (d, s) \<leftarrow> read_be s;
     (a, s) \<leftarrow> read_bytes junk [] s;
     Some (\<lparr>send_v2_previous = p, send_v2_destination = d, send_v2_action = a\<rparr>, s) }"

definition send_block_v2_read ::
    "byte \<times> byte \<Rightarrow> byte list \<Rightarrow> (block \<times> byte list) option" where
  "send_block_v2_read junk s = do {
     (h, s) \<leftarrow> send_hashables_v2_read junk s;
     (sig, s) \<leftarrow> read_be s;
     (work, s) \<leftarrow> read_le s;
     Some (Send_v2 h sig work, s) }"

definition receive_hashables_read :: "byte list \<Rightarrow> (receive_hashables \<times> byte list) option" where
  "receive_hashables_read s = do {
     (p, s) \<leftarrow> read_be s;
     (src, s) \<leftarrow> read_be s;
     Some (\<lparr>receive_previous = p, receive_source = src\<rparr>, s) }"

definition receive_block_read :: "byte list \<Rightarrow> (block \<times> byte list) option" where
  "receive_block_read s = do {
     (h, s) \<leftarrow> receive_hashables_read s;
     (sig, s) \<leftarrow> read_be s;
     (work, s) \<leftarrow> read_le s;
     Some (Receive h sig work, s) }"

definition open_hashables_read :: "byte list \<Rightarrow> (open_hashables \<times> byte list) option" where
  "open_hashables_read s = do {
     (src, s) \<leftarrow> read_be s;
     (r, s) \<leftarrow> read_be s;
     (a, s) \<leftarrow> read_be s;
     Some (\<lparr>open_source = src, open_representative = r, open_account = a\<rparr>, s) }"

definition open_block_read :: "byte list \<Rightarrow> (block \<times> byte list) option" where
  "open_block_read s = do {
     (h, s) \<leftarrow> open_hashables_read s;
     (sig, s) \<leftarrow> read_be s;
     (work, s) \<leftarrow> read_le s;
     Some (Open h sig work, s) }"

definition change_hashables_read :: "byte list \<Rightarrow> (change_hashables \<times> byte list) option" where
  "change_hashables_read s = do {
     (p, s) \<leftarrow> read_be s;
     (r, s) \<leftarrow> read_be s;
     Some (\<lparr>change_previous = p, change_representative = r\<rparr>, s) }"

definition change_block_read :: "byte list \<Rightarrow> (block \<times> byte list) option" where
  "change_block_read s = do {
     (h, s) \<leftarrow> change_hashables_read s;
     (sig, s) \<leftarrow> read_be s;
     (work, s) \<leftarrow> read_le s;
     Some (Change h sig work, s) }"

text \<open>
  \<^verbatim>\<open>rai::deserialize_block\<close>, with the type known and with the type as the first byte.  A null
  pointer is \<open>None\<close>; an unknown type trips \<^verbatim>\<open>assert (false)\<close>.
\<close>

definition deserialize_block_typed ::
    "byte \<times> byte \<Rightarrow> byte list \<Rightarrow> byte \<Rightarrow> (block \<times> byte list) option outcome" where
  "deserialize_block_typed junk s t =
     (if t = type_code Type_receive then Ret (receive_block_read s)
      else if t = type_code Type_send then Ret (send_block_read s)
      else if t = type_code Type_send_v2 then Ret (send_block_v2_read junk s)
      else if t = type_code Type_open then Ret (open_block_read s)
      else if t = type_code Type_change then Ret (change_block_read s)
      else Abort)"

definition deserialize_block ::
    "byte \<times> byte \<Rightarrow> byte list \<Rightarrow> (block \<times> byte list) option outcome" where
  "deserialize_block junk s =
     (case read_le s of
        None \<Rightarrow> Ret None
      | Some (t, s) \<Rightarrow> deserialize_block_typed junk s t)"

definition serialize_block :: "block \<Rightarrow> byte list" where
  "serialize_block b = write_le (type_code (type_of_block b)) @ serialize b"

section \<open>Round trips\<close>

text \<open>
  The action of a \<^verbatim>\<open>send_block_v2\<close> is preceded by a two-byte length, so only blocks whose action is
  shorter than \<open>65536\<close> bytes can be read back.
\<close>

definition serializable :: "block \<Rightarrow> bool" where
  "serializable b = (case b of Send_v2 h _ _ \<Rightarrow> length (send_v2_action h) < 65536 | _ \<Rightarrow> True)"

lemma read_bytes_loop_eq:
  "read_bytes_loop n s bytes = (if n \<le> length s then Some (bytes @ take n s, drop n s) else None)"
  by (induction n s bytes rule: read_bytes_loop.induct) auto

lemma unat_of_nat_byte: "unat (of_nat n :: byte) = n mod 256"
  by (simp add: unat_of_nat take_bit_eq_mod)

lemma read_bytes_write_bytes:
  assumes "length bs < 65536"
  shows "read_bytes junk bytes (write_bytes bs @ r) = Some (bytes @ bs, r)"
proof -
  have "length bs div 256 mod 256 = length bs div 256"
    using assms by (simp add: mod_less)
  then show ?thesis
    by (simp add: read_bytes_def write_bytes_def read_bytes_loop_eq unat_of_nat_byte)
qed

lemma write_bytes_read_bytes:
  assumes "read_bytes junk [] s = Some (bs, r)" "r \<noteq> []"
  shows "s = write_bytes bs @ r \<and> length bs < 65536"
proof (cases s)
  case Nil
  with assms show ?thesis by (auto simp: read_bytes_def read_bytes_loop_eq split: if_splits)
next
  case (Cons c1 s1)
  show ?thesis
  proof (cases s1)
    case Nil
    with Cons assms show ?thesis by (auto simp: read_bytes_def read_bytes_loop_eq split: if_splits)
  next
    case (Cons c2 s2)
    have "unat c1 < 256" "unat c2 < 256" using unsigned_less [where 'a = nat, of c1] unsigned_less [where 'a = nat, of c2] by simp_all
    moreover from this have "unat c1 + unat c2 * 256 < 65536" by simp
    ultimately show ?thesis using assms \<open>s = c1 # s1\<close> Cons
      by (auto simp: read_bytes_def write_bytes_def read_bytes_loop_eq split: if_splits)
  qed
qed

lemmas block_reads =
  send_hashables_read_def send_block_read_def send_hashables_v2_read_def send_block_v2_read_def
  receive_hashables_read_def receive_block_read_def open_hashables_read_def open_block_read_def
  change_hashables_read_def change_block_read_def

interpretation send_codec: codec serialize send_block_read "\<lambda>b. type_of_block b = Type_send"
proof
  fix b r assume "type_of_block b = Type_send"
  then show "send_block_read (serialize b @ r) = Some (b, r)"
    by (cases b) (simp_all add: block_reads codec_simps)
next
  fix s b r assume "send_block_read s = Some (b, r)"
  then show "s = serialize b @ r \<and> type_of_block b = Type_send"
    by (auto simp: block_reads Option.bind_eq_Some_conv word_des_iff)
qed

interpretation receive_codec: codec serialize receive_block_read "\<lambda>b. type_of_block b = Type_receive"
proof
  fix b r assume "type_of_block b = Type_receive"
  then show "receive_block_read (serialize b @ r) = Some (b, r)"
    by (cases b) (simp_all add: block_reads codec_simps)
next
  fix s b r assume "receive_block_read s = Some (b, r)"
  then show "s = serialize b @ r \<and> type_of_block b = Type_receive"
    by (auto simp: block_reads Option.bind_eq_Some_conv word_des_iff)
qed

interpretation open_codec: codec serialize open_block_read "\<lambda>b. type_of_block b = Type_open"
proof
  fix b r assume "type_of_block b = Type_open"
  then show "open_block_read (serialize b @ r) = Some (b, r)"
    by (cases b) (simp_all add: block_reads codec_simps)
next
  fix s b r assume "open_block_read s = Some (b, r)"
  then show "s = serialize b @ r \<and> type_of_block b = Type_open"
    by (auto simp: block_reads Option.bind_eq_Some_conv word_des_iff)
qed

interpretation change_codec: codec serialize change_block_read "\<lambda>b. type_of_block b = Type_change"
proof
  fix b r assume "type_of_block b = Type_change"
  then show "change_block_read (serialize b @ r) = Some (b, r)"
    by (cases b) (simp_all add: block_reads codec_simps)
next
  fix s b r assume "change_block_read s = Some (b, r)"
  then show "s = serialize b @ r \<and> type_of_block b = Type_change"
    by (auto simp: block_reads Option.bind_eq_Some_conv word_des_iff)
qed

interpretation send_v2_codec: codec serialize "send_block_v2_read junk"
  "\<lambda>b. type_of_block b = Type_send_v2 \<and> serializable b" for junk
proof
  fix b r assume "type_of_block b = Type_send_v2 \<and> serializable b"
  then show "send_block_v2_read junk (serialize b @ r) = Some (b, r)"
    by (cases b) (simp_all add: block_reads codec_simps read_bytes_write_bytes serializable_def)
next
  fix s b r assume "send_block_v2_read junk s = Some (b, r)"
  then obtain p d a s3 sig w where s: "s = write_be p @ write_be d @ s3"
    and a: "read_bytes junk [] s3 = Some (a, write_be sig @ write_le w @ r)"
    and b: "b = Send_v2 \<lparr>send_v2_previous = p, send_v2_destination = d, send_v2_action = a\<rparr> sig w"
    by (auto simp: block_reads Option.bind_eq_Some_conv word_des_iff)
  have "write_be sig @ write_le w @ r \<noteq> []"
    by (simp flip: length_greater_0_conv)
  with a have "s3 = write_bytes a @ write_be sig @ write_le w @ r \<and> length a < 65536"
    by (rule write_bytes_read_bytes)
  with s b show "s = serialize b @ r \<and> type_of_block b = Type_send_v2 \<and> serializable b"
    by (simp add: serializable_def)
qed

lemma type_code_inj [simp]: "type_code s = type_code t \<longleftrightarrow> s = t"
  by (cases s; cases t) simp_all

text \<open>The two directions of \<open>rai::serialize_block\<close> and \<open>rai::deserialize_block\<close>.\<close>

lemma deserialize_block_typed_serialize:
  "serializable b \<Longrightarrow>
   deserialize_block_typed junk (serialize b @ r) (type_code (type_of_block b)) = Ret (Some (b, r))"
  using send_codec.des_ser receive_codec.des_ser open_codec.des_ser change_codec.des_ser
    send_v2_codec.des_ser
  by (cases "type_of_block b"; cases b) (simp_all add: deserialize_block_typed_def del: type_code.simps serialize.simps)

lemma deserialize_block_typed_Some:
  "deserialize_block_typed junk s t = Ret (Some (b, r)) \<Longrightarrow>
   s = serialize b @ r \<and> t = type_code (type_of_block b) \<and> serializable b"
  by (auto simp: deserialize_block_typed_def serializable_def split: if_splits block.split
      dest!: send_codec.ser_des receive_codec.ser_des open_codec.ser_des change_codec.ser_des
        send_v2_codec.ser_des)

definition deserialize_block_opt ::
    "byte \<times> byte \<Rightarrow> byte list \<Rightarrow> (block \<times> byte list) option" where
  "deserialize_block_opt junk s = (case deserialize_block junk s of Ret x \<Rightarrow> x | _ \<Rightarrow> None)"

interpretation block_codec: codec serialize_block "deserialize_block_opt junk" serializable for junk
proof
  fix b r assume "serializable b"
  then show "deserialize_block_opt junk (serialize_block b @ r) = Some (b, r)"
    by (simp add: deserialize_block_opt_def deserialize_block_def serialize_block_def codec_simps
        deserialize_block_typed_serialize)
next
  fix s b r assume "deserialize_block_opt junk s = Some (b, r)"
  then obtain t s' where "s = write_le t @ s'" "deserialize_block_typed junk s' t = Ret (Some (b, r))"
    by (auto simp: deserialize_block_opt_def deserialize_block_def word_des_iff
        split: option.splits outcome.splits)
  then show "s = serialize_block b @ r \<and> serializable b"
    by (auto simp: serialize_block_def dest: deserialize_block_typed_Some)
qed

section \<open>Properties\<close>

text \<open>
  C23: reading back a serialised block gives the block and leaves exactly the bytes that followed it,
  for every block whose action fits its two-byte length.
\<close>

theorem block_roundtrip:
  assumes "serializable b"
  shows "deserialize_block junk (serialize_block b @ r) = Ret (Some (b, r))"
  using assms by (simp add: deserialize_block_def serialize_block_def codec_simps deserialize_block_typed_serialize)

theorem block_roundtrip_witness:
  "deserialize_block (3, 7) (serialize_block
     (Send_v2 \<lparr>send_v2_previous = 5, send_v2_destination = 6, send_v2_action = [1, 2, 3]\<rparr> 8 9) @ [42]) =
   Ret (Some (Send_v2 \<lparr>send_v2_previous = 5, send_v2_destination = 6, send_v2_action = [1, 2, 3]\<rparr> 8 9, [42]))"
  by (rule block_roundtrip) (simp add: serializable_def)

text \<open>
  C24: the wire format is canonical.  Two successful reads with the same remainder come from the same
  bytes exactly when they give the same block, whatever the uninitialised locals held.
\<close>

theorem block_canonical:
  assumes "deserialize_block junk s = Ret (Some (b, r))"
    and "deserialize_block junk' s' = Ret (Some (b', r))"
  shows "s = s' \<longleftrightarrow> b = b'"
proof -
  from assms have "s = serialize_block b @ r \<and> serializable b" "s' = serialize_block b' @ r \<and> serializable b'"
    using block_codec.ser_des [of junk s b r] block_codec.ser_des [of junk' s' b' r]
    by (simp_all add: deserialize_block_opt_def)
  then show ?thesis using block_codec.ser_inj [of b b'] by auto
qed

theorem block_canonical_witness:
  "(serialize_block (Change \<lparr>change_previous = 1, change_representative = 2\<rparr> 3 4) =
      serialize_block (Receive \<lparr>receive_previous = 1, receive_source = 2\<rparr> 3 4)) \<longleftrightarrow>
   (Change \<lparr>change_previous = 1, change_representative = 2\<rparr> 3 4 =
      Receive \<lparr>receive_previous = 1, receive_source = 2\<rparr> 3 4)"
  by (rule block_canonical [where junk = "(0, 0)" and junk' = "(1, 1)" and r = "[]"])
    (simp_all add: deserialize_block_def serialize_block_def codec_simps deserialize_block_typed_def
      block_reads)

end
