(* ===== verification/Block_Store.thy ===== *)
theory Block_Store
  imports Blocks "HOL-Library.Product_Lexorder"
begin

text \<open>
  The block store of \<^verbatim>\<open>rai/secure.cpp\<close>: the tables of the LMDB environment and the operations of
  \<^verbatim>\<open>rai::block_store\<close> on them.

  Every table maps a key to the bytes the program stores under it.  Keys that are a
  \<^verbatim>\<open>uint256_union\<close> are the word they denote, the key of the pending table is the pair of account and
  hash.  LMDB itself is used through \<open>mdb_get\<close>, \<open>mdb_put\<close> and \<open>mdb_del\<close>, whose documented
  behaviour is that of a finite map: \<open>mdb_del\<close> gives \<open>None\<close> for \<^verbatim>\<open>MDB_NOTFOUND\<close>.  The remaining LMDB
  errors (full map, I/O) abort the program through its assertions and are not modelled.
\<close>

section \<open>What the program takes from outside\<close>

text \<open>
  \<open>blake2b\<close>: the digest function.  \<open>ed25519_sign_open\<close>: signature verification of a message under a
  public key, zero when the signature is valid.  \<open>genesis_account\<close>: the account of the active
  network.  \<open>uninit\<close>: the memory content of the uninitialised locals of \<^verbatim>\<open>rai::read_bytes\<close>.
\<close>

record params =
  blake2b :: "nat \<Rightarrow> byte list \<Rightarrow> byte list"
  ed25519_sign_open :: "u256 \<Rightarrow> u256 \<Rightarrow> u512 \<Rightarrow> int"
  genesis_account :: u256
  uninit :: "byte \<times> byte"

abbreviation hash :: "params \<Rightarrow> block \<Rightarrow> u256" where
  "hash P b \<equiv> block_hash (blake2b P) b"

text \<open>\<^verbatim>\<open>rai::validate_message\<close> is true when the signature is \<^emph>\<open>not\<close> valid.\<close>

definition validate_message :: "params \<Rightarrow> u256 \<Rightarrow> u256 \<Rightarrow> u512 \<Rightarrow> bool" where
  "validate_message P public_key message signature \<longleftrightarrow>
     0 \<noteq> ed25519_sign_open P message public_key signature"

definition genesis_amount :: u128 where
  "genesis_amount = - 1"

definition burn_account :: u256 where
  "burn_account = 0"

section \<open>Records kept in the tables\<close>

record account_info =
  head :: u256
  rep_block :: u256
  open_block :: u256
  balance :: u128
  modified :: u64
  block_count :: u64

definition account_info_default :: account_info where
  "account_info_default = \<lparr>head = 0, rep_block = 0, open_block = 0, balance = 0, modified = 0,
     block_count = 0\<rparr>"

definition account_info_serialize :: "account_info \<Rightarrow> byte list" where
  "account_info_serialize i = write_be (head i) @ write_be (rep_block i) @ write_be (open_block i) @
     write_be (balance i) @ write_le (modified i) @ write_le (block_count i)"

definition account_info_deserialize :: "byte list \<Rightarrow> (account_info \<times> byte list) option" where
  "account_info_deserialize s = do {
     (h, s) \<leftarrow> read_be s;
     (r, s) \<leftarrow> read_be s;
     (ob, s) \<leftarrow> read_be s;
     (b, s) \<leftarrow> read_be s;
     (m, s) \<leftarrow> read_le s;
     (c, s) \<leftarrow> read_le s;
     Some (\<lparr>head = h, rep_block = r, open_block = ob, balance = b, modified = m, block_count = c\<rparr>, s) }"

record pending_info =
  pending_source :: u256
  pending_amount :: u128

type_synonym pending_key = "u256 \<times> u256"

definition pending_info_serialize :: "pending_info \<Rightarrow> byte list" where
  "pending_info_serialize i = write_be (pending_source i) @ write_be (pending_amount i)"

definition pending_info_deserialize :: "byte list \<Rightarrow> (pending_info \<times> byte list) option" where
  "pending_info_deserialize s = do {
     (a, s) \<leftarrow> read_be s;
     (m, s) \<leftarrow> read_be s;
     Some (\<lparr>pending_source = a, pending_amount = m\<rparr>, s) }"

record block_info =
  info_account :: u256
  info_balance :: u128

definition block_info_serialize :: "block_info \<Rightarrow> byte list" where
  "block_info_serialize i = write_be (info_account i) @ write_be (info_balance i)"

definition block_info_deserialize :: "byte list \<Rightarrow> (block_info \<times> byte list) option" where
  "block_info_deserialize s = do {
     (a, s) \<leftarrow> read_be s;
     (m, s) \<leftarrow> read_be s;
     Some (\<lparr>info_account = a, info_balance = m\<rparr>, s) }"

text \<open>
  \<^verbatim>\<open>account_info::val\<close>, \<^verbatim>\<open>pending_info::val\<close> and \<^verbatim>\<open>block_info::val\<close> hand the object itself to LMDB:
  the classes are packed (\<^verbatim>\<open>static_assert\<close>), so this is the byte image of their fields in order.
\<close>

definition account_info_val :: "account_info \<Rightarrow> byte list" where
  "account_info_val i = write_be (head i) @ write_be (rep_block i) @ write_be (open_block i) @
     write_be (balance i) @ write_le (modified i) @ write_le (block_count i)"

definition pending_info_val :: "pending_info \<Rightarrow> byte list" where
  "pending_info_val i = write_be (pending_source i) @ write_be (pending_amount i)"

definition block_info_val :: "block_info \<Rightarrow> byte list" where
  "block_info_val i = write_be (info_account i) @ write_be (info_balance i)"

section \<open>Tables\<close>

type_synonym table = "(u256, byte list) fmap"

record block_store =
  frontiers :: table
  accounts :: table
  vm_codes :: table
  send_blocks :: table
  send_blocks_v2 :: table
  receive_blocks :: table
  open_blocks :: table
  change_blocks :: table
  pending :: "(pending_key, byte list) fmap"
  blocks_info :: table
  representation :: table
  unsynced :: table
  checksums :: "(u64, byte list) fmap"

definition mdb_get :: "'k \<Rightarrow> ('k, byte list) fmap \<Rightarrow> byte list option" where
  "mdb_get k t = fmlookup t k"

definition mdb_put :: "'k \<Rightarrow> byte list \<Rightarrow> ('k, byte list) fmap \<Rightarrow> ('k, byte list) fmap" where
  "mdb_put k v t = fmupd k v t"

definition mdb_del :: "'k \<Rightarrow> ('k, byte list) fmap \<Rightarrow> ('k, byte list) fmap option" where
  "mdb_del k t = (case fmlookup t k of None \<Rightarrow> None | Some _ \<Rightarrow> Some (fmdrop k t))"

text \<open>
  \<^verbatim>\<open>rai::store_iterator\<close>: a cursor is the list of the entries it has still to deliver, in the order
  of the keys; \<open>store_from\<close> is the cursor positioned with \<^verbatim>\<open>MDB_SET_RANGE\<close> at the first key that is not
  smaller.  The keys are stored most significant byte first, so the byte order of LMDB is the order of
  the numbers, and lexicographic on the key of the pending table.
\<close>

definition store_begin :: "('k :: linorder, byte list) fmap \<Rightarrow> ('k \<times> byte list) list" where
  "store_begin t = map (\<lambda>k. (k, the (fmlookup t k))) (sorted_list_of_fset (fmdom t))"

definition store_from :: "'k \<Rightarrow> ('k :: linorder, byte list) fmap \<Rightarrow> ('k \<times> byte list) list" where
  "store_from k t = dropWhile (\<lambda>(x, _). x < k) (store_begin t)"

definition mdb_val_uint256 :: "byte list \<Rightarrow> u256 outcome" where
  "mdb_val_uint256 v = obind (check (length v = 32)) (\<lambda>_. Ret (of_be_bytes v))"

section \<open>Blocks\<close>

definition block_put_raw ::
    "block_store \<Rightarrow> block_type \<Rightarrow> u256 \<Rightarrow> byte list \<Rightarrow> block_store outcome" where
  "block_put_raw s t h v =
     (case t of
        Type_send \<Rightarrow> Ret (s\<lparr>send_blocks := mdb_put h v (send_blocks s)\<rparr>)
      | Type_send_v2 \<Rightarrow> Ret (s\<lparr>send_blocks_v2 := mdb_put h v (send_blocks_v2 s)\<rparr>)
      | Type_receive \<Rightarrow> Ret (s\<lparr>receive_blocks := mdb_put h v (receive_blocks s)\<rparr>)
      | Type_open \<Rightarrow> Ret (s\<lparr>open_blocks := mdb_put h v (open_blocks s)\<rparr>)
      | Type_change \<Rightarrow> Ret (s\<lparr>change_blocks := mdb_put h v (change_blocks s)\<rparr>)
      | _ \<Rightarrow> Abort)"

text \<open>A value of size zero stands for \<^verbatim>\<open>MDB_NOTFOUND\<close>; the type is then left unset.\<close>

definition block_get_raw :: "block_store \<Rightarrow> u256 \<Rightarrow> byte list \<times> block_type" where
  "block_get_raw s h =
     (case mdb_get h (send_blocks s) of Some v \<Rightarrow> (v, Type_send) | None \<Rightarrow>
     (case mdb_get h (receive_blocks s) of Some v \<Rightarrow> (v, Type_receive) | None \<Rightarrow>
     (case mdb_get h (open_blocks s) of Some v \<Rightarrow> (v, Type_open) | None \<Rightarrow>
     (case mdb_get h (change_blocks s) of Some v \<Rightarrow> (v, Type_change) | None \<Rightarrow>
     (case mdb_get h (send_blocks_v2 s) of Some v \<Rightarrow> (v, Type_send_v2) | None \<Rightarrow>
       ([], Type_invalid))))))"

definition block_exists :: "block_store \<Rightarrow> u256 \<Rightarrow> bool" where
  "block_exists s h \<longleftrightarrow>
     mdb_get h (send_blocks s) \<noteq> None \<or> mdb_get h (receive_blocks s) \<noteq> None \<or>
     mdb_get h (open_blocks s) \<noteq> None \<or> mdb_get h (change_blocks s) \<noteq> None \<or>
     mdb_get h (send_blocks_v2 s) \<noteq> None"

definition block_successor :: "block_store \<Rightarrow> u256 \<Rightarrow> u256 outcome" where
  "block_successor s h =
     (let (v, t) = block_get_raw s h in
      if v \<noteq> [] then
        obind (check (32 \<le> length v)) (\<lambda>_.
        obind (of_option (read_be (drop (length v - 32) v))) (\<lambda>(r, _). Ret r))
      else Ret 0)"

text \<open>\<^verbatim>\<open>set_predecessor::fill_value\<close> and the visitor around it.\<close>

definition fill_value :: "params \<Rightarrow> block_store \<Rightarrow> block \<Rightarrow> block_store outcome" where
  "fill_value P s b =
     (let (v, t) = block_get_raw s (previous b) in
      obind (check (v \<noteq> [])) (\<lambda>_.
      block_put_raw s t (previous b) (take (length v - 32) v @ write_be (hash P b))))"

fun set_predecessor :: "params \<Rightarrow> block_store \<Rightarrow> block \<Rightarrow> block_store outcome" where
  "set_predecessor P s (Open h sig w) = Ret s"
| "set_predecessor P s b = fill_value P s b"

definition block_put :: "params \<Rightarrow> block_store \<Rightarrow> u256 \<Rightarrow> block \<Rightarrow> u256 \<Rightarrow> block_store outcome" where
  "block_put P s h b successor =
     obind (check (successor = 0 \<or> block_exists s successor)) (\<lambda>_.
     obind (block_put_raw s (type_of_block b) h (serialize b @ write_be successor)) (\<lambda>s.
     obind (set_predecessor P s b) (\<lambda>s.
     if previous b = 0 then Ret s
     else obind (block_successor s (previous b)) (\<lambda>n. obind (check (n = h)) (\<lambda>_. Ret s)))))"

definition block_get :: "params \<Rightarrow> block_store \<Rightarrow> u256 \<Rightarrow> block option outcome" where
  "block_get P s h =
     (let (v, t) = block_get_raw s h in
      if v \<noteq> [] then
        obind (deserialize_block_typed (uninit P) v (type_code t)) (\<lambda>r.
        obind (of_option r) (\<lambda>(b, _). Ret (Some b)))
      else Ret None)"

definition block_successor_clear :: "params \<Rightarrow> block_store \<Rightarrow> u256 \<Rightarrow> block_store outcome" where
  "block_successor_clear P s h =
     obind (block_get P s h) (\<lambda>r. obind (of_option r) (\<lambda>b. block_put P s h b 0))"

definition block_del :: "block_store \<Rightarrow> u256 \<Rightarrow> block_store outcome" where
  "block_del s h =
     (case mdb_del h (send_blocks s) of Some t \<Rightarrow> Ret (s\<lparr>send_blocks := t\<rparr>) | None \<Rightarrow>
     (case mdb_del h (receive_blocks s) of Some t \<Rightarrow> Ret (s\<lparr>receive_blocks := t\<rparr>) | None \<Rightarrow>
     (case mdb_del h (open_blocks s) of Some t \<Rightarrow> Ret (s\<lparr>open_blocks := t\<rparr>) | None \<Rightarrow>
     (case mdb_del h (change_blocks s) of Some t \<Rightarrow> Ret (s\<lparr>change_blocks := t\<rparr>) | None \<Rightarrow>
     (case mdb_del h (send_blocks_v2 s) of Some t \<Rightarrow> Ret (s\<lparr>send_blocks_v2 := t\<rparr>) | None \<Rightarrow>
       Abort)))))"

text \<open>\<^verbatim>\<open>block_count ().sum ()\<close>: the number of entries of the five block tables.\<close>

definition block_counts_sum :: "block_store \<Rightarrow> nat" where
  "block_counts_sum s = fcard (fmdom (send_blocks s)) + fcard (fmdom (receive_blocks s)) +
     fcard (fmdom (open_blocks s)) + fcard (fmdom (change_blocks s)) +
     fcard (fmdom (send_blocks_v2 s))"

section \<open>Accounts, frontiers, pending entries, block info, weights, checksum\<close>

definition account_put :: "block_store \<Rightarrow> u256 \<Rightarrow> account_info \<Rightarrow> block_store" where
  "account_put s a i = s\<lparr>accounts := mdb_put a (account_info_val i) (accounts s)\<rparr>"

text \<open>\<open>None\<close> is the error result \<^verbatim>\<open>true\<close>: the account is not there.\<close>

definition account_get :: "block_store \<Rightarrow> u256 \<Rightarrow> account_info option outcome" where
  "account_get s a =
     (case mdb_get a (accounts s) of
        None \<Rightarrow> Ret None
      | Some v \<Rightarrow> obind (of_option (account_info_deserialize v)) (\<lambda>(i, _). Ret (Some i)))"

definition account_del :: "block_store \<Rightarrow> u256 \<Rightarrow> block_store outcome" where
  "account_del s a = obind (of_option (mdb_del a (accounts s))) (\<lambda>t. Ret (s\<lparr>accounts := t\<rparr>))"

text \<open>Existence is the comparison of the key with that of the first entry from there on.\<close>

definition found_at :: "'k \<Rightarrow> ('k \<times> byte list) list \<Rightarrow> bool" where
  "found_at k i = (case i of [] \<Rightarrow> False | (x, _) # _ \<Rightarrow> x = k)"

definition account_exists :: "block_store \<Rightarrow> u256 \<Rightarrow> bool" where
  "account_exists s a = found_at a (store_from a (accounts s))"

definition account_set_code :: "block_store \<Rightarrow> u256 \<Rightarrow> byte list \<Rightarrow> block_store" where
  "account_set_code s a code = s\<lparr>vm_codes := mdb_put a code (vm_codes s)\<rparr>"

definition account_get_code :: "block_store \<Rightarrow> u256 \<Rightarrow> byte list option" where
  "account_get_code s a = mdb_get a (vm_codes s)"

definition frontier_put :: "block_store \<Rightarrow> u256 \<Rightarrow> u256 \<Rightarrow> block_store" where
  "frontier_put s h a = s\<lparr>frontiers := mdb_put h (write_be a) (frontiers s)\<rparr>"

definition frontier_get :: "block_store \<Rightarrow> u256 \<Rightarrow> u256 outcome" where
  "frontier_get s h =
     (case mdb_get h (frontiers s) of None \<Rightarrow> Ret 0 | Some v \<Rightarrow> mdb_val_uint256 v)"

definition frontier_del :: "block_store \<Rightarrow> u256 \<Rightarrow> block_store outcome" where
  "frontier_del s h = obind (of_option (mdb_del h (frontiers s))) (\<lambda>t. Ret (s\<lparr>frontiers := t\<rparr>))"

definition pending_put :: "block_store \<Rightarrow> pending_key \<Rightarrow> pending_info \<Rightarrow> block_store" where
  "pending_put s k i = s\<lparr>pending := mdb_put k (pending_info_val i) (pending s)\<rparr>"

definition pending_del :: "block_store \<Rightarrow> pending_key \<Rightarrow> block_store outcome" where
  "pending_del s k = obind (of_option (mdb_del k (pending s))) (\<lambda>t. Ret (s\<lparr>pending := t\<rparr>))"

definition pending_get :: "block_store \<Rightarrow> pending_key \<Rightarrow> pending_info option outcome" where
  "pending_get s k =
     (case mdb_get k (pending s) of
        None \<Rightarrow> Ret None
      | Some v \<Rightarrow> obind (check (length v = 48)) (\<lambda>_.
          obind (of_option (pending_info_deserialize v)) (\<lambda>(i, _). Ret (Some i))))"

definition pending_exists :: "block_store \<Rightarrow> pending_key \<Rightarrow> bool" where
  "pending_exists s k = found_at k (store_from k (pending s))"

definition block_info_put :: "block_store \<Rightarrow> u256 \<Rightarrow> block_info \<Rightarrow> block_store" where
  "block_info_put s h i = s\<lparr>blocks_info := mdb_put h (block_info_val i) (blocks_info s)\<rparr>"

definition block_info_del :: "block_store \<Rightarrow> u256 \<Rightarrow> block_store outcome" where
  "block_info_del s h =
     obind (of_option (mdb_del h (blocks_info s))) (\<lambda>t. Ret (s\<lparr>blocks_info := t\<rparr>))"

definition block_info_get :: "block_store \<Rightarrow> u256 \<Rightarrow> block_info option outcome" where
  "block_info_get s h =
     (case mdb_get h (blocks_info s) of
        None \<Rightarrow> Ret None
      | Some v \<Rightarrow> obind (check (length v = 48)) (\<lambda>_.
          obind (of_option (block_info_deserialize v)) (\<lambda>(i, _). Ret (Some i))))"

definition block_info_exists :: "block_store \<Rightarrow> u256 \<Rightarrow> bool" where
  "block_info_exists s h = found_at h (store_from h (blocks_info s))"

definition block_info_max :: nat where
  "block_info_max = 32"

definition representation_get :: "block_store \<Rightarrow> u256 \<Rightarrow> u128 outcome" where
  "representation_get s a =
     (case mdb_get a (representation s) of
        None \<Rightarrow> Ret 0
      | Some v \<Rightarrow> obind (of_option (read_be v)) (\<lambda>(r, _). Ret r))"

definition representation_put :: "block_store \<Rightarrow> u256 \<Rightarrow> u128 \<Rightarrow> block_store" where
  "representation_put s a r = s\<lparr>representation := mdb_put a (write_be r) (representation s)\<rparr>"

definition representation_add ::
    "params \<Rightarrow> block_store \<Rightarrow> u256 \<Rightarrow> u128 \<Rightarrow> block_store outcome" where
  "representation_add P s source_a amount =
     obind (block_get P s source_a) (\<lambda>r. obind (of_option r) (\<lambda>source_block.
     (let source_rep = representative source_block in
      obind (check (source_rep \<noteq> 0)) (\<lambda>_.
      obind (representation_get s source_rep) (\<lambda>source_previous.
      Ret (representation_put s source_rep (source_previous + amount)))))))"

definition checksum_put :: "block_store \<Rightarrow> u64 \<Rightarrow> byte \<Rightarrow> u256 \<Rightarrow> block_store outcome" where
  "checksum_put s prefix mask_a h =
     obind (check (prefix AND 255 = 0)) (\<lambda>_.
     Ret (s\<lparr>checksums := mdb_put (prefix OR ucast mask_a) (write_be h) (checksums s)\<rparr>))"

definition checksum_get :: "block_store \<Rightarrow> u64 \<Rightarrow> byte \<Rightarrow> u256 option outcome" where
  "checksum_get s prefix mask_a =
     obind (check (prefix AND 255 = 0)) (\<lambda>_.
     (case mdb_get (prefix OR ucast mask_a) (checksums s) of
        None \<Rightarrow> Ret None
      | Some v \<Rightarrow> obind (of_option (read_be v)) (\<lambda>(r, _). Ret (Some r))))"

definition checksum_del :: "block_store \<Rightarrow> u64 \<Rightarrow> byte \<Rightarrow> block_store outcome" where
  "checksum_del s prefix mask_a =
     obind (check (prefix AND 255 = 0)) (\<lambda>_.
     obind (of_option (mdb_del (prefix OR ucast mask_a) (checksums s))) (\<lambda>t.
     Ret (s\<lparr>checksums := t\<rparr>)))"

definition unsynced_put :: "block_store \<Rightarrow> u256 \<Rightarrow> block_store" where
  "unsynced_put s h = s\<lparr>unsynced := mdb_put h [] (unsynced s)\<rparr>"

definition unsynced_del :: "block_store \<Rightarrow> u256 \<Rightarrow> block_store outcome" where
  "unsynced_del s h = obind (of_option (mdb_del h (unsynced s))) (\<lambda>t. Ret (s\<lparr>unsynced := t\<rparr>))"

definition unsynced_exists :: "block_store \<Rightarrow> u256 \<Rightarrow> bool" where
  "unsynced_exists s h = found_at h (store_from h (unsynced s))"

end
