(* ===== verification/Store_View.thy ===== *)
theory Store_View
  imports Block_Store
begin

text \<open>
  What the tables of the block store mean.  A \<open>view\<close> holds decoded blocks with their successors,
  accounts, frontiers, pending entries, block infos, weights and the checksum; \<open>view_of\<close> reads it off
  a store, \<open>wf_store\<close> says that every table holds well-formed bytes and that a hash is in one block
  table at most.  \<open>represents s v\<close> is the refinement relation between the two: each operation of
  \<^verbatim>\<open>rai::block_store\<close> is shown to return, to keep the store well formed and to act on the view as
  the corresponding map update or lookup.
\<close>

section \<open>Raw block tables\<close>

definition block_table :: "block_type \<Rightarrow> block_store \<Rightarrow> table" where
  "block_table t s = (case t of Type_send \<Rightarrow> send_blocks s | Type_send_v2 \<Rightarrow> send_blocks_v2 s
     | Type_receive \<Rightarrow> receive_blocks s | Type_open \<Rightarrow> open_blocks s
     | Type_change \<Rightarrow> change_blocks s | _ \<Rightarrow> fmempty)"

abbreviation raw :: "block_store \<Rightarrow> block_type \<Rightarrow> u256 \<Rightarrow> byte list option" where
  "raw s t h \<equiv> fmlookup (block_table t s) h"

definition other_tables :: "block_store \<Rightarrow> block_store" where
  "other_tables s = s\<lparr>send_blocks := fmempty, send_blocks_v2 := fmempty, receive_blocks := fmempty,
     open_blocks := fmempty, change_blocks := fmempty\<rparr>"

definition proper_type :: "block_type \<Rightarrow> bool" where
  "proper_type t \<longleftrightarrow> t \<noteq> Type_invalid \<and> t \<noteq> Type_not_a_block"

lemma proper_type_of_block [simp]: "proper_type (type_of_block b)"
  by (cases b) (simp_all add: proper_type_def)

definition excl :: "block_store \<Rightarrow> bool" where
  "excl s \<longleftrightarrow> (\<forall>t u h. raw s t h \<noteq> None \<longrightarrow> raw s u h \<noteq> None \<longrightarrow> t = u)"

lemma exclD: "excl s \<Longrightarrow> raw s t h = Some v \<Longrightarrow> u \<noteq> t \<Longrightarrow> raw s u h = None"
  unfolding excl_def by blast

lemma block_get_raw_eq:
  assumes "excl s" "raw s t h = Some v"
  shows "block_get_raw s h = (v, t)"
proof -
  have "raw s u h = None" if "u \<noteq> t" for u using exclD [OF assms that] .
  note this [of Type_send] this [of Type_receive] this [of Type_open] this [of Type_change]
    this [of Type_send_v2]
  with assms(2) show ?thesis
    by (cases t) (simp_all add: block_get_raw_def mdb_get_def block_table_def)
qed

lemma raw_all_None:
  assumes "\<And>t. raw s t h = None"
  shows "fmlookup (send_blocks s) h = None" "fmlookup (receive_blocks s) h = None"
    "fmlookup (open_blocks s) h = None" "fmlookup (change_blocks s) h = None"
    "fmlookup (send_blocks_v2 s) h = None"
  using assms [of Type_send] assms [of Type_receive] assms [of Type_open] assms [of Type_change]
    assms [of Type_send_v2]
  by (simp_all add: block_table_def)

lemma block_get_raw_None:
  "(\<And>t. raw s t h = None) \<Longrightarrow> block_get_raw s h = ([], Type_invalid)"
  using raw_all_None [of s h] by (simp add: block_get_raw_def mdb_get_def)

lemma block_exists_raw: "block_exists s h \<longleftrightarrow> (\<exists>t. raw s t h \<noteq> None)"
proof
  assume ex: "block_exists s h"
  show "\<exists>t. raw s t h \<noteq> None"
  proof (rule ccontr)
    assume "\<not> ?thesis"
    then have "raw s t h = None" for t by blast
    from raw_all_None [OF this] ex show False by (simp add: block_exists_def mdb_get_def)
  qed
next
  assume "\<exists>t. raw s t h \<noteq> None"
  then obtain t where "raw s t h \<noteq> None" by blast
  then show "block_exists s h"
    by (cases t) (auto simp: block_exists_def mdb_get_def block_table_def)
qed

lemma block_put_raw_eq:
  assumes "proper_type t"
  obtains s' where "block_put_raw s t h v = Ret s'"
    and "\<And>u. block_table u s' = (if u = t then fmupd h v (block_table t s) else block_table u s)"
    and "other_tables s' = other_tables s"
proof -
  have "\<exists>s'. block_put_raw s t h v = Ret s' \<and>
      (\<forall>u. block_table u s' = (if u = t then fmupd h v (block_table t s) else block_table u s)) \<and>
      other_tables s' = other_tables s"
    using assms
    by (cases t) (auto simp: block_put_raw_def proper_type_def mdb_put_def block_table_def
        other_tables_def split: block_type.splits)
  with that show ?thesis by blast
qed

lemma block_del_eq:
  assumes "excl s" "raw s t h = Some v"
  obtains s' where "block_del s h = Ret s'"
    and "\<And>u. block_table u s' = (if u = t then fmdrop h (block_table t s) else block_table u s)"
    and "other_tables s' = other_tables s"
proof -
  have "raw s u h = None" if "u \<noteq> t" for u using exclD [OF assms that] .
  note N = this [of Type_send] this [of Type_receive] this [of Type_open] this [of Type_change]
    this [of Type_send_v2]
  have "\<exists>s'. block_del s h = Ret s' \<and>
      (\<forall>u. block_table u s' = (if u = t then fmdrop h (block_table t s) else block_table u s)) \<and>
      other_tables s' = other_tables s"
    using assms(2) N
    by (cases t) (auto simp: block_del_def mdb_del_def block_table_def
        other_tables_def split: block_type.splits)
  with that show ?thesis by blast
qed

section \<open>Well-formed tables\<close>

definition stored :: "block_store \<Rightarrow> u256 \<Rightarrow> block \<Rightarrow> u256 \<Rightarrow> bool" where
  "stored s h b n \<longleftrightarrow>
     raw s (type_of_block b) h = Some (serialize b @ write_be n) \<and> serializable b"

definition wf_blocks :: "block_store \<Rightarrow> bool" where
  "wf_blocks s \<longleftrightarrow> excl s \<and>
     (\<forall>t h v. raw s t h = Some v \<longrightarrow>
        (\<exists>b (n :: u256). type_of_block b = t \<and> serializable b \<and> v = serialize b @ write_be n))"

lemma wf_blocksD:
  "wf_blocks s \<Longrightarrow> raw s t h = Some v \<Longrightarrow>
   \<exists>b n. stored s h b n \<and> type_of_block b = t \<and> v = serialize b @ write_be n"
  unfolding wf_blocks_def stored_def by blast

lemma serialize_nonempty [simp]: "serialize b @ write_be (n::u256) \<noteq> []"
proof
  assume "serialize b @ write_be n = []"
  then have "length (write_be n) = 0" by simp
  then show False by simp
qed

lemma stored_get:
  assumes "excl s" "stored s h b n"
  shows "block_get P s h = Ret (Some b)" "block_successor s h = Ret n" "block_exists s h"
    "block_get_raw s h = (serialize b @ write_be n, type_of_block b)"
proof -
  from assms have raw: "block_get_raw s h = (serialize b @ write_be n, type_of_block b)"
    and ok: "serializable b"
    by (auto simp: stored_def intro: block_get_raw_eq)
  show "block_get P s h = Ret (Some b)"
    using ok raw serialize_nonempty [of b n]
    by (simp add: block_get_def deserialize_block_typed_serialize del: serialize_nonempty)
  show "block_successor s h = Ret n"
    using raw serialize_nonempty [of b n]
    by (simp add: block_successor_def codec_simps del: serialize_nonempty)
  show "block_exists s h"
    using assms(2) by (auto simp: block_exists_raw stored_def)
  show "block_get_raw s h = (serialize b @ write_be n, type_of_block b)" by (rule raw)
qed

lemma missing_get:
  assumes "\<And>t. raw s t h = None"
  shows "block_get P s h = Ret None" "block_successor s h = Ret 0" "\<not> block_exists s h"
  using assms
  by (simp_all add: block_get_def block_successor_def block_get_raw_None block_exists_raw)


section \<open>The view of a store\<close>

record view =
  vblk :: "u256 \<rightharpoonup> block"
  vsuc :: "u256 \<Rightarrow> u256"
  vacc :: "u256 \<rightharpoonup> account_info"
  vfrt :: "u256 \<rightharpoonup> u256"
  vpnd :: "pending_key \<rightharpoonup> pending_info"
  vbin :: "u256 \<rightharpoonup> block_info"
  vrep :: "u256 \<Rightarrow> u128"
  vcks :: u256

definition block_of :: "block_store \<Rightarrow> u256 \<rightharpoonup> block \<times> u256" where
  "block_of s h = (let (v, t) = block_get_raw s h in
     if v = [] then None else
     case deserialize_block_typed (0, 0) v (type_code t) of
       Ret (Some (b, r)) \<Rightarrow> Some (b, of_be_bytes r)
     | _ \<Rightarrow> None)"

definition decode_with :: "(byte list \<Rightarrow> ('v \<times> byte list) option) \<Rightarrow> ('k, byte list) fmap \<Rightarrow> 'k \<rightharpoonup> 'v"
  where "decode_with des t k = Option.bind (fmlookup t k) (\<lambda>v. map_option fst (des v))"

definition view_of :: "block_store \<Rightarrow> view" where
  "view_of s = \<lparr>
     vblk = (\<lambda>h. map_option fst (block_of s h)),
     vsuc = (\<lambda>h. case block_of s h of None \<Rightarrow> 0 | Some (b, n) \<Rightarrow> n),
     vacc = decode_with account_info_deserialize (accounts s),
     vfrt = decode_with read_be (frontiers s),
     vpnd = decode_with pending_info_deserialize (pending s),
     vbin = decode_with block_info_deserialize (blocks_info s),
     vrep = (\<lambda>a. case decode_with read_be (representation s) a of None \<Rightarrow> 0 | Some r \<Rightarrow> r),
     vcks = (case decode_with read_be (checksums s) 0 of None \<Rightarrow> 0 | Some c \<Rightarrow> c)\<rparr>"

definition values_in :: "('v \<Rightarrow> byte list) \<Rightarrow> ('k, byte list) fmap \<Rightarrow> bool" where
  "values_in ser t \<longleftrightarrow> (\<forall>k v. fmlookup t k = Some v \<longrightarrow> (\<exists>x. v = ser x))"

definition has_checksum :: "(u64, byte list) fmap \<Rightarrow> bool" where
  "has_checksum t \<longleftrightarrow> (\<exists>c :: u256. fmlookup t 0 = Some (write_be c))"

definition wf_store :: "block_store \<Rightarrow> bool" where
  "wf_store s \<longleftrightarrow> wf_blocks s \<and>
     values_in account_info_val (accounts s) \<and>
     values_in (write_be :: u256 \<Rightarrow> byte list) (frontiers s) \<and>
     values_in pending_info_val (pending s) \<and>
     values_in block_info_val (blocks_info s) \<and>
     values_in (write_be :: u128 \<Rightarrow> byte list) (representation s) \<and>
     has_checksum (checksums s)"

lemma stored_iff_block_of:
  assumes "wf_blocks s"
  shows "stored s h b n \<longleftrightarrow> block_of s h = Some (b, n)"
proof
  assume "stored s h b n"
  with assms have "block_get_raw s h = (serialize b @ write_be n, type_of_block b)" "serializable b"
    by (auto simp: wf_blocks_def stored_def intro: block_get_raw_eq)
  then show "block_of s h = Some (b, n)"
    using serialize_nonempty [of b n]
    by (simp add: block_of_def deserialize_block_typed_serialize write_be_def of_be_bytes_be_bytes
        del: serialize_nonempty)
next
  assume *: "block_of s h = Some (b, n)"
  have "\<exists>t v. raw s t h = Some v"
    using * block_get_raw_None [of s h] by (force simp: block_of_def)
  then obtain t v where "raw s t h = Some v" by blast
  with assms obtain b' n' where st: "stored s h b' n'" using wf_blocksD by blast
  then have "block_get_raw s h = (serialize b' @ write_be n', type_of_block b')" "serializable b'"
    using assms by (auto simp: wf_blocks_def stored_def intro: block_get_raw_eq)
  then have "block_of s h = Some (b', n')"
    using serialize_nonempty [of b' n']
    by (simp add: block_of_def deserialize_block_typed_serialize write_be_def of_be_bytes_be_bytes
        del: serialize_nonempty)
  with * st show "stored s h b n" by simp
qed

lemma block_of_None_iff:
  assumes "wf_blocks s"
  shows "block_of s h = None \<longleftrightarrow> (\<forall>t. raw s t h = None)"
proof
  assume *: "block_of s h = None"
  show "\<forall>t. raw s t h = None"
  proof (rule ccontr)
    assume "\<not> ?thesis"
    then obtain t v where "raw s t h = Some v" by auto
    with assms obtain b n where "stored s h b n" using wf_blocksD by blast
    with assms * show False by (simp add: stored_iff_block_of)
  qed
next
  assume "\<forall>t. raw s t h = None"
  then show "block_of s h = None" by (simp add: block_of_def block_get_raw_None)
qed


definition returns :: "'a outcome \<Rightarrow> ('a \<Rightarrow> bool) \<Rightarrow> bool" where
  "returns m Q \<longleftrightarrow> (\<exists>x. m = Ret x \<and> Q x)"

definition represents :: "block_store \<Rightarrow> view \<Rightarrow> bool" where
  "represents s v \<longleftrightarrow> wf_store s \<and> view_of s = v"

section \<open>Codecs of the stored records\<close>

interpretation account_info_codec: codec account_info_val account_info_deserialize "\<lambda>_. True"
proof
  fix i :: account_info and r
  show "account_info_deserialize (account_info_val i @ r) = Some (i, r)"
    by (simp add: account_info_deserialize_def account_info_val_def codec_simps)
next
  fix s i r
  assume "account_info_deserialize s = Some (i, r)"
  then show "s = account_info_val i @ r \<and> True"
    by (auto simp: account_info_deserialize_def account_info_val_def Option.bind_eq_Some_conv word_des_iff)
qed

interpretation pending_info_codec: codec pending_info_val pending_info_deserialize "\<lambda>_. True"
proof
  fix i :: pending_info and r
  show "pending_info_deserialize (pending_info_val i @ r) = Some (i, r)"
    by (simp add: pending_info_deserialize_def pending_info_val_def codec_simps)
next
  fix s i r
  assume "pending_info_deserialize s = Some (i, r)"
  then show "s = pending_info_val i @ r \<and> True"
    by (auto simp: pending_info_deserialize_def pending_info_val_def Option.bind_eq_Some_conv word_des_iff)
qed

interpretation block_info_codec: codec block_info_val block_info_deserialize "\<lambda>_. True"
proof
  fix i :: block_info and r
  show "block_info_deserialize (block_info_val i @ r) = Some (i, r)"
    by (simp add: block_info_deserialize_def block_info_val_def codec_simps)
next
  fix s i r
  assume "block_info_deserialize s = Some (i, r)"
  then show "s = block_info_val i @ r \<and> True"
    by (auto simp: block_info_deserialize_def block_info_val_def Option.bind_eq_Some_conv word_des_iff)
qed

lemmas record_codecs [codec_simps] =
  account_info_codec.des_ser_nil [OF TrueI] pending_info_codec.des_ser_nil [OF TrueI]
  block_info_codec.des_ser_nil [OF TrueI]

lemma length_vals [simp]:
  "length (pending_info_val i) = 48" "length (block_info_val j) = 48"
  by (simp_all add: pending_info_val_def block_info_val_def)

section \<open>Decoded tables\<close>

lemma decode_with_upd:
  "des (ser x) = Some (x, []) \<Longrightarrow> decode_with des (fmupd k (ser x) t) = (decode_with des t)(k \<mapsto> x)"
  by (auto simp: decode_with_def fun_eq_iff)

lemma decode_with_drop: "decode_with des (fmdrop k t) = (decode_with des t)(k := None)"
  by (auto simp: decode_with_def fun_eq_iff)

lemma decode_with_None: "fmlookup t k = None \<Longrightarrow> decode_with des t k = None"
  by (simp add: decode_with_def)

lemma values_in_upd: "values_in ser t \<Longrightarrow> values_in ser (fmupd k (ser x) t)"
  by (auto simp: values_in_def)

lemma values_in_drop: "values_in ser t \<Longrightarrow> values_in ser (fmdrop k t)"
  by (auto simp: values_in_def)

lemma finite_decode_with: "finite (dom (decode_with des t))"
proof (rule finite_subset)
  show "dom (decode_with des t) \<subseteq> fmdom' t" by (auto simp: decode_with_def dom_def bind_eq_Some_conv intro: fmdom'I)
qed simp

lemma decode_with_cases:
  assumes "values_in ser t" "\<And>x. des (ser x) = Some (x, [])"
  obtains "fmlookup t k = None" "decode_with des t k = None"
    | x where "fmlookup t k = Some (ser x)" "decode_with des t k = Some x"
proof (cases "fmlookup t k")
  case None
  with that(1) show ?thesis by (simp add: decode_with_def)
next
  case (Some w)
  with assms(1) obtain x where "w = ser x" by (auto simp: values_in_def)
  with Some assms(2) that(2) show ?thesis by (simp add: decode_with_def)
qed

lemma decode_with_defined:
  assumes "values_in ser t" "\<And>x. des (ser x) = Some (x, [])"
  shows "(\<exists>y. decode_with des t k = Some y) \<longleftrightarrow> (\<exists>y. fmlookup t k = Some y)"
  using assms by (rule decode_with_cases [where k = k]) auto

section \<open>Reading through the view\<close>

lemma of_be_bytes_write_be [simp]: "of_be_bytes (write_be (a :: u256)) = a"
  by (simp add: write_be_def of_be_bytes_be_bytes)

lemma block_get_view:
  assumes "represents s v"
  shows "block_get P s h = Ret (vblk v h)"
    and "block_successor s h = Ret (vsuc v h)"
    and "block_exists s h \<longleftrightarrow> vblk v h \<noteq> None"
proof -
  from assms have wf: "wf_blocks s" and v: "v = view_of s" by (auto simp: represents_def wf_store_def)
  from wf have ex: "excl s" by (simp add: wf_blocks_def)
  have "block_get P s h = Ret (vblk v h) \<and> block_successor s h = Ret (vsuc v h) \<and>
      (block_exists s h \<longleftrightarrow> vblk v h \<noteq> None)"
  proof (cases "block_of s h")
    case None
    with wf have "\<And>t. raw s t h = None" by (simp add: block_of_None_iff)
    from missing_get [OF this] None show ?thesis by (simp add: v view_of_def)
  next
    case (Some p)
    then obtain b n where bn: "block_of s h = Some (b, n)" by (cases p) auto
    with wf have "stored s h b n" by (simp add: stored_iff_block_of)
    from stored_get [OF ex this] bn show ?thesis by (simp add: v view_of_def)
  qed
  then show "block_get P s h = Ret (vblk v h)" "block_successor s h = Ret (vsuc v h)"
    "block_exists s h \<longleftrightarrow> vblk v h \<noteq> None" by blast+
qed

lemma account_get_view:
  assumes "represents s v" shows "account_get s a = Ret (vacc v a)"
proof -
  from assms have wf: "values_in account_info_val (accounts s)" and v: "v = view_of s"
    by (auto simp: represents_def wf_store_def)
  show ?thesis
    by (rule decode_with_cases [OF wf, of account_info_deserialize a])
      (auto simp: codec_simps v view_of_def account_get_def mdb_get_def)
qed

lemma pending_get_view:
  assumes "represents s v" shows "pending_get s k = Ret (vpnd v k)"
proof -
  from assms have wf: "values_in pending_info_val (pending s)" and v: "v = view_of s"
    by (auto simp: represents_def wf_store_def)
  show ?thesis
    by (rule decode_with_cases [OF wf, of pending_info_deserialize k])
      (auto simp: codec_simps v view_of_def pending_get_def mdb_get_def)
qed

lemma block_info_get_view:
  assumes "represents s v" shows "block_info_get s h = Ret (vbin v h)"
proof -
  from assms have wf: "values_in block_info_val (blocks_info s)" and v: "v = view_of s"
    by (auto simp: represents_def wf_store_def)
  show ?thesis
    by (rule decode_with_cases [OF wf, of block_info_deserialize h])
      (auto simp: codec_simps v view_of_def block_info_get_def mdb_get_def)
qed

lemma frontier_get_view:
  assumes "represents s v" shows "frontier_get s h = Ret (case vfrt v h of None \<Rightarrow> 0 | Some a \<Rightarrow> a)"
proof -
  from assms have wf: "values_in (write_be :: u256 \<Rightarrow> byte list) (frontiers s)" and v: "v = view_of s"
    by (auto simp: represents_def wf_store_def)
  show ?thesis
    by (rule decode_with_cases [OF wf, of read_be h])
      (auto simp: codec_simps v view_of_def frontier_get_def mdb_get_def mdb_val_uint256_def)
qed

lemma representation_get_view:
  assumes "represents s v" shows "representation_get s a = Ret (vrep v a)"
proof -
  from assms have wf: "values_in (write_be :: u128 \<Rightarrow> byte list) (representation s)" and v: "v = view_of s"
    by (auto simp: represents_def wf_store_def)
  show ?thesis
    by (rule decode_with_cases [OF wf, of read_be a])
      (auto simp: codec_simps v view_of_def representation_get_def mdb_get_def)
qed

lemma checksum_get_view:
  assumes "represents s v" shows "checksum_get s 0 0 = Ret (Some (vcks v))"
proof -
  from assms obtain c :: u256 where c: "fmlookup (checksums s) 0 = Some (write_be c)" and v: "v = view_of s"
    by (auto simp: represents_def wf_store_def has_checksum_def)
  then show ?thesis
    by (simp add: v view_of_def checksum_get_def mdb_get_def decode_with_def codec_simps)
qed

lemma dropWhile_less_found:
  assumes "sorted ks" "distinct ks"
  shows "found_at k (dropWhile (\<lambda>(x, _). x < k) (map (\<lambda>k. (k, f k)) ks)) \<longleftrightarrow> k \<in> set ks"
  using assms by (induction ks) (auto simp: found_at_def)

lemma found_at_store_from: "found_at k (store_from k t) \<longleftrightarrow> fmlookup t k \<noteq> None"
  using dropWhile_less_found [of "sorted_list_of_fset (fmdom t)" k "\<lambda>k. the (fmlookup t k)"]
  by (auto simp: store_from_def store_begin_def sorted_list_of_fset.rep_eq fmlookup_dom_iff)

lemma exists_view:
  assumes "represents s v"
  shows "account_exists s a \<longleftrightarrow> vacc v a \<noteq> None"
    and "pending_exists s k \<longleftrightarrow> vpnd v k \<noteq> None"
    and "block_info_exists s h \<longleftrightarrow> vbin v h \<noteq> None"
proof -
  from assms have v: "v = view_of s" by (simp add: represents_def)
  have wf: "values_in account_info_val (accounts s)" "values_in pending_info_val (pending s)"
    "values_in block_info_val (blocks_info s)" using assms by (auto simp: represents_def wf_store_def)
  show "account_exists s a \<longleftrightarrow> vacc v a \<noteq> None"
    by (simp add: account_exists_def found_at_store_from v view_of_def decode_with_defined [OF wf(1)] codec_simps)
  show "pending_exists s k \<longleftrightarrow> vpnd v k \<noteq> None"
    by (simp add: pending_exists_def found_at_store_from v view_of_def decode_with_defined [OF wf(2)] codec_simps)
  show "block_info_exists s h \<longleftrightarrow> vbin v h \<noteq> None"
    by (simp add: block_info_exists_def found_at_store_from v view_of_def decode_with_defined [OF wf(3)] codec_simps)
qed

lemmas get_views = block_get_view account_get_view pending_get_view block_info_get_view
  frontier_get_view representation_get_view checksum_get_view exists_view

lemma finite_view:
  assumes "represents s v"
  shows "finite (dom (vacc v))" "finite (dom (vpnd v))"
  using assms by (auto simp: represents_def view_of_def finite_decode_with)


section \<open>Writing through the view\<close>

lemma block_of_cong: "(\<And>t. block_table t s' = block_table t s) \<Longrightarrow> block_of s' = block_of s"
proof -
  assume "\<And>t. block_table t s' = block_table t s"
  note this [of Type_send] this [of Type_receive] this [of Type_open] this [of Type_change]
    this [of Type_send_v2]
  then have eqs: "send_blocks s' = send_blocks s" "receive_blocks s' = receive_blocks s"
    "open_blocks s' = open_blocks s" "change_blocks s' = change_blocks s"
    "send_blocks_v2 s' = send_blocks_v2 s"
    by (simp_all add: block_table_def)
  have "block_get_raw s' = block_get_raw s"
    unfolding block_get_raw_def fun_eq_iff eqs by (intro allI refl)
  then show ?thesis by (auto simp: block_of_def fun_eq_iff)
qed

lemma table_upds [simp]:
  "block_table t (s\<lparr>accounts := x1\<rparr>) = block_table t s"
  "block_table t (s\<lparr>frontiers := x2\<rparr>) = block_table t s"
  "block_table t (s\<lparr>pending := x3\<rparr>) = block_table t s"
  "block_table t (s\<lparr>blocks_info := x4\<rparr>) = block_table t s"
  "block_table t (s\<lparr>representation := x5\<rparr>) = block_table t s"
  "block_table t (s\<lparr>checksums := x6\<rparr>) = block_table t s"
  "block_table t (s\<lparr>vm_codes := x7\<rparr>) = block_table t s"
  "block_table t (s\<lparr>unsynced := x8\<rparr>) = block_table t s"
  by (simp_all add: block_table_def split: block_type.split)

lemma wf_blocks_cong: "(\<And>t. block_table t s' = block_table t s) \<Longrightarrow> wf_blocks s' = wf_blocks s"
  by (simp add: wf_blocks_def excl_def)

lemma block_upds [simp]:
  "block_of (s\<lparr>accounts := x1\<rparr>) = block_of s" "wf_blocks (s\<lparr>accounts := x1\<rparr>) = wf_blocks s"
  "block_of (s\<lparr>frontiers := x2\<rparr>) = block_of s" "wf_blocks (s\<lparr>frontiers := x2\<rparr>) = wf_blocks s"
  "block_of (s\<lparr>pending := x3\<rparr>) = block_of s" "wf_blocks (s\<lparr>pending := x3\<rparr>) = wf_blocks s"
  "block_of (s\<lparr>blocks_info := x4\<rparr>) = block_of s" "wf_blocks (s\<lparr>blocks_info := x4\<rparr>) = wf_blocks s"
  "block_of (s\<lparr>representation := x5\<rparr>) = block_of s" "wf_blocks (s\<lparr>representation := x5\<rparr>) = wf_blocks s"
  "block_of (s\<lparr>checksums := x6\<rparr>) = block_of s" "wf_blocks (s\<lparr>checksums := x6\<rparr>) = wf_blocks s"
  "block_of (s\<lparr>vm_codes := x7\<rparr>) = block_of s" "wf_blocks (s\<lparr>vm_codes := x7\<rparr>) = wf_blocks s"
  "block_of (s\<lparr>unsynced := x8\<rparr>) = block_of s" "wf_blocks (s\<lparr>unsynced := x8\<rparr>) = wf_blocks s"
  by (rule block_of_cong wf_blocks_cong, simp)+

lemma account_put_view:
  "represents s v \<Longrightarrow> represents (account_put s a i) (v\<lparr>vacc := (vacc v)(a \<mapsto> i)\<rparr>)"
  by (auto simp: represents_def wf_store_def view_of_def account_put_def mdb_put_def values_in_upd
      decode_with_upd codec_simps)

lemma frontier_put_view:
  "represents s v \<Longrightarrow> represents (frontier_put s h a) (v\<lparr>vfrt := (vfrt v)(h \<mapsto> a)\<rparr>)"
  by (auto simp: represents_def wf_store_def view_of_def frontier_put_def mdb_put_def values_in_upd
      decode_with_upd codec_simps)

lemma pending_put_view:
  "represents s v \<Longrightarrow> represents (pending_put s k i) (v\<lparr>vpnd := (vpnd v)(k \<mapsto> i)\<rparr>)"
  by (auto simp: represents_def wf_store_def view_of_def pending_put_def mdb_put_def values_in_upd
      decode_with_upd codec_simps)

lemma block_info_put_view:
  "represents s v \<Longrightarrow> represents (block_info_put s h i) (v\<lparr>vbin := (vbin v)(h \<mapsto> i)\<rparr>)"
  by (auto simp: represents_def wf_store_def view_of_def block_info_put_def mdb_put_def values_in_upd
      decode_with_upd codec_simps)

lemma representation_put_view:
  "represents s v \<Longrightarrow> represents (representation_put s a r) (v\<lparr>vrep := (vrep v)(a := r)\<rparr>)"
  by (auto simp: represents_def wf_store_def view_of_def representation_put_def mdb_put_def values_in_upd
      decode_with_upd codec_simps fun_eq_iff)

lemma account_set_code_view:
  "represents s v \<Longrightarrow> represents (account_set_code s a c) v"
  by (auto simp: represents_def wf_store_def view_of_def account_set_code_def)

lemma checksum_put_view:
  "represents s v \<Longrightarrow> \<exists>s'. checksum_put s 0 0 c = Ret s' \<and> represents s' (v\<lparr>vcks := c\<rparr>)"
  by (auto simp: represents_def wf_store_def view_of_def checksum_put_def mdb_put_def has_checksum_def
      decode_with_upd codec_simps)

lemma decode_with_SomeD: "decode_with des t k = Some x \<Longrightarrow> \<exists>w. fmlookup t k = Some w"
  by (cases "fmlookup t k") (auto simp: decode_with_def)

lemma account_del_view:
  "represents s v \<Longrightarrow> vacc v a \<noteq> None \<Longrightarrow>
   \<exists>s'. account_del s a = Ret s' \<and> represents s' (v\<lparr>vacc := (vacc v)(a := None)\<rparr>)"
  by (auto simp: represents_def wf_store_def view_of_def account_del_def mdb_del_def values_in_drop
      decode_with_drop dest!: decode_with_SomeD)

lemma frontier_del_view:
  "represents s v \<Longrightarrow> vfrt v h \<noteq> None \<Longrightarrow>
   \<exists>s'. frontier_del s h = Ret s' \<and> represents s' (v\<lparr>vfrt := (vfrt v)(h := None)\<rparr>)"
  by (auto simp: represents_def wf_store_def view_of_def frontier_del_def mdb_del_def values_in_drop
      decode_with_drop dest!: decode_with_SomeD)

lemma pending_del_view:
  "represents s v \<Longrightarrow> vpnd v k \<noteq> None \<Longrightarrow>
   \<exists>s'. pending_del s k = Ret s' \<and> represents s' (v\<lparr>vpnd := (vpnd v)(k := None)\<rparr>)"
  by (auto simp: represents_def wf_store_def view_of_def pending_del_def mdb_del_def values_in_drop
      decode_with_drop dest!: decode_with_SomeD)

lemma block_info_del_view:
  "represents s v \<Longrightarrow> vbin v h \<noteq> None \<Longrightarrow>
   \<exists>s'. block_info_del s h = Ret s' \<and> represents s' (v\<lparr>vbin := (vbin v)(h := None)\<rparr>)"
  by (auto simp: represents_def wf_store_def view_of_def block_info_del_def mdb_del_def values_in_drop
      decode_with_drop dest!: decode_with_SomeD)

lemma representation_add_view:
  assumes "represents s v" "vblk v h = Some b" "representative b \<noteq> 0"
  shows "\<exists>s'. representation_add P s h m = Ret s' \<and>
    represents s' (v\<lparr>vrep := (vrep v)(representative b := vrep v (representative b) + m)\<rparr>)"
  using assms representation_put_view [OF assms(1)]
  by (simp add: representation_add_def get_views Let_def)


section \<open>Writing and deleting blocks\<close>

lemma other_tables_fields:
  assumes "other_tables s' = other_tables s"
  shows "accounts s' = accounts s" "frontiers s' = frontiers s" "pending s' = pending s"
    "blocks_info s' = blocks_info s" "representation s' = representation s"
    "checksums s' = checksums s" "vm_codes s' = vm_codes s" "unsynced s' = unsynced s"
  using assms by (auto simp: other_tables_def dest: arg_cong [of _ _ accounts]
      arg_cong [of _ _ frontiers] arg_cong [of _ _ pending] arg_cong [of _ _ blocks_info]
      arg_cong [of _ _ representation] arg_cong [of _ _ checksums] arg_cong [of _ _ vm_codes]
      arg_cong [of _ _ unsynced])

definition with_blocks :: "view \<Rightarrow> (u256 \<rightharpoonup> block \<times> u256) \<Rightarrow> view" where
  "with_blocks v m = v\<lparr>vblk := (\<lambda>h. map_option fst (m h)),
     vsuc := (\<lambda>h. case m h of None \<Rightarrow> 0 | Some (b, n) \<Rightarrow> n)\<rparr>"

lemma represents_blocks:
  assumes "represents s v" "other_tables s' = other_tables s" "wf_blocks s'" "block_of s' = m"
  shows "represents s' (with_blocks v m)"
  using assms(1,3,4) other_tables_fields [OF assms(2)]
  by (auto simp: represents_def wf_store_def view_of_def with_blocks_def)

lemma block_of_transfer:
  assumes wf: "wf_blocks s" and wf': "wf_blocks s'" and eq: "\<And>t. raw s' t k = raw s t k"
  shows "block_of s' k = block_of s k"
proof (cases "block_of s k")
  case None
  with wf have "\<forall>t. raw s' t k = None" by (simp add: block_of_None_iff eq)
  with wf' have "block_of s' k = None" by (simp add: block_of_None_iff)
  with None show ?thesis by simp
next
  case (Some p)
  then obtain c m where "block_of s k = Some (c, m)" by (cases p) auto
  moreover from this wf have "stored s k c m" by (simp add: stored_iff_block_of)
  then have "stored s' k c m" by (simp add: stored_def eq)
  ultimately show ?thesis using wf' by (simp add: stored_iff_block_of)
qed

lemma put_raw_blocks:
  assumes wf: "wf_blocks s"
    and tab: "\<And>u. block_table u s' = (if u = type_of_block b
          then fmupd h (serialize b @ write_be n) (block_table (type_of_block b) s) else block_table u s)"
    and ok: "serializable b"
    and same: "\<And>b' n'. block_of s h = Some (b', n') \<Longrightarrow> type_of_block b' = type_of_block b"
  shows "wf_blocks s' \<and> block_of s' = (block_of s)(h \<mapsto> (b, n))"
proof -
  have other: "raw s u h = None" if "u \<noteq> type_of_block b" for u
  proof (rule ccontr)
    assume "raw s u h \<noteq> None"
    then obtain w where "raw s u h = Some w" by blast
    with wf obtain b' n' where "stored s h b' n'" "type_of_block b' = u" using wf_blocksD by blast
    with same wf that show False by (auto simp: stored_iff_block_of)
  qed
  have ex: "excl s'"
    unfolding excl_def
  proof (intro allI impI)
    fix t u k
    assume *: "raw s' t k \<noteq> None" "raw s' u k \<noteq> None"
    show "t = u"
    proof (cases "k = h")
      case True
      with * other show ?thesis by (auto simp: tab split: if_splits)
    next
      case False
      with * have "raw s t k \<noteq> None" "raw s u k \<noteq> None" by (auto simp: tab split: if_splits)
      with wf show ?thesis unfolding wf_blocks_def excl_def by blast
    qed
  qed
  have wf': "wf_blocks s'"
    unfolding wf_blocks_def
  proof (intro conjI ex allI impI)
    fix t k w
    assume "raw s' t k = Some w"
    with wf ok show "\<exists>c (m :: u256). type_of_block c = t \<and> serializable c \<and> w = serialize c @ write_be m"
      by (auto simp: tab wf_blocks_def split: if_splits)
  qed
  have "block_of s' k = ((block_of s)(h \<mapsto> (b, n))) k" for k
  proof (cases "k = h")
    case True
    have "stored s' h b n" using ok by (simp add: stored_def tab)
    with wf' True show ?thesis by (simp add: stored_iff_block_of)
  next
    case False
    with block_of_transfer [OF wf wf', of k] show ?thesis by (simp add: tab)
  qed
  with wf' show ?thesis by (auto simp: fun_eq_iff)
qed

lemma del_raw_blocks:
  assumes wf: "wf_blocks s"
    and tab: "\<And>u. block_table u s' = (if u = t then fmdrop h (block_table t s) else block_table u s)"
    and other: "\<And>u. u \<noteq> t \<Longrightarrow> raw s u h = None"
  shows "wf_blocks s' \<and> block_of s' = (block_of s)(h := None)"
proof -
  have eq: "raw s' u k = (if k = h then None else raw s u k)" for u k
    using other by (simp add: tab)
  have wf': "wf_blocks s'"
    using wf by (auto simp: wf_blocks_def excl_def eq split: if_splits)
  have "block_of s' k = ((block_of s)(h := None)) k" for k
  proof (cases "k = h")
    case True
    with wf' show ?thesis by (simp add: block_of_None_iff eq)
  next
    case False
    with block_of_transfer [OF wf wf', of k] show ?thesis by (simp add: eq)
  qed
  with wf' show ?thesis by (auto simp: fun_eq_iff)
qed


lemma with_blocks_put:
  assumes "represents s v"
  shows "with_blocks v ((block_of s)(h \<mapsto> (b, n))) = v\<lparr>vblk := (vblk v)(h \<mapsto> b), vsuc := (vsuc v)(h := n)\<rparr>"
  using assms by (auto simp: represents_def with_blocks_def view_of_def fun_eq_iff)

lemma with_blocks_del:
  assumes "represents s v"
  shows "with_blocks v ((block_of s)(h := None)) = v\<lparr>vblk := (vblk v)(h := None), vsuc := (vsuc v)(h := 0)\<rparr>"
  using assms by (auto simp: represents_def with_blocks_def view_of_def fun_eq_iff)

lemma block_put_raw_view:
  assumes r: "represents s v" and ok: "serializable b"
    and same: "\<And>b'. vblk v h = Some b' \<Longrightarrow> type_of_block b' = type_of_block b"
  shows "\<exists>s'. block_put_raw s (type_of_block b) h (serialize b @ write_be n) = Ret s' \<and>
    represents s' (v\<lparr>vblk := (vblk v)(h \<mapsto> b), vsuc := (vsuc v)(h := n)\<rparr>)"
proof -
  from r have wf: "wf_blocks s" by (simp add: represents_def wf_store_def)
  obtain s' where put: "block_put_raw s (type_of_block b) h (serialize b @ write_be n) = Ret s'"
    and tab: "\<And>u. block_table u s' = (if u = type_of_block b
        then fmupd h (serialize b @ write_be n) (block_table (type_of_block b) s) else block_table u s)"
    and oth: "other_tables s' = other_tables s"
    using block_put_raw_eq [of "type_of_block b" s h "serialize b @ write_be n"] by auto
  have "wf_blocks s' \<and> block_of s' = (block_of s)(h \<mapsto> (b, n))"
    using wf tab ok by (rule put_raw_blocks) (use r same in \<open>auto simp: represents_def view_of_def\<close>)
  with represents_blocks [OF r oth] with_blocks_put [OF r] put show ?thesis by auto
qed

lemma block_del_view:
  assumes r: "represents s v" and h: "vblk v h \<noteq> None"
  shows "\<exists>s'. block_del s h = Ret s' \<and>
    represents s' (v\<lparr>vblk := (vblk v)(h := None), vsuc := (vsuc v)(h := 0)\<rparr>)"
proof -
  from r have wf: "wf_blocks s" by (simp add: represents_def wf_store_def)
  then have ex: "excl s" by (simp add: wf_blocks_def)
  from r h obtain b n where "block_of s h = Some (b, n)" by (auto simp: represents_def view_of_def)
  with wf have st: "raw s (type_of_block b) h = Some (serialize b @ write_be n)"
    by (simp flip: stored_iff_block_of add: stored_def)
  obtain s' where del: "block_del s h = Ret s'"
    and tab: "\<And>u. block_table u s' = (if u = type_of_block b
        then fmdrop h (block_table (type_of_block b) s) else block_table u s)"
    and oth: "other_tables s' = other_tables s"
    using block_del_eq [OF ex st] by auto
  have "wf_blocks s' \<and> block_of s' = (block_of s)(h := None)"
    using wf tab exclD [OF ex st] by (rule del_raw_blocks)
  with represents_blocks [OF r oth] with_blocks_del [OF r] del show ?thesis by auto
qed

lemma fill_value_view:
  assumes r: "represents s v" and p: "vblk v (previous b) = Some c"
  shows "\<exists>s'. fill_value P s b = Ret s' \<and> represents s' (v\<lparr>vsuc := (vsuc v)(previous b := hash P b)\<rparr>)"
proof -
  from r have wf: "wf_blocks s" by (simp add: represents_def wf_store_def)
  then have ex: "excl s" by (simp add: wf_blocks_def)
  from r p obtain n where "block_of s (previous b) = Some (c, n)" by (auto simp: represents_def view_of_def)
  with wf have st: "stored s (previous b) c n" by (simp add: stored_iff_block_of)
  from stored_get(4) [OF ex st] have "fill_value P s b =
      block_put_raw s (type_of_block c) (previous b) (serialize c @ write_be (hash P b))"
    using serialize_nonempty [of c n] by (simp add: fill_value_def del: serialize_nonempty)
  moreover have "(vblk v)(previous b \<mapsto> c) = vblk v" using p by auto
  ultimately show ?thesis
    using block_put_raw_view [OF r, of c "previous b" "hash P b"] st p by (auto simp: stored_def)
qed

lemma set_predecessor_fill: "type_of_block b \<noteq> Type_open \<Longrightarrow> set_predecessor P s b = fill_value P s b"
  by (cases b) auto

lemma previous_open [simp]: "type_of_block b = Type_open \<Longrightarrow> previous b = 0"
  by (cases b) auto

lemma block_put_open_view:
  assumes r: "represents s v" and ok: "serializable b" and t: "type_of_block b = Type_open"
    and same: "\<And>b'. vblk v h = Some b' \<Longrightarrow> type_of_block b' = type_of_block b"
    and n: "n = 0 \<or> vblk v n \<noteq> None"
  shows "\<exists>s'. block_put P s h b n = Ret s' \<and>
    represents s' (v\<lparr>vblk := (vblk v)(h \<mapsto> b), vsuc := (vsuc v)(h := n)\<rparr>)"
proof -
  have "set_predecessor P s' b = Ret s'" for s' using t by (cases b) auto
  with block_put_raw_view [OF r ok same, of h n] n t show ?thesis
    by (auto simp: block_put_def get_views [OF r])
qed

lemma block_put_view:
  assumes r: "represents s v" and ok: "serializable b" and t: "type_of_block b \<noteq> Type_open"
    and same: "\<And>b'. vblk v h = Some b' \<Longrightarrow> type_of_block b' = type_of_block b"
    and p: "vblk v (previous b) \<noteq> None" and ph: "previous b \<noteq> h" and h: "hash P b = h"
    and n: "n = 0 \<or> vblk v n \<noteq> None"
  shows "\<exists>s'. block_put P s h b n = Ret s' \<and>
    represents s' (v\<lparr>vblk := (vblk v)(h \<mapsto> b), vsuc := (vsuc v)(h := n, previous b := h)\<rparr>)"
proof -
  obtain s1 where s1: "block_put_raw s (type_of_block b) h (serialize b @ write_be n) = Ret s1"
    and r1: "represents s1 (v\<lparr>vblk := (vblk v)(h \<mapsto> b), vsuc := (vsuc v)(h := n)\<rparr>)"
    using block_put_raw_view [OF r ok same] by blast
  from p ph obtain c where "vblk (v\<lparr>vblk := (vblk v)(h \<mapsto> b), vsuc := (vsuc v)(h := n)\<rparr>) (previous b) = Some c"
    by auto
  from fill_value_view [OF r1 this, of P] obtain s2 where s2: "set_predecessor P s1 b = Ret s2"
    and r2: "represents s2 (v\<lparr>vblk := (vblk v)(h \<mapsto> b), vsuc := (vsuc v)(h := n, previous b := h)\<rparr>)"
    using t h by (auto simp: set_predecessor_fill)
  from s1 s2 n have "block_put P s h b n = Ret s2"
    using block_get_view(2) [OF r2, of "previous b"] by (simp add: block_put_def block_get_view(3) [OF r])
  with r2 show ?thesis by blast
qed

lemma block_successor_clear_view:
  assumes r: "represents s v" and b: "vblk v h = Some b" and ok: "serializable b"
    and p: "type_of_block b \<noteq> Type_open \<Longrightarrow>
      vblk v (previous b) \<noteq> None \<and> previous b \<noteq> h \<and> hash P b = h \<and> vsuc v (previous b) = h"
  shows "\<exists>s'. block_successor_clear P s h = Ret s' \<and> represents s' (v\<lparr>vsuc := (vsuc v)(h := 0)\<rparr>)"
proof -
  from b have v: "(vblk v)(h \<mapsto> b) = vblk v" by auto
  show ?thesis
  proof (cases "type_of_block b = Type_open")
    case True
    with block_put_open_view [OF r ok True, of h 0 P] b v show ?thesis
      by (auto simp: block_successor_clear_def block_get_view [OF r])
  next
    case False
    with p have "(vsuc v)(h := 0, previous b := h) = (vsuc v)(h := 0)" by auto
    with block_put_view [OF r ok False, of h P 0] b v p [OF False] show ?thesis
      by (auto simp: block_successor_clear_def block_get_view [OF r])
  qed
qed

lemma represents_serializable: "represents s v \<Longrightarrow> vblk v h = Some b \<Longrightarrow> serializable b"
  by (auto simp: represents_def wf_store_def view_of_def simp flip: stored_iff_block_of)
    (auto simp: stored_def)

section \<open>The number of blocks\<close>

lemma dom_vblk:
  assumes "represents s v"
  shows "h \<in> dom (vblk v) \<longleftrightarrow> (\<exists>t. h \<in> dom (fmlookup (block_table t s)))"
proof -
  from assms have wf: "wf_blocks s" and v: "v = view_of s" by (auto simp: represents_def wf_store_def)
  have "block_of s h \<noteq> None \<longleftrightarrow> (\<exists>t. raw s t h \<noteq> None)"
    unfolding block_of_None_iff [OF wf] by (rule not_all)
  then show ?thesis unfolding v view_of_def by (simp add: domIff fmlookup_dom'_iff)
qed

lemma block_counts_view:
  assumes "represents s v"
  shows "finite (dom (vblk v))" "block_counts_sum s = card (dom (vblk v))"
proof -
  let ?D = "\<lambda>t. dom (fmlookup (block_table t s))"
  have fin: "finite (?D t)" for t by simp
  have disj: "?D t \<inter> ?D u = {}" if "t \<noteq> u" for t u
  proof -
    from assms have "excl s" by (simp add: represents_def wf_store_def wf_blocks_def)
    with that show ?thesis unfolding excl_def disjoint_iff domIff by blast
  qed
  have dom: "dom (vblk v) = ?D Type_send \<union> (?D Type_receive \<union> (?D Type_open \<union> (?D Type_change \<union> ?D Type_send_v2)))"
  proof (rule set_eqI)
    fix h show "h \<in> dom (vblk v) \<longleftrightarrow> h \<in> ?D Type_send \<union> (?D Type_receive \<union> (?D Type_open \<union> (?D Type_change \<union> ?D Type_send_v2)))"
      unfolding dom_vblk [OF assms]
    proof
      assume "\<exists>t. h \<in> ?D t"
      then obtain t where "h \<in> ?D t" by blast
      then show "h \<in> ?D Type_send \<union> (?D Type_receive \<union> (?D Type_open \<union> (?D Type_change \<union> ?D Type_send_v2)))"
        by (cases t) (auto simp: block_table_def)
    qed blast
  qed
  show "finite (dom (vblk v))" unfolding dom using fin by (intro finite_UnI)
  have "card (dom (vblk v)) = card (?D Type_send) + (card (?D Type_receive) + (card (?D Type_open) +
      (card (?D Type_change) + card (?D Type_send_v2))))"
    unfolding dom using fin disj by (simp add: card_Un_disjoint Int_Un_distrib del: finite_Un add: finite_UnI)
  then show "block_counts_sum s = card (dom (vblk v))"
    by (simp add: block_counts_sum_def block_table_def fcard.rep_eq fmdom'_alt_def)
qed

section \<open>Sequences of writes\<close>

lemma returns_Ret [simp]: "returns (Ret x) Q \<longleftrightarrow> Q x"
  by (simp add: returns_def)

lemma returns_bind: "returns m Q \<Longrightarrow> (\<And>x. Q x \<Longrightarrow> returns (f x) R) \<Longrightarrow> returns (obind m f) R"
  by (auto simp: returns_def)

lemma returns_mono: "returns m Q \<Longrightarrow> (\<And>x. Q x \<Longrightarrow> R x) \<Longrightarrow> returns m R"
  by (auto simp: returns_def)

lemmas put_views = account_put_view frontier_put_view pending_put_view block_info_put_view
  representation_put_view account_set_code_view

lemmas write_views = checksum_put_view [folded returns_def] account_del_view [folded returns_def]
  frontier_del_view [folded returns_def] pending_del_view [folded returns_def]
  block_info_del_view [folded returns_def] representation_add_view [folded returns_def]
  block_del_view [folded returns_def] block_put_view [folded returns_def]
  block_put_open_view [folded returns_def] block_successor_clear_view [folded returns_def]

end
