(* ===== verification/Ledger.thy ===== *)
theory Ledger
  imports Store_View
begin

text \<open>
  The ledger of \<^verbatim>\<open>rai/secure.cpp\<close>: the visitors that compute balances, amounts and representatives,
  the queries of \<^verbatim>\<open>rai::ledger\<close>, the processing of the five block types, rollback and the genesis
  ledger.  Only definitions; what they do is shown in the theories built on this one.

  The loops of the source follow hashes through the block tables and need not end on an arbitrary
  store.  Each loop has fuel, \<open>fuel\<close> computes it from the number of stored blocks, and using it up is
  \<open>Diverge\<close>.  The wall clock is the argument \<open>now\<close>: one reading stands for those made during a call.
\<close>

section \<open>Balance and amount visitors\<close>

definition fuel :: "block_store \<Rightarrow> nat" where
  "fuel s = 8 * block_counts_sum s + 16"

text \<open>
  \<open>balance_compute\<close> is the loop of \<^verbatim>\<open>balance_visitor::compute\<close> on the members \<^verbatim>\<open>current\<close> and
  \<^verbatim>\<open>result\<close>; \<open>amount_from_send\<close> is \<^verbatim>\<open>amount_visitor::from_send\<close>.  \<^verbatim>\<open>balance_visitor::send_block_v2\<close>
  leaves both members as they are and \<^verbatim>\<open>amount_visitor::send_block_v2\<close> leaves the result at the zero
  of its construction.
\<close>

function (sequential) balance_compute :: "params \<Rightarrow> block_store \<Rightarrow> nat \<Rightarrow> u256 \<times> u128 \<Rightarrow> u128 outcome"
  and balance_visit :: "params \<Rightarrow> block_store \<Rightarrow> nat \<Rightarrow> block \<Rightarrow> u256 \<times> u128 \<Rightarrow> (u256 \<times> u128) outcome"
  and amount_compute :: "params \<Rightarrow> block_store \<Rightarrow> nat \<Rightarrow> u256 \<Rightarrow> u128 outcome"
  and amount_visit :: "params \<Rightarrow> block_store \<Rightarrow> nat \<Rightarrow> block \<Rightarrow> u128 outcome"
  and amount_from_send :: "params \<Rightarrow> block_store \<Rightarrow> nat \<Rightarrow> u256 \<Rightarrow> u128 outcome"
where
  "balance_compute P s 0 st = Diverge"
| "balance_compute P s (Suc n) (current, result) =
     (if current = 0 then Ret result
      else obind (block_get P s current) (\<lambda>r. obind (of_option r) (\<lambda>b.
        obind (balance_visit P s n b (current, result)) (balance_compute P s n))))"
| "balance_visit P s 0 b st = Diverge"
| "balance_visit P s (Suc n) b (current, result) =
     (case b of
        Send h sig w \<Rightarrow> Ret (0, result + send_balance h)
      | Send_v2 h sig w \<Rightarrow> Ret (current, result)
      | Receive h sig w \<Rightarrow>
          obind (amount_compute P s n (receive_source h)) (\<lambda>source_result.
          obind (block_info_get s (hash P b)) (\<lambda>i.
          (case i of
             Some block_info \<Rightarrow> Ret (0, result + info_balance block_info)
           | None \<Rightarrow> Ret (receive_previous h, result + source_result))))
      | Open h sig w \<Rightarrow>
          obind (amount_compute P s n (open_source h)) (\<lambda>source_result.
          Ret (0, result + source_result))
      | Change h sig w \<Rightarrow>
          obind (block_info_get s (hash P b)) (\<lambda>i.
          (case i of
             Some block_info \<Rightarrow> Ret (0, result + info_balance block_info)
           | None \<Rightarrow> Ret (change_previous h, result))))"
| "amount_compute P s 0 h = Diverge"
| "amount_compute P s (Suc n) h =
     obind (block_get P s h) (\<lambda>r.
     (case r of
        Some b \<Rightarrow> amount_visit P s n b
      | None \<Rightarrow> if h = genesis_account P then Ret (- 1) else Abort))"
| "amount_visit P s 0 b = Diverge"
| "amount_visit P s (Suc n) b =
     (case b of
        Send h sig w \<Rightarrow>
          obind (balance_compute P s n (send_previous h, 0)) (\<lambda>prev. Ret (prev - send_balance h))
      | Send_v2 h sig w \<Rightarrow> Ret 0
      | Receive h sig w \<Rightarrow> amount_from_send P s n (receive_source h)
      | Open h sig w \<Rightarrow>
          (if open_source h \<noteq> genesis_account P then amount_from_send P s n (open_source h)
           else Ret genesis_amount)
      | Change h sig w \<Rightarrow> Ret 0)"
| "amount_from_send P s 0 h = Diverge"
| "amount_from_send P s (Suc n) h =
     obind (block_get P s h) (\<lambda>r. obind (of_option r) (\<lambda>b. amount_visit P s n b))"
  by pat_completeness auto

termination
  by (relation "measure (case_sum (case_sum (\<lambda>(_, _, n, _). n) (\<lambda>(_, _, n, _). n))
        (case_sum (\<lambda>(_, _, n, _). n) (case_sum (\<lambda>(_, _, n, _). n) (\<lambda>(_, _, n, _). n))))") auto

text \<open>\<^verbatim>\<open>representative_visitor::compute\<close>: the loop runs until \<^verbatim>\<open>result\<close> is not zero.\<close>

fun representative_visit :: "params \<Rightarrow> block \<Rightarrow> u256 \<times> u256 \<Rightarrow> u256 \<times> u256" where
  "representative_visit P b (current, result) =
     (case b of
        Send h sig w \<Rightarrow> (send_previous h, result)
      | Send_v2 h sig w \<Rightarrow> (send_v2_previous h, result)
      | Receive h sig w \<Rightarrow> (receive_previous h, result)
      | Open h sig w \<Rightarrow> (current, hash P b)
      | Change h sig w \<Rightarrow> (current, hash P b))"

fun representative_compute :: "params \<Rightarrow> block_store \<Rightarrow> nat \<Rightarrow> u256 \<times> u256 \<Rightarrow> u256 outcome" where
  "representative_compute P s 0 st = Diverge"
| "representative_compute P s (Suc n) (current, result) =
     (if result \<noteq> 0 then Ret result
      else obind (block_get P s current) (\<lambda>r. obind (of_option r) (\<lambda>b.
        representative_compute P s n (representative_visit P b (current, result)))))"

section \<open>Queries of the ledger\<close>

definition ledger_balance :: "params \<Rightarrow> block_store \<Rightarrow> u256 \<Rightarrow> u128 outcome" where
  "ledger_balance P s h = balance_compute P s (fuel s) (h, 0)"

definition ledger_amount :: "params \<Rightarrow> block_store \<Rightarrow> u256 \<Rightarrow> u128 outcome" where
  "ledger_amount P s h = amount_compute P s (fuel s) h"

definition representative_calculated :: "params \<Rightarrow> block_store \<Rightarrow> u256 \<Rightarrow> u256 outcome" where
  "representative_calculated P s h = representative_compute P s (fuel s) (h, 0)"

definition ledger_representative :: "params \<Rightarrow> block_store \<Rightarrow> u256 \<Rightarrow> u256 outcome" where
  "ledger_representative P s h =
     obind (representative_calculated P s h) (\<lambda>result.
     obind (check (result = 0 \<or> block_exists s result)) (\<lambda>_. Ret result))"

text \<open>
  The loop of \<^verbatim>\<open>ledger::account\<close> on \<^verbatim>\<open>hash\<close> and \<^verbatim>\<open>successor\<close>.  It ends with the last
  \<^verbatim>\<open>hash\<close> when the chain ends and with the block info found otherwise.
\<close>

fun account_loop :: "block_store \<Rightarrow> nat \<Rightarrow> u256 \<Rightarrow> u256 \<Rightarrow> u256 outcome" where
  "account_loop s 0 h successor = Diverge"
| "account_loop s (Suc n) h successor =
     (if successor = 0 then frontier_get s h
      else obind (block_info_get s successor) (\<lambda>i.
        (case i of
           Some block_info \<Rightarrow> Ret (info_account block_info)
         | None \<Rightarrow>
             obind (block_successor s h) (\<lambda>successor.
             account_loop s n (if successor \<noteq> 0 then successor else h) successor))))"

definition ledger_account :: "block_store \<Rightarrow> u256 \<Rightarrow> u256 outcome" where
  "ledger_account s h =
     obind (check (block_exists s h)) (\<lambda>_.
     obind (account_loop s (fuel s) h 1) (\<lambda>result.
     obind (check (result \<noteq> 0)) (\<lambda>_. Ret result)))"

definition account_balance :: "block_store \<Rightarrow> u256 \<Rightarrow> u128 outcome" where
  "account_balance s a =
     obind (account_get s a) (\<lambda>r. Ret (case r of None \<Rightarrow> 0 | Some info \<Rightarrow> balance info))"

definition ledger_weight :: "block_store \<Rightarrow> u256 \<Rightarrow> u128 outcome" where
  "ledger_weight s a = representation_get s a"

definition ledger_latest :: "block_store \<Rightarrow> u256 \<Rightarrow> u256 outcome" where
  "ledger_latest s a =
     obind (account_get s a) (\<lambda>r. Ret (case r of None \<Rightarrow> 0 | Some info \<Rightarrow> head info))"

definition latest_root :: "block_store \<Rightarrow> u256 \<Rightarrow> u256 outcome" where
  "latest_root s a =
     obind (account_get s a) (\<lambda>r. Ret (case r of None \<Rightarrow> a | Some info \<Rightarrow> head info))"

definition ledger_checksum :: "block_store \<Rightarrow> u256 outcome" where
  "ledger_checksum s = obind (checksum_get s 0 0) of_option"

definition ledger_successor :: "params \<Rightarrow> block_store \<Rightarrow> u256 \<Rightarrow> block outcome" where
  "ledger_successor P s h =
     obind (check (account_exists s h \<or> block_exists s h)) (\<lambda>_.
     obind (if account_exists s h then Ret ()
            else obind (ledger_account s h) (\<lambda>a. obind (ledger_latest s a) (\<lambda>l. check (l \<noteq> h)))) (\<lambda>_.
     obind (if account_exists s h
            then obind (account_get s h) (\<lambda>r. obind (of_option r) (\<lambda>info. Ret (open_block info)))
            else block_successor s h) (\<lambda>successor.
     obind (check (successor \<noteq> 0)) (\<lambda>_.
     obind (block_get P s successor) of_option))))"

definition forked_block :: "params \<Rightarrow> block_store \<Rightarrow> block \<Rightarrow> block outcome" where
  "forked_block P s b =
     obind (check (\<not> block_exists s (hash P b))) (\<lambda>_.
     obind (check (block_exists s (root b) \<or> account_exists s (root b))) (\<lambda>_.
     obind (block_successor s (root b)) (\<lambda>n.
     obind (block_get P s n) (\<lambda>result.
     (case result of
        Some c \<Rightarrow> Ret c
      | None \<Rightarrow>
          obind (account_get s (root b)) (\<lambda>r. obind (of_option r) (\<lambda>info.
          obind (block_get P s (open_block info)) of_option)))))))"

text \<open>
  \<^verbatim>\<open>ledger::account_pending\<close>: from the first entry of the account up to the position of the cursor of
  the next account.  A cursor that has passed the last entry delivers an empty value, which the
  constructor of \<^verbatim>\<open>pending_info\<close> refuses.
\<close>

fun pending_sum :: "(pending_key \<times> byte list) list \<Rightarrow> pending_key option \<Rightarrow> u128 \<Rightarrow> u128 outcome" where
  "pending_sum [] n result = (if n = None then Ret result else Abort)"
| "pending_sum ((k, v) # i) n result =
     (if n = Some k then Ret result
      else obind (check (length v = 48)) (\<lambda>_.
        obind (of_option (pending_info_deserialize v)) (\<lambda>(info, _).
        pending_sum i n (result + pending_amount info))))"

definition account_pending :: "block_store \<Rightarrow> u256 \<Rightarrow> u128 outcome" where
  "account_pending s a =
     pending_sum (store_from (a, 0) (pending s))
       (case store_from (a + 1, 0) (pending s) of [] \<Rightarrow> None | (k, _) # _ \<Rightarrow> Some k) 0"

definition ledger_supply :: "params \<Rightarrow> block_store \<Rightarrow> u128 \<Rightarrow> u128 outcome" where
  "ledger_supply P s inactive_supply =
     obind (account_balance s (genesis_account P)) (\<lambda>unallocated.
     obind (account_pending s 0) (\<lambda>burned.
     (let absolute_supply = genesis_amount - unallocated - burned;
          adjusted_supply = absolute_supply - inactive_supply
      in Ret (if adjusted_supply \<le> absolute_supply then adjusted_supply else 0))))"

section \<open>Changing the head of an account\<close>

definition checksum_update :: "block_store \<Rightarrow> u256 \<Rightarrow> block_store outcome" where
  "checksum_update s h =
     obind (checksum_get s 0 0) (\<lambda>r. obind (of_option r) (\<lambda>v.
     checksum_put s 0 0 (v XOR h)))"

definition change_latest :: "params \<Rightarrow> u64 \<Rightarrow> block_store \<Rightarrow> u256 \<Rightarrow> u256 \<Rightarrow> u256 \<Rightarrow> u128 \<Rightarrow> u64 \<Rightarrow>
    block_store outcome" where
  "change_latest P now s account h rep_block_a balance_a block_count_a =
     obind (account_get s account) (\<lambda>r.
     obind (case r of
              Some info \<Rightarrow> obind (checksum_update s (head info)) (\<lambda>s. Ret (s, info))
            | None \<Rightarrow>
                obind (block_get P s h) (\<lambda>b.
                obind (check (map_option type_of_block b = Some Type_open)) (\<lambda>_.
                Ret (s, account_info_default\<lparr>open_block := h\<rparr>)))) (\<lambda>(s, info).
     if h \<noteq> 0 then
       (let s = account_put s account (info\<lparr>head := h, rep_block := rep_block_a, balance := balance_a,
                  modified := now, block_count := block_count_a\<rparr>);
            s = (if block_count_a mod of_nat block_info_max = 0
                 then block_info_put s h \<lparr>info_account = account, info_balance = balance_a\<rparr> else s)
        in checksum_update s h)
     else account_del s account))"

section \<open>Processing of blocks\<close>

datatype process_result = Progress | Bad_signature | Old | Overspend | Fork | Unreceivable
  | Gap_previous | Gap_source | Not_receive_from_send | Account_mismatch | Opened_burn_account

text \<open>The members a call leaves unset are \<open>None\<close>.\<close>

record process_return =
  code :: process_result
  result_account :: "u256 option"
  result_amount :: "u128 option"
  result_pending_account :: "u256 option"

definition just :: "process_result \<Rightarrow> process_return" where
  "just c = \<lparr>code = c, result_account = None, result_amount = None, result_pending_account = None\<rparr>"

definition process_change_block ::
    "params \<Rightarrow> u64 \<Rightarrow> block_store \<Rightarrow> change_hashables \<Rightarrow> u512 \<Rightarrow> u64 \<Rightarrow> (block_store \<times> process_return) outcome" where
  "process_change_block P now s b sig w =
     (let h = hash P (Change b sig w) in
      if block_exists s h then Ret (s, just Old)
      else if \<not> block_exists s (change_previous b) then Ret (s, just Gap_previous)
      else obind (frontier_get s (change_previous b)) (\<lambda>account.
        if account = 0 then Ret (s, just Fork)
        else obind (account_get s account) (\<lambda>r. obind (of_option r) (\<lambda>info.
          obind (check (head info = change_previous b)) (\<lambda>_.
          if validate_message P account h sig then Ret (s, just Bad_signature)
          else
            obind (block_put P s h (Change b sig w) 0) (\<lambda>s.
            obind (ledger_balance P s (change_previous b)) (\<lambda>bal.
            obind (representation_add P s h bal) (\<lambda>s.
            obind (representation_add P s (rep_block info) (0 - bal)) (\<lambda>s.
            obind (change_latest P now s account h h (balance info) (block_count info + 1)) (\<lambda>s.
            obind (frontier_del s (change_previous b)) (\<lambda>s.
            Ret (frontier_put s h account,
              \<lparr>code = Progress, result_account = Some account, result_amount = Some 0,
                result_pending_account = None\<rparr>))))))))))))"

definition process_send_block ::
    "params \<Rightarrow> u64 \<Rightarrow> block_store \<Rightarrow> send_hashables \<Rightarrow> u512 \<Rightarrow> u64 \<Rightarrow> (block_store \<times> process_return) outcome" where
  "process_send_block P now s b sig w =
     (let h = hash P (Send b sig w) in
      if block_exists s h then Ret (s, just Old)
      else if \<not> block_exists s (send_previous b) then Ret (s, just Gap_previous)
      else obind (frontier_get s (send_previous b)) (\<lambda>account.
        if account = 0 then Ret (s, just Fork)
        else if validate_message P account h sig then Ret (s, just Bad_signature)
        else obind (account_get s account) (\<lambda>r. obind (of_option r) (\<lambda>info.
          obind (check (head info = send_previous b)) (\<lambda>_.
          if \<not> send_balance b \<le> balance info then Ret (s, just Overspend)
          else
            (let amount = balance info - send_balance b in
            obind (representation_add P s (rep_block info) (0 - amount)) (\<lambda>s.
            obind (block_put P s h (Send b sig w) 0) (\<lambda>s.
            obind (change_latest P now s account h (rep_block info) (send_balance b) (block_count info + 1)) (\<lambda>s.
            let s = pending_put s (send_destination b, h) \<lparr>pending_source = account, pending_amount = amount\<rparr> in
            obind (frontier_del s (send_previous b)) (\<lambda>s.
            Ret (frontier_put s h account,
              \<lparr>code = Progress, result_account = Some account, result_amount = Some amount,
                result_pending_account = Some (send_destination b)\<rparr>)))))))))))"

text \<open>
  The smart-contract variant stores the action as the code of the account and moves no funds.  The
  call of the virtual machine, which loads the stored code, does not touch the store.
\<close>

definition process_send_block_v2 ::
    "params \<Rightarrow> u64 \<Rightarrow> block_store \<Rightarrow> send_hashables_v2 \<Rightarrow> u512 \<Rightarrow> u64 \<Rightarrow> (block_store \<times> process_return) outcome" where
  "process_send_block_v2 P now s b sig w =
     (let h = hash P (Send_v2 b sig w) in
      if block_exists s h then Ret (s, just Old)
      else if \<not> block_exists s (send_v2_previous b) then Ret (s, just Gap_previous)
      else obind (frontier_get s (send_v2_previous b)) (\<lambda>account.
        if account = 0 then Ret (s, just Fork)
        else if validate_message P account h sig then Ret (s, just Bad_signature)
        else obind (account_get s account) (\<lambda>r. obind (of_option r) (\<lambda>info.
          obind (check (head info = send_v2_previous b)) (\<lambda>_.
          (let s = account_set_code s account (send_v2_action b) in
          obind (block_put P s h (Send_v2 b sig w) 0) (\<lambda>s.
          obind (change_latest P now s account h (rep_block info) (balance info) (block_count info + 1)) (\<lambda>s.
          obind (frontier_del s (send_v2_previous b)) (\<lambda>s.
          Ret (frontier_put s h account,
            \<lparr>code = Progress, result_account = Some account, result_amount = None,
              result_pending_account = Some (send_v2_destination b)\<rparr>))))))))))"

definition process_receive_block ::
    "params \<Rightarrow> u64 \<Rightarrow> block_store \<Rightarrow> receive_hashables \<Rightarrow> u512 \<Rightarrow> u64 \<Rightarrow> (block_store \<times> process_return) outcome" where
  "process_receive_block P now s b sig w =
     (let h = hash P (Receive b sig w) in
      if block_exists s h then Ret (s, just Old)
      else if \<not> block_exists s (receive_source b) then Ret (s, just Gap_source)
      else obind (frontier_get s (receive_previous b)) (\<lambda>account.
        if account = 0 then
          Ret (s, just (if block_exists s (receive_previous b) then Fork else Gap_previous))
        else if validate_message P account h sig then Ret (s, just Bad_signature)
        else obind (account_get s account) (\<lambda>r.
          let info = (case r of None \<Rightarrow> account_info_default | Some i \<Rightarrow> i) in
          if head info \<noteq> receive_previous b then Ret (s, just Gap_previous)
          else obind (pending_get s (account, receive_source b)) (\<lambda>p.
            (case p of
               None \<Rightarrow> Ret (s, just Unreceivable)
             | Some pnd \<Rightarrow>
                 (let new_balance = balance info + pending_amount pnd in
                 obind (account_get s (pending_source pnd)) (\<lambda>source_info.
                 obind (of_option source_info) (\<lambda>_.
                 obind (pending_del s (account, receive_source b)) (\<lambda>s.
                 obind (block_put P s h (Receive b sig w) 0) (\<lambda>s.
                 obind (change_latest P now s account h (rep_block info) new_balance (block_count info + 1)) (\<lambda>s.
                 obind (representation_add P s (rep_block info) (pending_amount pnd)) (\<lambda>s.
                 obind (frontier_del s (receive_previous b)) (\<lambda>s.
                 Ret (frontier_put s h account,
                   \<lparr>code = Progress, result_account = Some account,
                     result_amount = Some (pending_amount pnd),
                     result_pending_account = None\<rparr>))))))))))))))"

definition process_open_block ::
    "params \<Rightarrow> u64 \<Rightarrow> block_store \<Rightarrow> open_hashables \<Rightarrow> u512 \<Rightarrow> u64 \<Rightarrow> (block_store \<times> process_return) outcome" where
  "process_open_block P now s b sig w =
     (let h = hash P (Open b sig w) in
      if block_exists s h then Ret (s, just Old)
      else if \<not> block_exists s (open_source b) then Ret (s, just Gap_source)
      else if validate_message P (open_account b) h sig then Ret (s, just Bad_signature)
      else obind (account_get s (open_account b)) (\<lambda>r.
        (case r of
           Some _ \<Rightarrow> Ret (s, just Fork)
         | None \<Rightarrow>
             (let info = account_info_default in
             obind (pending_get s (open_account b, open_source b)) (\<lambda>p.
             (case p of
                None \<Rightarrow> Ret (s, just Unreceivable)
              | Some pnd \<Rightarrow>
                  if open_account b = burn_account then Ret (s, just Opened_burn_account)
                  else
                    obind (account_get s (pending_source pnd)) (\<lambda>source_info.
                    obind (of_option source_info) (\<lambda>_.
                    obind (pending_del s (open_account b, open_source b)) (\<lambda>s.
                    obind (block_put P s h (Open b sig w) 0) (\<lambda>s.
                    obind (change_latest P now s (open_account b) h h (pending_amount pnd) (block_count info + 1)) (\<lambda>s.
                    obind (representation_add P s h (pending_amount pnd)) (\<lambda>s.
                    Ret (frontier_put s h (open_account b),
                      \<lparr>code = Progress, result_account = Some (open_account b),
                        result_amount = Some (pending_amount pnd),
                        result_pending_account = None\<rparr>)))))))))))))"

text \<open>\<^verbatim>\<open>ledger::process\<close>: the visit of the block by \<^verbatim>\<open>ledger_processor\<close>.\<close>

fun process :: "params \<Rightarrow> u64 \<Rightarrow> block_store \<Rightarrow> block \<Rightarrow> (block_store \<times> process_return) outcome" where
  "process P now s (Send b sig w) = process_send_block P now s b sig w"
| "process P now s (Send_v2 b sig w) = process_send_block_v2 P now s b sig w"
| "process P now s (Receive b sig w) = process_receive_block P now s b sig w"
| "process P now s (Open b sig w) = process_open_block P now s b sig w"
| "process P now s (Change b sig w) = process_change_block P now s b sig w"

section \<open>Rollback\<close>

text \<open>
  The parts of \<^verbatim>\<open>rollback_visitor\<close> that do not call \<^verbatim>\<open>ledger::rollback\<close>.  \<open>rollback_send_block\<close> is
  the visit of a send block after its loop has found the pending entry.
\<close>

definition rollback_block_info :: "block_store \<Rightarrow> account_info \<Rightarrow> u256 \<Rightarrow> block_store outcome" where
  "rollback_block_info s info h =
     (if block_count info mod of_nat block_info_max = 0 then block_info_del s h else Ret s)"

definition rollback_send_block ::
    "params \<Rightarrow> u64 \<Rightarrow> block_store \<Rightarrow> send_hashables \<Rightarrow> u256 \<Rightarrow> pending_info \<Rightarrow> block_store outcome" where
  "rollback_send_block P now s b h p =
     obind (account_get s (pending_source p)) (\<lambda>r. obind (of_option r) (\<lambda>info.
     obind (pending_del s (send_destination b, h)) (\<lambda>s.
     obind (ledger_representative P s h) (\<lambda>rep.
     obind (representation_add P s rep (pending_amount p)) (\<lambda>s.
     obind (ledger_balance P s (send_previous b)) (\<lambda>bal.
     obind (change_latest P now s (pending_source p) (send_previous b) (rep_block info) bal (block_count info - 1)) (\<lambda>s.
     obind (block_del s h) (\<lambda>s.
     obind (frontier_del s h) (\<lambda>s.
     let s = frontier_put s (send_previous b) (pending_source p) in
     obind (block_successor_clear P s (send_previous b)) (\<lambda>s.
     rollback_block_info s info h))))))))))"

definition rollback_receive_block ::
    "params \<Rightarrow> u64 \<Rightarrow> block_store \<Rightarrow> receive_hashables \<Rightarrow> u256 \<Rightarrow> block_store outcome" where
  "rollback_receive_block P now s b h =
     obind (ledger_representative P s (receive_previous b)) (\<lambda>rep.
     obind (ledger_amount P s (receive_source b)) (\<lambda>amount.
     obind (ledger_account s h) (\<lambda>destination_account.
     obind (account_get s destination_account) (\<lambda>r. obind (of_option r) (\<lambda>info.
     obind (ledger_representative P s h) (\<lambda>rep_h.
     obind (representation_add P s rep_h (0 - amount)) (\<lambda>s.
     obind (ledger_balance P s (receive_previous b)) (\<lambda>bal.
     obind (change_latest P now s destination_account (receive_previous b) rep bal (block_count info - 1)) (\<lambda>s.
     obind (block_del s h) (\<lambda>s.
     obind (ledger_account s (receive_source b)) (\<lambda>source_account.
     let s = pending_put s (destination_account, receive_source b)
               \<lparr>pending_source = source_account, pending_amount = amount\<rparr> in
     obind (frontier_del s h) (\<lambda>s.
     let s = frontier_put s (receive_previous b) destination_account in
     obind (block_successor_clear P s (receive_previous b)) (\<lambda>s.
     rollback_block_info s info h)))))))))))))"

definition rollback_open_block ::
    "params \<Rightarrow> u64 \<Rightarrow> block_store \<Rightarrow> open_hashables \<Rightarrow> u256 \<Rightarrow> block_store outcome" where
  "rollback_open_block P now s b h =
     obind (ledger_amount P s (open_source b)) (\<lambda>amount.
     obind (ledger_account s h) (\<lambda>destination_account.
     obind (ledger_representative P s h) (\<lambda>rep_h.
     obind (representation_add P s rep_h (0 - amount)) (\<lambda>s.
     obind (change_latest P now s destination_account 0 0 0 0) (\<lambda>s.
     obind (block_del s h) (\<lambda>s.
     obind (ledger_account s (open_source b)) (\<lambda>source_account.
     let s = pending_put s (destination_account, open_source b)
               \<lparr>pending_source = source_account, pending_amount = amount\<rparr> in
     frontier_del s h)))))))"

definition rollback_change_block ::
    "params \<Rightarrow> u64 \<Rightarrow> block_store \<Rightarrow> change_hashables \<Rightarrow> u256 \<Rightarrow> block_store outcome" where
  "rollback_change_block P now s b h =
     obind (ledger_representative P s (change_previous b)) (\<lambda>rep.
     obind (ledger_account s (change_previous b)) (\<lambda>account.
     obind (account_get s account) (\<lambda>r. obind (of_option r) (\<lambda>info.
     obind (ledger_balance P s (change_previous b)) (\<lambda>bal.
     obind (representation_add P s rep bal) (\<lambda>s.
     obind (representation_add P s h (0 - bal)) (\<lambda>s.
     obind (block_del s h) (\<lambda>s.
     obind (change_latest P now s account (change_previous b) rep (balance info) (block_count info - 1)) (\<lambda>s.
     obind (frontier_del s h) (\<lambda>s.
     let s = frontier_put s (change_previous b) account in
     obind (block_successor_clear P s (change_previous b)) (\<lambda>s.
     rollback_block_info s info h)))))))))))"

text \<open>
  The mutual recursion between \<^verbatim>\<open>ledger::rollback\<close> (\<open>rollback_rec\<close>, its loop \<open>rollback_loop\<close>), the
  visitor (\<open>rollback_visit\<close>) and the loop of its \<^verbatim>\<open>send_block\<close> (\<open>rollback_pending\<close>).
\<close>

function (sequential) rollback_rec :: "params \<Rightarrow> u64 \<Rightarrow> nat \<Rightarrow> block_store \<Rightarrow> u256 \<Rightarrow> block_store outcome"
  and rollback_loop :: "params \<Rightarrow> u64 \<Rightarrow> nat \<Rightarrow> block_store \<Rightarrow> u256 \<Rightarrow> u256 \<Rightarrow> block_store outcome"
  and rollback_visit :: "params \<Rightarrow> u64 \<Rightarrow> nat \<Rightarrow> block_store \<Rightarrow> block \<Rightarrow> block_store outcome"
  and rollback_pending :: "params \<Rightarrow> u64 \<Rightarrow> nat \<Rightarrow> block_store \<Rightarrow> pending_key \<Rightarrow> (block_store \<times> pending_info) outcome"
where
  "rollback_rec P now 0 s h = Diverge"
| "rollback_rec P now (Suc n) s h =
     obind (check (block_exists s h)) (\<lambda>_.
     obind (ledger_account s h) (\<lambda>account_l.
     rollback_loop P now n s account_l h))"
| "rollback_loop P now 0 s account_l h = Diverge"
| "rollback_loop P now (Suc n) s account_l h =
     (if block_exists s h then
        obind (account_get s account_l) (\<lambda>r. obind (of_option r) (\<lambda>info.
        obind (block_get P s (head info)) (\<lambda>r. obind (of_option r) (\<lambda>b.
        obind (rollback_visit P now n s b) (\<lambda>s.
        rollback_loop P now n s account_l h)))))
      else Ret s)"
| "rollback_visit P now 0 s b = Diverge"
| "rollback_visit P now (Suc n) s b =
     (case b of
        Send h sig w \<Rightarrow>
          obind (rollback_pending P now n s (send_destination h, hash P b)) (\<lambda>(s, p).
          rollback_send_block P now s h (hash P b) p)
      | Send_v2 h sig w \<Rightarrow> Ret s
      | Receive h sig w \<Rightarrow> rollback_receive_block P now s h (hash P b)
      | Open h sig w \<Rightarrow> rollback_open_block P now s h (hash P b)
      | Change h sig w \<Rightarrow> rollback_change_block P now s h (hash P b))"
| "rollback_pending P now 0 s key = Diverge"
| "rollback_pending P now (Suc n) s key =
     obind (pending_get s key) (\<lambda>p.
     (case p of
        Some pnd \<Rightarrow> Ret (s, pnd)
      | None \<Rightarrow>
          obind (ledger_latest s (fst key)) (\<lambda>l.
          obind (rollback_rec P now n s l) (\<lambda>s.
          rollback_pending P now n s key))))"
  by pat_completeness auto

termination
  by (relation "measure (case_sum (case_sum (\<lambda>(_, _, n, _). n) (\<lambda>(_, _, n, _). n))
        (case_sum (\<lambda>(_, _, n, _). n) (\<lambda>(_, _, n, _). n)))") auto

definition rollback :: "params \<Rightarrow> u64 \<Rightarrow> block_store \<Rightarrow> u256 \<Rightarrow> block_store outcome" where
  "rollback P now s h = rollback_rec P now (fuel s) s h"

section \<open>The genesis ledger\<close>

text \<open>
  \<open>empty_store\<close>: the state the constructor of \<^verbatim>\<open>rai::block_store\<close> leaves in a new environment.
  \<open>genesis_open\<close> is the block parsed from the genesis literal of the active network.
\<close>

definition empty_store :: block_store where
  "empty_store = \<lparr>frontiers = fmempty, accounts = fmempty, vm_codes = fmempty, send_blocks = fmempty,
     send_blocks_v2 = fmempty, receive_blocks = fmempty, open_blocks = fmempty,
     change_blocks = fmempty, pending = fmempty, blocks_info = fmempty, representation = fmempty,
     unsynced = fmempty, checksums = mdb_put 0 (write_be (0 :: u256)) fmempty\<rparr>"

definition genesis_initialize :: "params \<Rightarrow> u64 \<Rightarrow> open_hashables \<Rightarrow> u512 \<Rightarrow> u64 \<Rightarrow> block_store \<Rightarrow> block_store outcome" where
  "genesis_initialize P now b sig w s =
     (let open_a = Open b sig w; hash_l = hash P open_a in
      obind (check (store_begin (accounts s) = [])) (\<lambda>_.
      obind (block_put P s hash_l open_a 0) (\<lambda>s.
      let s = account_put s (genesis_account P) \<lparr>head = hash_l, rep_block = hash P open_a,
                open_block = hash P open_a, balance = - 1, modified = now, block_count = 1\<rparr>;
          s = representation_put s (genesis_account P) (- 1) in
      obind (checksum_put s 0 0 hash_l) (\<lambda>s.
      Ret (frontier_put s hash_l (genesis_account P))))))"

end
