(* ===== verification/Ledger_Inv.thy ===== *)
theory Ledger_Inv
  imports Ledger
begin

text \<open>
  What holds of a ledger built by processing blocks, and what the visitors of the ledger compute then.

  The invariant speaks about the view of the store and a ghost state that names, for every block, the
  account whose chain it is on (\<open>own\<close>), the balance after it (\<open>bal\<close>), its position in the chain
  (\<open>hgt\<close>), the block that names the representative (\<open>repb\<close>) and the representative (\<open>rep\<close>), and a
  rank (\<open>rnk\<close>) that grows along previous and source links; \<open>gen\<close> is the hash of the genesis block.  The
  ghost state is existentially quantified in \<open>ledger_inv\<close>.

  Under the invariant each visitor returns (the fuel is enough) with the value the ghost state gives.
\<close>

section \<open>Ghost state\<close>

record ghost =
  gen :: u256
  own :: "u256 \<Rightarrow> u256"
  bal :: "u256 \<Rightarrow> u128"
  hgt :: "u256 \<Rightarrow> nat"
  rnk :: "u256 \<Rightarrow> nat"
  repb :: "u256 \<Rightarrow> u256"
  rep :: "u256 \<Rightarrow> u256"

definition linked :: "ghost \<Rightarrow> (u256 \<rightharpoonup> block) \<Rightarrow> (u256 \<Rightarrow> u256) \<Rightarrow> u256 \<Rightarrow> u256 \<Rightarrow> bool" where
  "linked g M S p h \<longleftrightarrow> M p \<noteq> None \<and> S p = h \<and> own g h = own g p \<and> hgt g h = Suc (hgt g p) \<and>
     rnk g p < rnk g h"

definition sent :: "ghost \<Rightarrow> (u256 \<rightharpoonup> block) \<Rightarrow> u256 \<Rightarrow> u128" where
  "sent g M s = (case M s of Some (Send x sig w) \<Rightarrow> bal g (send_previous x) - send_balance x | _ \<Rightarrow> 0)"

definition receipt :: "ghost \<Rightarrow> (u256 \<rightharpoonup> block) \<Rightarrow> u256 \<Rightarrow> u256 \<Rightarrow> bool" where
  "receipt g M s h \<longleftrightarrow> (\<exists>x sig w. M s = Some (Send x sig w) \<and> send_destination x = own g h) \<and>
     rnk g s < rnk g h"

definition same_rep :: "ghost \<Rightarrow> u256 \<Rightarrow> u256 \<Rightarrow> bool" where
  "same_rep g p h \<longleftrightarrow> repb g h = repb g p \<and> rep g h = rep g p"

definition own_rep :: "ghost \<Rightarrow> u256 \<Rightarrow> u256 \<Rightarrow> bool" where
  "own_rep g h r \<longleftrightarrow> repb g h = h \<and> rep g h = r"

fun block_case :: "params \<Rightarrow> ghost \<Rightarrow> (u256 \<rightharpoonup> block) \<Rightarrow> (u256 \<Rightarrow> u256) \<Rightarrow> u256 \<Rightarrow> block \<Rightarrow> bool" where
  "block_case P g M S h (Send x sig w) \<longleftrightarrow> linked g M S (send_previous x) h \<and>
     same_rep g (send_previous x) h \<and> bal g h = send_balance x \<and>
     send_balance x \<le> bal g (send_previous x)"
| "block_case P g M S h (Send_v2 x sig w) \<longleftrightarrow> False"
| "block_case P g M S h (Receive x sig w) \<longleftrightarrow> linked g M S (receive_previous x) h \<and>
     same_rep g (receive_previous x) h \<and> receipt g M (receive_source x) h \<and>
     bal g h = bal g (receive_previous x) + sent g M (receive_source x) \<and>
     bal g (receive_previous x) \<le> bal g h"
| "block_case P g M S h (Open x sig w) \<longleftrightarrow> own g h = open_account x \<and> hgt g h = 1 \<and>
     own_rep g h (open_representative x) \<and>
     (if h = gen g then open_source x = genesis_account P \<and> rnk g h = 0 \<and> bal g h = - 1
      else receipt g M (open_source x) h \<and> bal g h = sent g M (open_source x))"
| "block_case P g M S h (Change x sig w) \<longleftrightarrow> linked g M S (change_previous x) h \<and>
     own_rep g h (change_representative x) \<and> bal g h = bal g (change_previous x)"

definition reserved :: "params \<Rightarrow> u256 \<Rightarrow> bool" where
  "reserved P h \<longleftrightarrow> h = 0 \<or> h = 1 \<or> h = genesis_account P"

definition rep_inv :: "ghost \<Rightarrow> (u256 \<rightharpoonup> block) \<Rightarrow> u256 \<Rightarrow> bool" where
  "rep_inv g M h \<longleftrightarrow> (\<exists>c. M (repb g h) = Some c \<and> representative c = rep g h) \<and> rep g h \<noteq> 0 \<and>
     own g (repb g h) = own g h \<and> hgt g (repb g h) \<le> hgt g h"

definition blocks_inv :: "params \<Rightarrow> ghost \<Rightarrow> (u256 \<rightharpoonup> block) \<Rightarrow> (u256 \<Rightarrow> u256) \<Rightarrow> bool" where
  "blocks_inv P g M S \<longleftrightarrow> (\<forall>h b. M h = Some b \<longrightarrow> hash P b = h \<and> \<not> reserved P h \<and> own g h \<noteq> 0 \<and>
     rep_inv g M h \<and> block_case P g M S h b)"

definition infos_ok :: "ghost \<Rightarrow> (u256 \<rightharpoonup> block_info) \<Rightarrow> bool" where
  "infos_ok g B \<longleftrightarrow> (\<forall>h i. B h = Some i \<longrightarrow> info_balance i = bal g h)"

definition chain_inv :: "ghost \<Rightarrow> (u256 \<rightharpoonup> block) \<Rightarrow> bool" where
  "chain_inv g M \<longleftrightarrow> (\<forall>x y. M x \<noteq> None \<longrightarrow> M y \<noteq> None \<longrightarrow> own g x = own g y \<longrightarrow>
     (hgt g x = hgt g y \<longrightarrow> x = y) \<and> (hgt g x < hgt g y \<longrightarrow> rnk g x < rnk g y))"

definition succ_inv :: "ghost \<Rightarrow> (u256 \<rightharpoonup> block) \<Rightarrow> (u256 \<Rightarrow> u256) \<Rightarrow> (u256 \<rightharpoonup> u256) \<Rightarrow> bool" where
  "succ_inv g M S F \<longleftrightarrow> (\<forall>h. (M h = None \<longrightarrow> S h = 0) \<and>
     (M h \<noteq> None \<longrightarrow> (if S h = 0 then F h = Some (own g h) else \<exists>c. M (S h) = Some c \<and> previous c = h)))"

definition account_inv :: "ghost \<Rightarrow> (u256 \<rightharpoonup> block) \<Rightarrow> (u256 \<Rightarrow> u256) \<Rightarrow> u256 \<Rightarrow> account_info \<Rightarrow> bool" where
  "account_inv g M S a i \<longleftrightarrow> M (head i) \<noteq> None \<and> own g (head i) = a \<and> S (head i) = 0 \<and>
     rep_block i = repb g (head i) \<and> balance i = bal g (head i) \<and>
     block_count i = of_nat (hgt g (head i)) \<and>
     (\<exists>x sig w. M (open_block i) = Some (Open x sig w) \<and> open_account x = a)"

definition accounts_inv ::
    "ghost \<Rightarrow> (u256 \<rightharpoonup> block) \<Rightarrow> (u256 \<Rightarrow> u256) \<Rightarrow> (u256 \<rightharpoonup> account_info) \<Rightarrow> (u256 \<rightharpoonup> u256) \<Rightarrow> bool" where
  "accounts_inv g M S A F \<longleftrightarrow> (\<forall>a i. A a = Some i \<longrightarrow> account_inv g M S a i) \<and>
     (\<forall>h. M h \<noteq> None \<longrightarrow> (\<exists>i. A (own g h) = Some i \<and> hgt g h \<le> hgt g (head i))) \<and>
     (\<forall>h a. F h = Some a \<longleftrightarrow> (\<exists>i. A a = Some i \<and> head i = h))"

fun receives :: "block \<Rightarrow> u256 \<Rightarrow> bool" where
  "receives (Receive x sig w) s \<longleftrightarrow> receive_source x = s"
| "receives (Open x sig w) s \<longleftrightarrow> open_source x = s"
| "receives b s \<longleftrightarrow> False"

definition received :: "(u256 \<rightharpoonup> block) \<Rightarrow> u256 \<Rightarrow> bool" where
  "received M s \<longleftrightarrow> (\<exists>h b. M h = Some b \<and> receives b s)"

definition pending_inv :: "ghost \<Rightarrow> (u256 \<rightharpoonup> block) \<Rightarrow> (pending_key \<rightharpoonup> pending_info) \<Rightarrow> bool" where
  "pending_inv g M N \<longleftrightarrow>
     (\<forall>d s p. N (d, s) = Some p \<longrightarrow> (\<exists>x sig w. M s = Some (Send x sig w) \<and> send_destination x = d) \<and>
        pending_source p = own g s \<and> pending_amount p = sent g M s \<and> \<not> received M s) \<and>
     (\<forall>s x sig w. M s = Some (Send x sig w) \<longrightarrow> N (send_destination x, s) = None \<longrightarrow> received M s) \<and>
     (\<forall>h b h' b' s. M h = Some b \<longrightarrow> M h' = Some b' \<longrightarrow> receives b s \<longrightarrow> receives b' s \<longrightarrow> h = h')"

definition infos_inv :: "ghost \<Rightarrow> (u256 \<rightharpoonup> block) \<Rightarrow> (u256 \<rightharpoonup> block_info) \<Rightarrow> bool" where
  "infos_inv g M B \<longleftrightarrow> (\<forall>h. B h = (if M h \<noteq> None \<and> hgt g h mod block_info_max = 0
     then Some \<lparr>info_account = own g h, info_balance = bal g h\<rparr> else None))"

definition weights_inv :: "ghost \<Rightarrow> (u256 \<rightharpoonup> account_info) \<Rightarrow> (u256 \<Rightarrow> u128) \<Rightarrow> bool" where
  "weights_inv g A R \<longleftrightarrow>
     (\<forall>r. R r = of_nat (msum (\<lambda>i. if rep g (head i) = r then unat (balance i) else 0) A))"

definition supply_inv :: "(u256 \<rightharpoonup> account_info) \<Rightarrow> (pending_key \<rightharpoonup> pending_info) \<Rightarrow> bool" where
  "supply_inv A N \<longleftrightarrow>
     msum (\<lambda>i. unat (balance i)) A + msum (\<lambda>p. unat (pending_amount p)) N = 2 ^ 128 - 1"

definition checksum_inv :: "(u256 \<rightharpoonup> account_info) \<Rightarrow> u256 \<Rightarrow> bool" where
  "checksum_inv A c \<longleftrightarrow> (\<forall>n. bit c n \<longleftrightarrow> odd (msum (\<lambda>i. of_bool (bit (head i) n)) A))"

definition linv :: "params \<Rightarrow> ghost \<Rightarrow> view \<Rightarrow> bool" where
  "linv P g v \<longleftrightarrow> blocks_inv P g (vblk v) (vsuc v) \<and> chain_inv g (vblk v) \<and>
     succ_inv g (vblk v) (vsuc v) (vfrt v) \<and> accounts_inv g (vblk v) (vsuc v) (vacc v) (vfrt v) \<and>
     pending_inv g (vblk v) (vpnd v) \<and> infos_inv g (vblk v) (vbin v) \<and>
     weights_inv g (vacc v) (vrep v) \<and> supply_inv (vacc v) (vpnd v) \<and> checksum_inv (vacc v) (vcks v) \<and>
     (\<exists>x sig w. vblk v (gen g) = Some (Open x sig w))"

definition ledger_inv :: "params \<Rightarrow> view \<Rightarrow> bool" where
  "ledger_inv P v \<longleftrightarrow> (\<exists>g. linv P g v)"

section \<open>Evaluation of the visitors\<close>

definition level :: "ghost \<Rightarrow> (u256 \<rightharpoonup> block) \<Rightarrow> u256 \<Rightarrow> nat" where
  "level g M h = card {x \<in> dom M. rnk g x \<le> rnk g h}"

lemma level_less:
  assumes "finite (dom M)" "M h \<noteq> None" "rnk g p < rnk g h"
  shows "level g M p < level g M h"
proof -
  have "h \<in> {x \<in> dom M. rnk g x \<le> rnk g h} - {x \<in> dom M. rnk g x \<le> rnk g p}" using assms by auto
  moreover have "{x \<in> dom M. rnk g x \<le> rnk g p} \<subseteq> {x \<in> dom M. rnk g x \<le> rnk g h}" using assms by auto
  ultimately show ?thesis unfolding level_def using assms(1) by (intro psubset_card_mono) auto
qed

lemma level_le: "finite (dom M) \<Longrightarrow> level g M h \<le> card (dom M)"
  unfolding level_def by (rule card_mono) auto

lemma blocks_invD:
  assumes "blocks_inv P g M S" "M h = Some b"
  shows "hash P b = h" "h \<noteq> 0" "h \<noteq> 1" "h \<noteq> genesis_account P" "own g h \<noteq> 0" "rep_inv g M h"
    "block_case P g M S h b"
  using assms by (auto simp: blocks_inv_def reserved_def)

lemma infos_okD: "infos_ok g B \<Longrightarrow> B h = Some i \<Longrightarrow> info_balance i = bal g h"
  by (simp add: infos_ok_def)

lemma balance_amount_eval:
  assumes r: "represents s v" and inv: "blocks_inv P g (vblk v) (vsuc v)" and ok: "infos_ok g (vbin v)"
  shows "(\<forall>h n res. vblk v h \<noteq> None \<longrightarrow> level g (vblk v) h \<le> k \<longrightarrow> 2 * k + 2 \<le> n \<longrightarrow>
            balance_compute P s n (h, res) = Ret (res + bal g h)) \<and>
         (\<forall>h x sig w n. vblk v h = Some (Send x sig w) \<longrightarrow> level g (vblk v) h \<le> k \<longrightarrow> 2 * k + 2 \<le> n \<longrightarrow>
            amount_compute P s n h = Ret (bal g (send_previous x) - send_balance x))"
proof (induction k)
  case 0
  have "0 < level g (vblk v) h" if "vblk v h \<noteq> None" for h
    unfolding level_def using that block_counts_view(1) [OF r] by (auto simp: card_gt_0_iff)
  then show ?case by (metis le_zero_eq less_nat_zero_code option.distinct(1))
next
  case (Suc k)
  note fin = block_counts_view(1) [OF r]
  have zero: "balance_compute P s n (0, res) = Ret res" if "0 < n" for n res
    using that by (cases n) auto
  have prev: "balance_compute P s n (p, res) = Ret (res + bal g p)"
    if "linked g (vblk v) (vsuc v) p h" "level g (vblk v) h \<le> Suc k" "vblk v h \<noteq> None" "2 * k + 2 \<le> n" for p h n res
    using Suc.IH that level_less [OF fin, of h g p] by (auto simp: linked_def)
  have src: "amount_compute P s n c = Ret (sent g (vblk v) c)"
    if "receipt g (vblk v) c h" "level g (vblk v) h \<le> Suc k" "vblk v h \<noteq> None" "2 * k + 2 \<le> n" for c h n
    using Suc.IH that level_less [OF fin, of h g c] by (auto simp: receipt_def sent_def)
  show ?case
  proof (intro conjI allI impI)
    fix h n res assume h: "vblk v h \<noteq> None" "level g (vblk v) h \<le> Suc k" "2 * Suc k + 2 \<le> n"
    then obtain b where b: "vblk v h = Some b" by auto
    from h(3) obtain m where n: "n = Suc (Suc m)" "2 * k + 2 \<le> m" by (cases n; cases "n - 1") auto
    note D = blocks_invD [OF inv b]
    note prev' = prev [OF _ h(2,1)] and src' = src [OF _ h(2,1) n(2)]
    have gen: "amount_compute P s m (genesis_account P) = Ret (- 1)" 
    proof -
      have "vblk v (genesis_account P) = None"
        using blocks_invD(4) [OF inv] by (cases "vblk v (genesis_account P)") auto
      with n(2) show ?thesis by (cases m) (simp_all add: get_views [OF r])
    qed
    have "balance_compute P s n (h, res) =
        obind (balance_visit P s (Suc m) b (h, res)) (balance_compute P s (Suc m))"
      using b D(2) by (simp add: n(1) get_views [OF r])
    also have "\<dots> = Ret (res + bal g h)"
      using D n(2) by (cases b) (auto simp: get_views [OF r] src' prev' zero gen infos_okD [OF ok]
          simp del: balance_compute.simps split: option.split if_splits)
    finally show "balance_compute P s n (h, res) = Ret (res + bal g h)" .
  next
    fix h x sig w n assume h: "vblk v h = Some (Send x sig w)" "level g (vblk v) h \<le> Suc k" "2 * Suc k + 2 \<le> n"
    from h(3) obtain m where n: "n = Suc (Suc m)" "2 * k + 2 \<le> m" by (cases n; cases "n - 1") auto
    from blocks_invD(7) [OF inv h(1)] prev [OF _ h(2) _ n(2)] h(1)
    show "amount_compute P s n h = Ret (bal g (send_previous x) - send_balance x)"
      unfolding n(1) by (auto simp: get_views [OF r])
  qed
qed


lemma fuel_view: "represents s v \<Longrightarrow> fuel s = 8 * card (dom (vblk v)) + 16"
  by (simp add: fuel_def block_counts_view)

lemma fuel_enough: "represents s v \<Longrightarrow> 2 * card (dom (vblk v)) + 2 \<le> fuel s"
  by (simp add: fuel_view)

lemma ledger_balance_eval:
  assumes "represents s v" "blocks_inv P g (vblk v) (vsuc v)" "infos_ok g (vbin v)" "vblk v h \<noteq> None"
  shows "ledger_balance P s h = Ret (bal g h)"
  using balance_amount_eval [OF assms(1-3), THEN conjunct1, rule_format, of h _ _ 0, OF assms(4) level_le fuel_enough]
    block_counts_view(1) [OF assms(1)] assms(1) unfolding ledger_balance_def add_0_left by blast

lemma ledger_amount_eval:
  assumes "represents s v" "blocks_inv P g (vblk v) (vsuc v)" "infos_ok g (vbin v)"
    and "vblk v h = Some (Send x sig w)"
  shows "ledger_amount P s h = Ret (bal g (send_previous x) - send_balance x)"
  using balance_amount_eval [OF assms(1-3), THEN conjunct2, rule_format, OF assms(4) level_le fuel_enough]
    block_counts_view(1) [OF assms(1)] assms(1) unfolding ledger_amount_def by blast

lemma representative_eval:
  assumes r: "represents s v" and inv: "blocks_inv P g (vblk v) (vsuc v)"
  shows "vblk v h \<noteq> None \<Longrightarrow> hgt g h < n \<Longrightarrow> representative_compute P s (Suc n) (h, 0) = Ret (repb g h)"
proof (induction n arbitrary: h)
  case (Suc n)
  then obtain b where b: "vblk v h = Some b" by auto
  note D = blocks_invD [OF inv this]
  have step: "representative_compute P s (Suc (Suc n)) (h, 0) =
      representative_compute P s (Suc n) (representative_visit P b (h, 0))"
    using b by (simp add: get_views [OF r])
  have res: "representative_compute P s (Suc n) (c, h) = Ret h" for c using D(2) by simp
  show ?case
    using D Suc by (cases b) (auto simp: step res linked_def same_rep_def own_rep_def
        simp del: representative_compute.simps)
qed simp

text \<open>Heights are bounded by the number of blocks because the predecessors of a block are all stored.\<close>

lemma hgt_le_level:
  assumes inv: "blocks_inv P g M S" and fin: "finite (dom M)"
  shows "M h \<noteq> None \<Longrightarrow> hgt g h \<le> level g M h"
proof (induction "hgt g h" arbitrary: h)
  case (Suc n)
  then obtain b where b: "M h = Some b" by auto
  note D = blocks_invD [OF inv this]
  show ?case
  proof (cases "type_of_block b = Type_open")
    case True
    then have "hgt g h = 1" using D by (cases b) auto
    moreover have "0 < level g M h" unfolding level_def using b fin by (auto simp: card_gt_0_iff)
    ultimately show ?thesis by simp
  next
    case False
    then have l: "linked g M S (previous b) h" using D by (cases b) auto
    then have "hgt g (previous b) \<le> level g M (previous b)" using Suc by (auto simp: linked_def)
    moreover have "level g M (previous b) < level g M h"
      using l b by (intro level_less [OF fin]) (auto simp: linked_def)
    ultimately show ?thesis using l by (simp add: linked_def)
  qed
qed simp

lemma ledger_representative_eval:
  assumes r: "represents s v" and inv: "blocks_inv P g (vblk v) (vsuc v)" and h: "vblk v h \<noteq> None"
  shows "ledger_representative P s h = Ret (repb g h)"
proof -
  from h obtain b where b: "vblk v h = Some b" by auto
  have "hgt g h \<le> card (dom (vblk v))"
    using hgt_le_level [OF inv block_counts_view(1) [OF r] h] level_le [OF block_counts_view(1) [OF r], of g h]
    by simp
  then have "representative_compute P s (Suc (fuel s - 1)) (h, 0) = Ret (repb g h)"
    by (intro representative_eval [OF r inv h]) (simp add: fuel_view [OF r])
  moreover have "Suc (fuel s - 1) = fuel s" by (simp add: fuel_def)
  moreover have "block_exists s (repb g h)"
    using blocks_invD(6) [OF inv b] by (auto simp: get_views [OF r] rep_inv_def)
  ultimately show ?thesis
    by (simp add: ledger_representative_def representative_calculated_def del: representative_compute.simps)
qed

text \<open>The walk of \<^verbatim>\<open>ledger::account\<close> on a set of hashes closed under successors.\<close>

definition walk :: "ghost \<Rightarrow> view \<Rightarrow> u256 \<Rightarrow> u256 set \<Rightarrow> bool" where
  "walk g v a C \<longleftrightarrow> finite C \<and> vbin v 1 = None \<and>
     (\<forall>x\<in>C. (vsuc v x \<noteq> 0 \<longrightarrow> vsuc v x \<in> C \<and> hgt g x < hgt g (vsuc v x)) \<and>
        (vsuc v x = 0 \<longrightarrow> vfrt v x = Some a) \<and>
        (\<forall>i. vbin v x = Some i \<longrightarrow> info_account i = a))"

lemma walkD:
  assumes "walk g v a C"
  shows "finite C" "vbin v 1 = None"
    and "x \<in> C \<Longrightarrow> vsuc v x \<noteq> 0 \<Longrightarrow> vsuc v x \<in> C \<and> hgt g x < hgt g (vsuc v x)"
    and "x \<in> C \<Longrightarrow> vsuc v x = 0 \<Longrightarrow> vfrt v x = Some a"
    and "x \<in> C \<Longrightarrow> vbin v x = Some i \<Longrightarrow> info_account i = a"
  using assms unfolding walk_def by blast+

lemma account_walk:
  assumes r: "represents s v" and w: "walk g v a C"
  shows "x \<in> C \<Longrightarrow> n = 1 \<or> n = x \<Longrightarrow> n \<noteq> 0 \<Longrightarrow> card {y \<in> C. hgt g x < hgt g y} < k \<Longrightarrow>
    account_loop s (Suc k) x n = Ret a"
proof (induction k arbitrary: x n)
  case (Suc k)
  have step: "account_loop s (Suc (Suc k)) x n = (case vbin v n of Some i \<Rightarrow> Ret (info_account i)
      | None \<Rightarrow> account_loop s (Suc k) (if vsuc v x \<noteq> 0 then vsuc v x else x) (vsuc v x))"
    using Suc.prems(3) by (subst account_loop.simps)
      (simp add: get_views [OF r] del: account_loop.simps split: option.split)
  show ?case
  proof (cases "vbin v n")
    case (Some i)
    with Suc.prems walkD(2) [OF w] have "n = x" by auto
    with Some walkD(5) [OF w Suc.prems(1)] show ?thesis unfolding step by simp
  next
    case None
    show ?thesis
    proof (cases "vsuc v x = 0")
      case True
      with None walkD(4) [OF w Suc.prems(1)] show ?thesis unfolding step by (simp add: get_views [OF r])
    next
      case n0: False
      note c = walkD(3) [OF w Suc.prems(1) n0]
      have "{y \<in> C. hgt g (vsuc v x) < hgt g y} \<subset> {y \<in> C. hgt g x < hgt g y}"
        using c by fastforce
      then have "card {y \<in> C. hgt g (vsuc v x) < hgt g y} < card {y \<in> C. hgt g x < hgt g y}"
        using walkD(1) [OF w] by (intro psubset_card_mono) auto
      then have "card {y \<in> C. hgt g (vsuc v x) < hgt g y} < k" using Suc.prems(4) by linarith
      then have "account_loop s (Suc k) (vsuc v x) (vsuc v x) = Ret a"
        using c n0 by (intro Suc.IH) simp_all
      with None n0 show ?thesis unfolding step by (simp del: account_loop.simps)
    qed
  qed
qed simp

lemma ledger_account_eval:
  assumes r: "represents s v" and w: "walk g v a C" and c: "card C \<le> Suc (card (dom (vblk v)))"
    and x: "x \<in> C" "vblk v x \<noteq> None" "a \<noteq> 0"
  shows "ledger_account s x = Ret a"
proof -
  have "card {y \<in> C. hgt g x < hgt g y} \<le> card C" using walkD(1) [OF w] by (intro card_mono) auto
  then have "account_loop s (Suc (fuel s - 1)) x 1 = Ret a"
    using c by (intro account_walk [OF r w x(1)]) (simp_all add: fuel_view [OF r])
  moreover have "Suc (fuel s - 1) = fuel s" by (simp add: fuel_def)
  ultimately show ?thesis using x by (simp add: ledger_account_def get_views [OF r] del: account_loop.simps)
qed

section \<open>Queries under the invariant\<close>

lemma linvD:
  assumes "linv P g v"
  shows "blocks_inv P g (vblk v) (vsuc v)" "chain_inv g (vblk v)" "succ_inv g (vblk v) (vsuc v) (vfrt v)"
    "accounts_inv g (vblk v) (vsuc v) (vacc v) (vfrt v)" "pending_inv g (vblk v) (vpnd v)"
    "infos_inv g (vblk v) (vbin v)" "weights_inv g (vacc v) (vrep v)" "supply_inv (vacc v) (vpnd v)"
    "checksum_inv (vacc v) (vcks v)" "\<exists>x sig w. vblk v (gen g) = Some (Open x sig w)"
  using assms by (auto simp: linv_def)

lemma infos_inv_ok: "infos_inv g M B \<Longrightarrow> infos_ok g B"
  by (auto simp: infos_inv_def infos_ok_def split: if_splits)

lemma accounts_invD:
  assumes "accounts_inv g M S A F" "A a = Some i"
  shows "M (head i) \<noteq> None" "own g (head i) = a" "S (head i) = 0" "rep_block i = repb g (head i)"
    "balance i = bal g (head i)" "block_count i = of_nat (hgt g (head i))"
    "\<exists>x sig w. M (open_block i) = Some (Open x sig w) \<and> open_account x = a"
    "F (head i) = Some a"
  using assms by (auto simp: accounts_inv_def account_inv_def)

lemma succ_invD:
  assumes "succ_inv g M S F" "M h \<noteq> None"
  shows "S h = 0 \<Longrightarrow> F h = Some (own g h)" "S h \<noteq> 0 \<Longrightarrow> \<exists>c. M (S h) = Some c \<and> previous c = h"
  using assms by (auto simp: succ_inv_def split: if_splits)

lemma blocks_inv_prev:
  assumes "blocks_inv P g M S" "M h = Some b" "type_of_block b \<noteq> Type_open"
  shows "linked g M S (previous b) h"
  using blocks_invD(7) [OF assms(1,2)] assms(3) by (cases b) auto

lemma chain_walk:
  assumes r: "represents s v" and inv: "linv P g v"
  shows "walk g v a {x. vblk v x \<noteq> None \<and> own g x = a}"
  unfolding walk_def
proof (intro conjI ballI allI impI)
  show "finite {x. vblk v x \<noteq> None \<and> own g x = a}"
    using block_counts_view(1) [OF r] by (rule finite_subset [rotated]) auto
  show "vbin v 1 = None"
    using linvD(6) [OF inv] blocks_invD(3) [OF linvD(1) [OF inv], of 1]
    by (cases "vblk v 1") (auto simp: infos_inv_def)
next
  fix x assume x: "x \<in> {x. vblk v x \<noteq> None \<and> own g x = a}"
  {
    assume n: "vsuc v x \<noteq> 0"
    with x obtain c where c: "vblk v (vsuc v x) = Some c" "previous c = x"
      using succ_invD(2) [OF linvD(3) [OF inv]] by blast
    have "x \<noteq> 0" using x blocks_invD(2) [OF linvD(1) [OF inv]] by auto
    with c have "type_of_block c \<noteq> Type_open" by auto
    from blocks_inv_prev [OF linvD(1) [OF inv] c(1) this] c x
    show "vsuc v x \<in> {x. vblk v x \<noteq> None \<and> own g x = a}" "hgt g x < hgt g (vsuc v x)"
      by (auto simp: linked_def)
  }
  show "vfrt v x = Some a" if "vsuc v x = 0"
    using that x succ_invD(1) [OF linvD(3) [OF inv]] by auto
  show "info_account i = a" if "vbin v x = Some i" for i
    using that x linvD(6) [OF inv] by (auto simp: infos_inv_def split: if_splits)
qed

lemma ledger_account_own:
  assumes r: "represents s v" and inv: "linv P g v" and h: "vblk v h \<noteq> None"
  shows "ledger_account s h = Ret (own g h)"
proof (rule ledger_account_eval [OF r chain_walk [OF r inv, of "own g h"]])
  show "card {x. vblk v x \<noteq> None \<and> own g x = own g h} \<le> Suc (card (dom (vblk v)))"
    using block_counts_view(1) [OF r] by (intro le_SucI card_mono) auto
  show "own g h \<noteq> 0" using h blocks_invD(5) [OF linvD(1) [OF inv]] by auto
qed (use h in auto)

lemmas ledger_evals = ledger_balance_eval ledger_amount_eval ledger_representative_eval

end
