(* ===== verification/Ledger_Extend.thy ===== *)
theory Ledger_Extend
  imports Ledger_Inv
begin

text \<open>
  The ledger invariant when a block is added: one lemma per part of the invariant.  Blocks that are
  there already keep what is said about them because the ghost state and the links of the stored
  blocks do not change.
\<close>

section \<open>Adding a block to the ghost state\<close>

definition extend :: "ghost \<Rightarrow> u256 \<Rightarrow> u256 \<Rightarrow> u128 \<Rightarrow> nat \<Rightarrow> nat \<Rightarrow> u256 \<Rightarrow> u256 \<Rightarrow> ghost" where
  "extend g h a m k n rb ra = g\<lparr>own := (own g)(h := a), bal := (bal g)(h := m), hgt := (hgt g)(h := k),
     rnk := (rnk g)(h := n), repb := (repb g)(h := rb), rep := (rep g)(h := ra)\<rparr>"

lemma extend_simps [simp]:
  "own (extend g h a m k n rb ra) x = (if x = h then a else own g x)"
  "bal (extend g h a m k n rb ra) x = (if x = h then m else bal g x)"
  "hgt (extend g h a m k n rb ra) x = (if x = h then k else hgt g x)"
  "rnk (extend g h a m k n rb ra) x = (if x = h then n else rnk g x)"
  "repb (extend g h a m k n rb ra) x = (if x = h then rb else repb g x)"
  "rep (extend g h a m k n rb ra) x = (if x = h then ra else rep g x)"
  "gen (extend g h a m k n rb ra) = gen g"
  by (simp_all add: extend_def)

text \<open>Two ghost states that agree on the stored blocks.\<close>

definition agree :: "(u256 \<rightharpoonup> block) \<Rightarrow> ghost \<Rightarrow> ghost \<Rightarrow> bool" where
  "agree M g g' \<longleftrightarrow> gen g' = gen g \<and> (\<forall>x. M x \<noteq> None \<longrightarrow> own g' x = own g x \<and> bal g' x = bal g x \<and>
     hgt g' x = hgt g x \<and> rnk g' x = rnk g x \<and> repb g' x = repb g x \<and> rep g' x = rep g x)"

lemma agree_extend: "M h = None \<Longrightarrow> agree M g (extend g h a m k n rb ra)"
  by (auto simp: agree_def)

lemma agreeD:
  assumes "agree M g g'" "M x = Some b"
  shows "own g' x = own g x" "bal g' x = bal g x" "hgt g' x = hgt g x" "rnk g' x = rnk g x"
    "repb g' x = repb g x" "rep g' x = rep g x"
  using assms by (auto simp: agree_def)

definition keeps :: "(u256 \<rightharpoonup> block) \<Rightarrow> (u256 \<rightharpoonup> block) \<Rightarrow> bool" where
  "keeps M M' \<longleftrightarrow> (\<forall>x b. M x = Some b \<longrightarrow> M' x = Some b)"

lemma linked_mono:
  assumes "linked g M S p x" "M x = Some c" "agree M g g'" "keeps M M'" "S' p = S p"
  shows "linked g' M' S' p x"
  using assms agreeD [OF assms(3)] by (auto simp: linked_def keeps_def)

lemma sent_mono:
  assumes "blocks_inv P g M S" "M s = Some (Send y sig w)" "agree M g g'" "keeps M M'"
  shows "sent g' M' s = sent g M s"
proof -
  have "M (send_previous y) \<noteq> None" using blocks_invD(7) [OF assms(1,2)] by (simp add: linked_def)
  with assms show ?thesis using agreeD(2) [OF assms(3), of "send_previous y"]
    by (auto simp: sent_def keeps_def)
qed

lemma receipt_mono:
  assumes "receipt g M s x" "M x = Some c" "agree M g g'" "keeps M M'"
  shows "receipt g' M' s x"
  using assms agreeD [OF assms(3)] by (auto simp: receipt_def keeps_def)

lemma rep_inv_mono:
  assumes "rep_inv g M x" "M x = Some c" "agree M g g'" "keeps M M'"
  shows "rep_inv g' M' x"
  using assms agreeD [OF assms(3)] by (auto simp: rep_inv_def keeps_def)

lemma block_case_mono:
  assumes inv: "blocks_inv P g M S" and c: "M x = Some c" and ag: "agree M g g'" and k: "keeps M M'"
    and S: "\<And>y. M y \<noteq> None \<Longrightarrow> S y \<noteq> 0 \<Longrightarrow> S' y = S y"
  shows "block_case P g' M' S' x c"
proof -
  note D = blocks_invD [OF inv c]
  note xag = agreeD [OF ag c]
  have link: "linked g' M' S' p x" "bal g' p = bal g p" "repb g' p = repb g p" "rep g' p = rep g p"
    if "linked g M S p x" for p
  proof -
    from that obtain d where d: "M p = Some d" and Sp: "S p \<noteq> 0" using D(2) by (auto simp: linked_def)
    with S have "S' p = S p" by auto
    with linked_mono [OF that c ag k] show "linked g' M' S' p x" .
    show "bal g' p = bal g p" "repb g' p = repb g p" "rep g' p = rep g p" using agreeD [OF ag d] by auto
  qed
  have rcpt: "receipt g' M' s x" "sent g' M' s = sent g M s" if "receipt g M s x" for s
    using receipt_mono [OF that c ag k] sent_mono [OF inv _ ag k] that by (auto simp: receipt_def)
  have "gen g' = gen g" using ag by (simp add: agree_def)
  then show ?thesis using D(7) xag
    by (cases c) (auto simp: link rcpt same_rep_def own_rep_def)
qed

lemma blocks_inv_extend:
  assumes inv: "blocks_inv P g M S" and fresh: "M h = None" and ag: "agree M g g'"
    and S: "\<And>y. M y \<noteq> None \<Longrightarrow> S y \<noteq> 0 \<Longrightarrow> S' y = S y"
    and new: "hash P b = h" "\<not> reserved P h" "own g' h \<noteq> 0" "rep_inv g' (M(h \<mapsto> b)) h"
      "block_case P g' (M(h \<mapsto> b)) S' h b"
  shows "blocks_inv P g' (M(h \<mapsto> b)) S'"
  unfolding blocks_inv_def
proof (intro allI impI)
  fix x c assume x: "(M(h \<mapsto> b)) x = Some c"
  have k: "keeps M (M(h \<mapsto> b))" using fresh by (auto simp: keeps_def)
  show "hash P c = x \<and> \<not> reserved P x \<and> own g' x \<noteq> 0 \<and> rep_inv g' (M(h \<mapsto> b)) x \<and>
      block_case P g' (M(h \<mapsto> b)) S' x c"
  proof (cases "x = h")
    case True
    with x new show ?thesis by auto
  next
    case False
    with x have c: "M x = Some c" by simp
    note D = blocks_invD [OF inv c]
    show ?thesis
      using D rep_inv_mono [OF D(6) c ag k] block_case_mono [OF inv c ag k S] agreeD(1) [OF ag c]
      by (simp add: reserved_def)
  qed
qed

lemma chain_inv_extend:
  assumes "chain_inv g M" "M h = None" "\<And>x. M x \<noteq> None \<Longrightarrow> rnk g x < n"
    and "\<And>x. M x \<noteq> None \<Longrightarrow> own g x = a \<Longrightarrow> hgt g x < k"
  shows "chain_inv (extend g h a m k n rb ra) (M(h \<mapsto> b))"
  unfolding chain_inv_def
proof (intro allI impI)
  fix x y assume *: "(M(h \<mapsto> b)) x \<noteq> None" "(M(h \<mapsto> b)) y \<noteq> None"
    "own (extend g h a m k n rb ra) x = own (extend g h a m k n rb ra) y"
  show "(hgt (extend g h a m k n rb ra) x = hgt (extend g h a m k n rb ra) y \<longrightarrow> x = y) \<and>
     (hgt (extend g h a m k n rb ra) x < hgt (extend g h a m k n rb ra) y \<longrightarrow>
      rnk (extend g h a m k n rb ra) x < rnk (extend g h a m k n rb ra) y)"
    using * assms(3) [of x] assms(3) [of y] assms(4) [of x] assms(4) [of y] assms(1)
    unfolding chain_inv_def by (cases "x = h"; cases "y = h") (auto dest: less_asym)
qed

lemma succ_inv_append:
  assumes inv: "succ_inv g M S F" and h: "M h = None" "h \<noteq> 0" and p: "M p \<noteq> None" "S p = 0"
    and b: "previous b = p" and ag: "agree M g g'" and a: "own g' h = a"
  shows "succ_inv g' (M(h \<mapsto> b)) (S(h := 0, p := h)) (F(p := None, h \<mapsto> a))"
  unfolding succ_inv_def
proof (intro allI)
  fix x
  have "p \<noteq> h" using p h by auto
  moreover have "(M x = None \<longrightarrow> S x = 0) \<and>
     (M x \<noteq> None \<longrightarrow> (if S x = 0 then F x = Some (own g x) else \<exists>c. M (S x) = Some c \<and> previous c = x))"
    using inv by (simp add: succ_inv_def)
  ultimately show "((M(h \<mapsto> b)) x = None \<longrightarrow> (S(h := 0, p := h)) x = 0) \<and>
       ((M(h \<mapsto> b)) x \<noteq> None \<longrightarrow>
        (if (S(h := 0, p := h)) x = 0 then (F(p := None, h \<mapsto> a)) x = Some (own g' x)
         else \<exists>c. (M(h \<mapsto> b)) ((S(h := 0, p := h)) x) = Some c \<and> previous c = x))"
    using assms(2-) agreeD(1) [OF ag, of x] by (cases "x = h"; cases "x = p") (auto split: if_splits)
qed

lemma succ_inv_open:
  assumes inv: "succ_inv g M S F" and h: "M h = None" "h \<noteq> 0" and ag: "agree M g g'" and a: "own g' h = a"
  shows "succ_inv g' (M(h \<mapsto> b)) (S(h := 0)) (F(h \<mapsto> a))"
  unfolding succ_inv_def
proof (intro allI)
  fix x
  have "(M x = None \<longrightarrow> S x = 0) \<and>
     (M x \<noteq> None \<longrightarrow> (if S x = 0 then F x = Some (own g x) else \<exists>c. M (S x) = Some c \<and> previous c = x))"
    using inv by (simp add: succ_inv_def)
  then show "((M(h \<mapsto> b)) x = None \<longrightarrow> (S(h := 0)) x = 0) \<and>
       ((M(h \<mapsto> b)) x \<noteq> None \<longrightarrow>
        (if (S(h := 0)) x = 0 then (F(h \<mapsto> a)) x = Some (own g' x)
         else \<exists>c. (M(h \<mapsto> b)) ((S(h := 0)) x) = Some c \<and> previous c = x))"
    using assms(2-) agreeD(1) [OF ag, of x] by (cases "x = h") (auto split: if_splits)
qed

lemma account_inv_mono:
  assumes "account_inv g M S a i" "agree M g g'" "keeps M M'" "S' (head i) = S (head i)"
  shows "account_inv g' M' S' a i"
proof -
  from assms(1) obtain c where c: "M (head i) = Some c" by (auto simp: account_inv_def)
  show ?thesis using assms c agreeD [OF assms(2) c] by (auto simp: account_inv_def keeps_def)
qed

lemma accounts_inv_append:
  assumes inv: "accounts_inv g M S A F" and i: "A a = Some i" "head i = p"
    and h: "M h = None" and ag: "agree M g g'" and k: "keeps M M'" "M' h \<noteq> None" "\<And>x. M' x \<noteq> None \<Longrightarrow> x = h \<or> M x \<noteq> None"
    and new: "own g' h = a" "head i' = h" "rep_block i' = repb g' h" "balance i' = bal g' h"
      "block_count i' = of_nat (hgt g' h)" "hgt g' h = Suc (hgt g p)" "open_block i' = open_block i"
  shows "accounts_inv g' M' (S(h := 0, p := h)) (A(a \<mapsto> i')) (F(p := None, h \<mapsto> a))"
proof -
  note iD = accounts_invD [OF inv i(1)]
  have heads: "head j \<noteq> h" "M (head j) \<noteq> None" "head j = p \<Longrightarrow> c = a" if "A c = Some j" for c j
    using accounts_invD [OF inv that] iD(2) i(2) h by auto
  have "account_inv g' M' (S(h := 0, p := h)) c j" if "(A(a \<mapsto> i')) c = Some j" for c j
  proof (cases "c = a")
    case True
    with that have "j = i'" by simp
    moreover have "p \<noteq> h" using iD(1) i(2) h by auto
    ultimately show ?thesis using True new k iD(7) by (auto simp: account_inv_def keeps_def)
  next
    case False
    with that have j: "A c = Some j" by simp
    moreover have "head j \<noteq> h" "head j \<noteq> p" using heads [OF j] False by auto
    ultimately show ?thesis
      using inv by (intro account_inv_mono [OF _ ag k(1)]) (auto simp: accounts_inv_def)
  qed
  moreover have "\<exists>j. (A(a \<mapsto> i')) (own g' x) = Some j \<and> hgt g' x \<le> hgt g' (head j)" if x: "M' x \<noteq> None" for x
  proof (cases "x = h")
    case True
    with new show ?thesis by auto
  next
    case False
    with k(3) [OF x] obtain c where c: "M x = Some c" by auto
    with inv obtain j where j: "A (own g x) = Some j" "hgt g x \<le> hgt g (head j)" by (force simp: accounts_inv_def)
    obtain d where d: "M (head j) = Some d" using heads(2) [OF j(1)] by auto
    show ?thesis
      using j agreeD [OF ag c] agreeD(3) [OF ag d] new i by (cases "own g x = a") auto
  qed
  moreover have "(F(p := None, h \<mapsto> a)) x = Some c \<longleftrightarrow> (\<exists>j. (A(a \<mapsto> i')) c = Some j \<and> head j = x)" for x c
  proof -
    have F: "F x = Some c \<longleftrightarrow> (\<exists>j. A c = Some j \<and> head j = x)" using inv by (simp add: accounts_inv_def)
    show ?thesis
    proof (cases "c = a")
      case True
      with F new(2) i show ?thesis by auto
    next
      case False
      have "x \<noteq> h \<and> x \<noteq> p" if "A c = Some j" "head j = x" for j using heads [OF that(1)] that False by auto
      with False F show ?thesis by auto
    qed
  qed
  ultimately show ?thesis unfolding accounts_inv_def by blast
qed

lemma accounts_inv_open:
  assumes inv: "accounts_inv g M S A F" and a: "A a = None"
    and h: "M h = None" and ag: "agree M g g'" and M': "M' = M(h \<mapsto> Open x sig w)"
    and new: "own g' h = a" "head i' = h" "rep_block i' = repb g' h" "balance i' = bal g' h"
      "block_count i' = of_nat (hgt g' h)" "open_block i' = h" "open_account x = a"
  shows "accounts_inv g' M' (S(h := 0)) (A(a \<mapsto> i')) (F(h \<mapsto> a))"
proof -
  have k: "keeps M M'" using h by (auto simp: keeps_def M')
  have heads: "head j \<noteq> h" "M (head j) \<noteq> None" "c \<noteq> a" if "A c = Some j" for c j
    using accounts_invD [OF inv that] h a that by auto
  have "account_inv g' M' (S(h := 0)) c j" if "(A(a \<mapsto> i')) c = Some j" for c j
  proof (cases "c = a")
    case True
    with that have "j = i'" by simp
    then show ?thesis using True new by (auto simp: account_inv_def M')
  next
    case False
    with that have j: "A c = Some j" by simp
    then show ?thesis
      using inv heads(1) [OF j] by (intro account_inv_mono [OF _ ag k]) (auto simp: accounts_inv_def)
  qed
  moreover have "\<exists>j. (A(a \<mapsto> i')) (own g' y) = Some j \<and> hgt g' y \<le> hgt g' (head j)" if y: "M' y \<noteq> None" for y
  proof (cases "y = h")
    case True
    with new show ?thesis by auto
  next
    case False
    with y obtain c where c: "M y = Some c" by (auto simp: M')
    with inv obtain j where j: "A (own g y) = Some j" "hgt g y \<le> hgt g (head j)" by (force simp: accounts_inv_def)
    obtain d where d: "M (head j) = Some d" using heads(2) [OF j(1)] by auto
    show ?thesis
      using j agreeD [OF ag c] agreeD(3) [OF ag d] heads(3) [OF j(1)] by auto
  qed
  moreover have "(F(h \<mapsto> a)) y = Some c \<longleftrightarrow> (\<exists>j. (A(a \<mapsto> i')) c = Some j \<and> head j = y)" for y c
  proof -
    have F: "F y = Some c \<longleftrightarrow> (\<exists>j. A c = Some j \<and> head j = y)" using inv by (simp add: accounts_inv_def)
    show ?thesis
    proof (cases "c = a")
      case True
      with F new(2) a show ?thesis by auto
    next
      case False
      have "y \<noteq> h" if "A c = Some j" "head j = y" for j using heads [OF that(1)] that by auto
      with False F show ?thesis by auto
    qed
  qed
  ultimately show ?thesis unfolding accounts_inv_def by blast
qed

lemma received_upd: "M h = None \<Longrightarrow> received (M(h \<mapsto> b)) s \<longleftrightarrow> received M s \<or> receives b s"
  unfolding received_def by (rule iffI, force split: if_splits, auto) (metis option.distinct(1))

lemma pending_invD:
  assumes "pending_inv g M N"
  shows "N (d, s) = Some p \<Longrightarrow> (\<exists>x sig w. M s = Some (Send x sig w) \<and> send_destination x = d) \<and>
      pending_source p = own g s \<and> pending_amount p = sent g M s \<and> \<not> received M s"
    and "M s = Some (Send x sig w) \<Longrightarrow> N (send_destination x, s) = None \<Longrightarrow> received M s"
    and "M h = Some b \<Longrightarrow> M h' = Some b' \<Longrightarrow> receives b s \<Longrightarrow> receives b' s \<Longrightarrow> h = h'"
  using assms unfolding pending_inv_def by blast+

text \<open>A block that is no send: \<open>N'\<close> has lost the entry of its source, if it has one.\<close>

lemma pending_inv_receive:
  assumes inv: "pending_inv g M N" and bs: "blocks_inv P g M S" and h: "M h = None" and ag: "agree M g g'"
    and b: "type_of_block b \<noteq> Type_send" and src: "\<And>s. receives b s \<Longrightarrow> \<not> received M s"
    and N': "\<And>d s. N' (d, s) = (if receives b s then None else N (d, s))"
  shows "pending_inv g' (M(h \<mapsto> b)) N'"
proof -
  have k: "keeps M (M(h \<mapsto> b))" using h by (auto simp: keeps_def)
  have "(\<exists>x sig w. (M(h \<mapsto> b)) s = Some (Send x sig w) \<and> send_destination x = d) \<and>
      pending_source p = own g' s \<and> pending_amount p = sent g' (M(h \<mapsto> b)) s \<and> \<not> received (M(h \<mapsto> b)) s"
    if "N' (d, s) = Some p" for d s p
  proof -
    from that N' have n: "N (d, s) = Some p" "\<not> receives b s" by (auto split: if_splits)
    from pending_invD(1) [OF inv n(1)] obtain x sig w where
      x: "M s = Some (Send x sig w)" "send_destination x = d" by blast
    with pending_invD(1) [OF inv n(1)] n(2) h show ?thesis
      using sent_mono [OF bs x(1) ag k] agreeD(1) [OF ag x(1)] by (auto simp: received_upd)
  qed
  moreover have "received (M(h \<mapsto> b)) s"
    if "(M(h \<mapsto> b)) s = Some (Send x sig w)" "N' (send_destination x, s) = None" for s x sig w
  proof -
    from that(1) b have "M s = Some (Send x sig w)" by (auto split: if_splits)
    with that(2) h N' pending_invD(2) [OF inv] show ?thesis by (auto simp: received_upd split: if_splits)
  qed
  moreover have "x = y" if "(M(h \<mapsto> b)) x = Some c" "(M(h \<mapsto> b)) y = Some d" "receives c s" "receives d s"
    for x y c d s
    using that src [of s] pending_invD(3) [OF inv] by (auto simp: received_def split: if_splits)
  ultimately show ?thesis unfolding pending_inv_def by blast
qed

lemma pending_inv_send:
  assumes inv: "pending_inv g M N" and bs: "blocks_inv P g M S" and h: "M h = None" and ag: "agree M g g'"
    and b: "b = Send x sig w" and h0: "\<not> received M h"
    and p: "pending_source p = own g' h" "pending_amount p = bal g' (send_previous x) - send_balance x"
  shows "pending_inv g' (M(h \<mapsto> b)) (N((send_destination x, h) \<mapsto> p))"
proof -
  have k: "keeps M (M(h \<mapsto> b))" using h by (auto simp: keeps_def)
  have rc: "received (M(h \<mapsto> b)) s \<longleftrightarrow> received M s" for s using h by (simp add: received_upd b)
  have "(\<exists>y sig w. (M(h \<mapsto> b)) s = Some (Send y sig w) \<and> send_destination y = d) \<and>
      pending_source q = own g' s \<and> pending_amount q = sent g' (M(h \<mapsto> b)) s \<and> \<not> received (M(h \<mapsto> b)) s"
    if "(N((send_destination x, h) \<mapsto> p)) (d, s) = Some q" for d s q
  proof (cases "s = h")
    case True
    with that have "d = send_destination x \<and> q = p"
      using pending_invD(1) [OF inv, of d s q] h by (auto split: if_splits)
    with True p h0 show ?thesis by (simp add: rc [unfolded b] b sent_def)
  next
    case False
    with that have n: "N (d, s) = Some q" by auto
    from pending_invD(1) [OF inv n] obtain y sig' w' where
      y: "M s = Some (Send y sig' w')" "send_destination y = d" by blast
    with pending_invD(1) [OF inv n] h show ?thesis
      using sent_mono [OF bs y(1) ag k] agreeD(1) [OF ag y(1)] by (auto simp: rc)
  qed
  moreover have "received (M(h \<mapsto> b)) s"
    if "(M(h \<mapsto> b)) s = Some (Send y sig' w')" "(N((send_destination x, h) \<mapsto> p)) (send_destination y, s) = None"
    for s y sig' w'
  proof -
    from that b have "s \<noteq> h" by (auto split: if_splits)
    with that pending_invD(2) [OF inv, of s y] show ?thesis by (auto simp: rc)
  qed
  moreover have "u = y" if "(M(h \<mapsto> b)) u = Some c" "(M(h \<mapsto> b)) y = Some d" "receives c s" "receives d s"
    for u y c d s
    using that pending_invD(3) [OF inv] b by (auto split: if_splits)
  ultimately show ?thesis unfolding pending_inv_def by blast
qed

lemma infos_inv_extend:
  assumes inv: "infos_inv g M B" and h: "M h = None" and ag: "agree M g g'"
  shows "infos_inv g' (M(h \<mapsto> b)) (if hgt g' h mod block_info_max = 0
     then B(h \<mapsto> \<lparr>info_account = own g' h, info_balance = bal g' h\<rparr>) else B)"
  unfolding infos_inv_def
proof
  fix x
  have "B x = (if M x \<noteq> None \<and> hgt g x mod block_info_max = 0
     then Some \<lparr>info_account = own g x, info_balance = bal g x\<rparr> else None)"
    using inv by (simp add: infos_inv_def)
  then show "(if hgt g' h mod block_info_max = 0
     then B(h \<mapsto> \<lparr>info_account = own g' h, info_balance = bal g' h\<rparr>) else B) x =
    (if (M(h \<mapsto> b)) x \<noteq> None \<and> hgt g' x mod block_info_max = 0
     then Some \<lparr>info_account = own g' x, info_balance = bal g' x\<rparr> else None)"
    using agreeD [OF ag, of x] h by (cases "x = h"; cases "M x") auto
qed

lemma of_nat_unat_if: "(of_nat (if c then unat m else 0) :: 'a::len word) = (if c then m else 0)"
  by simp

lemma weights_inv_upd:
  assumes inv: "weights_inv g A R" and fin: "finite (dom A)" and i: "A a = Some i"
    and ag: "\<And>c j. A c = Some j \<Longrightarrow> rep g' (head j) = rep g (head j)"
    and R': "\<And>r. R' r = R r - (if rep g (head i) = r then balance i else 0) +
        (if rep g' (head i') = r then balance i' else 0)"
  shows "weights_inv g' (A(a \<mapsto> i')) R'"
  unfolding weights_inv_def
proof
  fix r
  let ?f = "\<lambda>g i. if rep g (head i) = r then unat (balance i) else 0"
  have "msum (?f g') A = msum (?f g) A" using ag by (intro msum_cong) auto
  then have "msum (?f g') (A(a \<mapsto> i')) + ?f g' i = msum (?f g) A + ?f g' i'"
    using msum_upd_old [OF fin i, of "?f g'" i'] by simp
  then have "of_nat (msum (?f g') (A(a \<mapsto> i')) + ?f g' i) = (of_nat (msum (?f g) A + ?f g' i') :: u128)"
    by simp
  then have "of_nat (msum (?f g') (A(a \<mapsto> i'))) + of_nat (?f g' i) =
      (of_nat (msum (?f g) A) + of_nat (?f g' i') :: u128)" unfolding of_nat_add .
  then show "R' r = of_nat (msum (?f g') (A(a \<mapsto> i')))"
    using inv ag [OF i] unfolding R' weights_inv_def of_nat_unat_if by (auto simp: algebra_simps split: if_splits)
qed

lemma weights_inv_new:
  assumes inv: "weights_inv g A R" and fin: "finite (dom A)" and i: "A a = None"
    and ag: "\<And>c j. A c = Some j \<Longrightarrow> rep g' (head j) = rep g (head j)"
    and R': "\<And>r. R' r = R r + (if rep g' (head i') = r then balance i' else 0)"
  shows "weights_inv g' (A(a \<mapsto> i')) R'"
  unfolding weights_inv_def
proof
  fix r
  let ?f = "\<lambda>g i. if rep g (head i) = r then unat (balance i) else 0"
  have "msum (?f g') A = msum (?f g) A" using ag by (intro msum_cong) auto
  then have "msum (?f g') (A(a \<mapsto> i')) = msum (?f g) A + ?f g' i'"
    using msum_upd_new [OF fin i, of "?f g'" i'] by simp
  then have "of_nat (msum (?f g') (A(a \<mapsto> i'))) = (of_nat (msum (?f g) A) + of_nat (?f g' i') :: u128)"
    by (simp only: of_nat_add)
  then show "R' r = of_nat (msum (?f g') (A(a \<mapsto> i')))"
    using inv unfolding R' weights_inv_def of_nat_unat_if by simp
qed

lemma parity_swap: "(x :: nat) + of_bool p = y + of_bool q \<Longrightarrow> odd x \<longleftrightarrow> ((odd y \<noteq> p) \<noteq> q)"
  by (cases p; cases q; simp; presburger)

lemma checksum_inv_upd:
  assumes inv: "checksum_inv A c" and fin: "finite (dom A)" and i: "A a = Some i"
  shows "checksum_inv (A(a \<mapsto> i')) (c XOR head i XOR head i')"
  unfolding checksum_inv_def
proof
  fix n
  have "bit c n \<longleftrightarrow> odd (msum (\<lambda>i. of_bool (bit (head i) n)) A)" using inv by (simp add: checksum_inv_def)
  then show "bit (c XOR head i XOR head i') n \<longleftrightarrow> odd (msum (\<lambda>i. of_bool (bit (head i) n)) (A(a \<mapsto> i')))"
    unfolding bit_xor_iff parity_swap [OF msum_upd_old [OF fin i, of "\<lambda>i. of_bool (bit (head i) n)" i']]
    by blast
qed

lemma checksum_inv_new:
  assumes inv: "checksum_inv A c" and fin: "finite (dom A)" and i: "A a = None"
  shows "checksum_inv (A(a \<mapsto> i')) (c XOR head i')"
  unfolding checksum_inv_def
proof
  fix n
  have "bit c n \<longleftrightarrow> odd (msum (\<lambda>i. of_bool (bit (head i) n)) A)" using inv by (simp add: checksum_inv_def)
  then show "bit (c XOR head i') n \<longleftrightarrow> odd (msum (\<lambda>i. of_bool (bit (head i) n)) (A(a \<mapsto> i')))"
    unfolding bit_xor_iff msum_upd_new [OF fin i] by simp
qed

lemma supply_bound:
  assumes "supply_inv A N" "finite (dom A)" "finite (dom N)" "A a = Some i" "N k = Some p"
  shows "unat (balance i) + unat (pending_amount p) < 2 ^ 128"
  using msum_ge [OF assms(2,4), of "\<lambda>i. unat (balance i)"] msum_ge [OF assms(3,5), of "\<lambda>p. unat (pending_amount p)"]
    assms(1) by (simp add: supply_inv_def)

lemma supply_inv_send:
  assumes inv: "supply_inv A N" and fin: "finite (dom A)" "finite (dom N)" and i: "A a = Some i" and n: "N k = None"
    and le: "balance i' \<le> balance i" and p: "pending_amount p = balance i - balance i'"
  shows "supply_inv (A(a \<mapsto> i')) (N(k \<mapsto> p))"
proof -
  have "unat (pending_amount p) = unat (balance i) - unat (balance i')"
    unfolding p using le by (simp add: unat_sub)
  moreover have "unat (balance i') \<le> unat (balance i)" using le by (simp add: word_le_nat_alt)
  ultimately show ?thesis
    using inv msum_upd_old [OF fin(1) i, of "\<lambda>i. unat (balance i)" i']
      msum_upd_new [OF fin(2) n, of "\<lambda>p. unat (pending_amount p)" p]
    by (simp add: supply_inv_def)
qed

lemma supply_inv_receive:
  assumes inv: "supply_inv A N" and fin: "finite (dom A)" "finite (dom N)" and i: "A a = Some i" and n: "N k = Some p"
    and eq: "balance i' = balance i + pending_amount p"
  shows "supply_inv (A(a \<mapsto> i')) (N(k := None))"
proof -
  have "unat (balance i') = unat (balance i) + unat (pending_amount p)"
    using supply_bound [OF inv fin i n] unfolding eq by (simp add: unat_add_lem [THEN iffD1])
  then show ?thesis
    using inv msum_upd_old [OF fin(1) i, of "\<lambda>i. unat (balance i)" i']
      msum_drop_old [OF fin(2) n, of "\<lambda>p. unat (pending_amount p)"]
    by (simp add: supply_inv_def)
qed

lemma supply_inv_open:
  assumes inv: "supply_inv A N" and fin: "finite (dom A)" "finite (dom N)" and i: "A a = None" and n: "N k = Some p"
    and eq: "balance i' = pending_amount p"
  shows "supply_inv (A(a \<mapsto> i')) (N(k := None))"
  using inv msum_upd_new [OF fin(1) i, of "\<lambda>i. unat (balance i)" i']
    msum_drop_old [OF fin(2) n, of "\<lambda>p. unat (pending_amount p)"] eq
  by (simp add: supply_inv_def)

lemma supply_inv_change:
  assumes inv: "supply_inv A N" and fin: "finite (dom A)" and i: "A a = Some i" and eq: "balance i' = balance i"
  shows "supply_inv (A(a \<mapsto> i')) N"
  using inv msum_upd_old [OF fin(1) i, of "\<lambda>i. unat (balance i)" i'] eq by (simp add: supply_inv_def)

end
