(* ===== verification/Ledger_Steps.thy ===== *)
theory Ledger_Steps
  imports Ledger_Extend
begin

text \<open>
  The writes of the ledger as transformers of views, the store operation behind each of them, and the
  state after an accepted block as a composition of transformers in the order of the source.
\<close>

section \<open>The head of an account\<close>

lemma returns_view: "returns m (\<lambda>s'. represents s' v) \<Longrightarrow> v = v' \<Longrightarrow> returns m (\<lambda>s'. represents s' v')"
  by simp

lemma checksum_update_view:
  "represents s v \<Longrightarrow> returns (checksum_update s h) (\<lambda>s'. represents s' (v\<lparr>vcks := vcks v XOR h\<rparr>))"
  using write_views(1) [of s v "vcks v XOR h"] by (simp add: checksum_update_def get_views)

lemma change_latest_view:
  assumes r: "represents s v" and i: "vacc v a = Some i" and h: "h \<noteq> 0"
  shows "returns (change_latest P now s a h rb m c) (\<lambda>s'. represents s' (v\<lparr>
    vacc := (vacc v)(a \<mapsto> i\<lparr>head := h, rep_block := rb, balance := m, modified := now, block_count := c\<rparr>),
    vbin := (if c mod of_nat block_info_max = 0 then (vbin v)(h \<mapsto> \<lparr>info_account = a, info_balance = m\<rparr>) else vbin v),
    vcks := vcks v XOR head i XOR h\<rparr>))"
proof -
  have "returns (checksum_update (if c mod of_nat block_info_max = 0
        then block_info_put (account_put s1 a j) h \<lparr>info_account = a, info_balance = m\<rparr> else account_put s1 a j) h)
      (\<lambda>s'. represents s' (v\<lparr>vacc := (vacc v)(a \<mapsto> j),
        vbin := (if c mod of_nat block_info_max = 0 then (vbin v)(h \<mapsto> \<lparr>info_account = a, info_balance = m\<rparr>) else vbin v),
        vcks := vcks v XOR head i XOR h\<rparr>))"
    if "represents s1 (v\<lparr>vcks := vcks v XOR head i\<rparr>)" for s1 j
    using checksum_update_view [OF put_views(4) [OF put_views(1) [OF that]]]
      checksum_update_view [OF put_views(1) [OF that]]
    by (auto simp: xor.assoc elim!: returns_view intro!: view.equality)
  note * = this
  show ?thesis
    unfolding change_latest_def account_get_view [OF r] i obind.simps option.case obind_assoc
    by (rule returns_bind [OF checksum_update_view [OF r]]) (use h in \<open>simp add: * Let_def\<close>)
qed

lemma change_latest_new_view:
  assumes r: "represents s v" and i: "vacc v a = None" and h: "h \<noteq> 0"
    and b: "vblk v h = Some b" "type_of_block b = Type_open" and c: "c mod of_nat block_info_max \<noteq> 0"
  shows "returns (change_latest P now s a h rb m c) (\<lambda>s'. represents s' (v\<lparr>
    vacc := (vacc v)(a \<mapsto> \<lparr>head = h, rep_block = rb, open_block = h, balance = m, modified = now, block_count = c\<rparr>),
    vcks := vcks v XOR h\<rparr>))"
  unfolding change_latest_def account_get_view [OF r] i obind.simps option.case block_get_view(1) [OF r] b
  using checksum_update_view [OF put_views(1) [OF r]] h b c by (simp add: account_info_default_def)

lemma change_latest_del_view:
  assumes r: "represents s v" and i: "vacc v a = Some i"
  shows "returns (change_latest P now s a 0 rb m c) (\<lambda>s'. represents s' (v\<lparr>
    vacc := (vacc v)(a := None), vcks := vcks v XOR head i\<rparr>))"
  unfolding change_latest_def account_get_view [OF r] i obind.simps option.case obind_assoc
  by (rule returns_bind [OF checksum_update_view [OF r]], simp, rule returns_view [OF write_views(2)])
    (use i in \<open>auto intro!: view.equality\<close>)

section \<open>Transformers of views\<close>

definition rep_of :: "view \<Rightarrow> u256 \<Rightarrow> u256" where
  "rep_of v h = (case vblk v h of None \<Rightarrow> 0 | Some b \<Rightarrow> representative b)"

definition weigh :: "u256 \<Rightarrow> u128 \<Rightarrow> view \<Rightarrow> view" where
  "weigh r m v = v\<lparr>vrep := (vrep v)(r := vrep v r + m)\<rparr>"

definition put_block :: "u256 \<Rightarrow> block \<Rightarrow> view \<Rightarrow> view" where
  "put_block h b v = v\<lparr>vblk := (vblk v)(h \<mapsto> b),
     vsuc := (if type_of_block b = Type_open then (vsuc v)(h := 0) else (vsuc v)(h := 0, previous b := h))\<rparr>"

definition remove_block :: "u256 \<Rightarrow> view \<Rightarrow> view" where
  "remove_block h v = v\<lparr>vblk := (vblk v)(h := None), vsuc := (vsuc v)(h := 0)\<rparr>"

definition clear_succ :: "u256 \<Rightarrow> view \<Rightarrow> view" where
  "clear_succ h v = v\<lparr>vsuc := (vsuc v)(h := 0)\<rparr>"

definition set_head :: "u64 \<Rightarrow> u256 \<Rightarrow> u256 \<Rightarrow> u256 \<Rightarrow> u128 \<Rightarrow> u64 \<Rightarrow> view \<Rightarrow> view" where
  "set_head now a h rb m c v = (let i = the (vacc v a) in v\<lparr>
     vacc := (vacc v)(a \<mapsto> i\<lparr>head := h, rep_block := rb, balance := m, modified := now, block_count := c\<rparr>),
     vbin := (if c mod of_nat block_info_max = 0 then (vbin v)(h \<mapsto> \<lparr>info_account = a, info_balance = m\<rparr>) else vbin v),
     vcks := vcks v XOR head i XOR h\<rparr>)"

definition new_head :: "u64 \<Rightarrow> u256 \<Rightarrow> u256 \<Rightarrow> u128 \<Rightarrow> view \<Rightarrow> view" where
  "new_head now a h m v = v\<lparr>
     vacc := (vacc v)(a \<mapsto> \<lparr>head = h, rep_block = h, open_block = h, balance = m, modified = now, block_count = 1\<rparr>),
     vcks := vcks v XOR h\<rparr>"

definition drop_head :: "u256 \<Rightarrow> view \<Rightarrow> view" where
  "drop_head a v = v\<lparr>vacc := (vacc v)(a := None), vcks := vcks v XOR head (the (vacc v a))\<rparr>"

definition add_frontier :: "u256 \<Rightarrow> u256 \<Rightarrow> view \<Rightarrow> view" where
  "add_frontier h a v = v\<lparr>vfrt := (vfrt v)(h \<mapsto> a)\<rparr>"

definition drop_frontier :: "u256 \<Rightarrow> view \<Rightarrow> view" where
  "drop_frontier h v = v\<lparr>vfrt := (vfrt v)(h := None)\<rparr>"

definition add_pending :: "pending_key \<Rightarrow> pending_info \<Rightarrow> view \<Rightarrow> view" where
  "add_pending k p v = v\<lparr>vpnd := (vpnd v)(k \<mapsto> p)\<rparr>"

definition drop_pending :: "pending_key \<Rightarrow> view \<Rightarrow> view" where
  "drop_pending k v = v\<lparr>vpnd := (vpnd v)(k := None)\<rparr>"

definition drop_info :: "u256 \<Rightarrow> view \<Rightarrow> view" where
  "drop_info h v = v\<lparr>vbin := (vbin v)(h := None)\<rparr>"

lemmas transformers = weigh_def put_block_def remove_block_def clear_succ_def set_head_def new_head_def
  drop_head_def add_frontier_def drop_frontier_def add_pending_def drop_pending_def drop_info_def Let_def

text \<open>The store operation behind each transformer.\<close>

abbreviation gives :: "block_store outcome \<Rightarrow> view \<Rightarrow> bool" where
  "gives m v \<equiv> returns m (\<lambda>s. represents s v)"

lemma representation_add_gives:
  "represents s v \<Longrightarrow> rep_of v h \<noteq> 0 \<Longrightarrow> gives (representation_add P s h m) (weigh (rep_of v h) m v)"
  using write_views(6) [of s v h] by (cases "vblk v h") (auto simp: rep_of_def weigh_def)

lemma block_put_gives:
  assumes "represents s v" "serializable b" "vblk v h = None" "hash P b = h" "h \<noteq> 0"
    and "type_of_block b \<noteq> Type_open \<Longrightarrow> vblk v (previous b) \<noteq> None"
  shows "gives (block_put P s h b 0) (put_block h b v)"
proof (cases "type_of_block b = Type_open")
  case True
  with write_views(9) [OF assms(1,2) True, of h 0 P] assms(3) show ?thesis by (simp add: put_block_def)
next
  case False
  moreover have "previous b \<noteq> h" using assms False by auto
  ultimately show ?thesis
    using write_views(8) [OF assms(1,2) False, of h P 0] assms by (simp add: put_block_def)
qed

lemma change_latest_gives:
  assumes "represents s v" "vacc v a \<noteq> None" "h \<noteq> 0"
  shows "gives (change_latest P now s a h rb m c) (set_head now a h rb m c v)"
  using assms change_latest_view [of s v a _ h P now rb m c] by (auto simp: set_head_def Let_def)

lemma change_latest_new_gives:
  assumes "represents s v" "vacc v a = None" "h \<noteq> 0" "vblk v h = Some b" "type_of_block b = Type_open"
  shows "gives (change_latest P now s a h h m 1) (new_head now a h m v)"
  unfolding new_head_def by (rule change_latest_new_view [OF assms]) (simp add: block_info_max_def)

lemma change_latest_del_gives:
  assumes "represents s v" "vacc v a \<noteq> None"
  shows "gives (change_latest P now s a 0 rb m c) (drop_head a v)"
  using assms change_latest_del_view [of s v a] by (auto simp: drop_head_def)

lemma del_gives:
  assumes "represents s v"
  shows "vfrt v h \<noteq> None \<Longrightarrow> gives (frontier_del s h) (drop_frontier h v)"
    and "vpnd v k \<noteq> None \<Longrightarrow> gives (pending_del s k) (drop_pending k v)"
    and "vbin v h \<noteq> None \<Longrightarrow> gives (block_info_del s h) (drop_info h v)"
    and "vblk v h \<noteq> None \<Longrightarrow> gives (block_del s h) (remove_block h v)"
  using write_views(3-5,7) [OF assms] by (auto simp: transformers)

lemma put_gives:
  assumes "represents s v"
  shows "represents (frontier_put s h a) (add_frontier h a v)"
    and "represents (pending_put s k p) (add_pending k p v)"
  using put_views(2,3) [OF assms] by (simp_all add: transformers)

lemma returns_pair: "gives m v \<Longrightarrow> (\<And>s. represents s v \<Longrightarrow> returns (f s) Q) \<Longrightarrow> returns (obind m f) Q"
  by (rule returns_bind)

section \<open>Processing on views\<close>

text \<open>The state after an accepted block, in the order of the writes of the source.\<close>

definition accept_send :: "params \<Rightarrow> u64 \<Rightarrow> view \<Rightarrow> u256 \<Rightarrow> send_hashables \<Rightarrow> u512 \<Rightarrow> u64 \<Rightarrow> view" where
  "accept_send P now v a x sig w =
     (let b = Send x sig w; h = hash P b; i = the (vacc v a); m = balance i - send_balance x in
      add_frontier h a (drop_frontier (send_previous x)
      (add_pending (send_destination x, h) \<lparr>pending_source = a, pending_amount = m\<rparr>
      (set_head now a h (rep_block i) (send_balance x) (block_count i + 1)
      (put_block h b (weigh (rep_of v (rep_block i)) (0 - m) v))))))"

definition accept_change :: "params \<Rightarrow> u64 \<Rightarrow> view \<Rightarrow> u256 \<Rightarrow> change_hashables \<Rightarrow> u512 \<Rightarrow> u64 \<Rightarrow> view" where
  "accept_change P now v a x sig w =
     (let b = Change x sig w; h = hash P b; i = the (vacc v a) in
      add_frontier h a (drop_frontier (change_previous x)
      (set_head now a h h (balance i) (block_count i + 1)
      (weigh (rep_of v (rep_block i)) (0 - balance i) (weigh (change_representative x) (balance i)
      (put_block h b v))))))"

definition accept_receive ::
    "params \<Rightarrow> u64 \<Rightarrow> view \<Rightarrow> u256 \<Rightarrow> u128 \<Rightarrow> receive_hashables \<Rightarrow> u512 \<Rightarrow> u64 \<Rightarrow> view" where
  "accept_receive P now v a m x sig w =
     (let b = Receive x sig w; h = hash P b; i = the (vacc v a) in
      add_frontier h a (drop_frontier (receive_previous x)
      (weigh (rep_of v (rep_block i)) m
      (set_head now a h (rep_block i) (balance i + m) (block_count i + 1)
      (put_block h b (drop_pending (a, receive_source x) v))))))"

definition accept_open :: "params \<Rightarrow> u64 \<Rightarrow> view \<Rightarrow> u128 \<Rightarrow> open_hashables \<Rightarrow> u512 \<Rightarrow> u64 \<Rightarrow> view" where
  "accept_open P now v m x sig w =
     (let b = Open x sig w; h = hash P b; a = open_account x in
      add_frontier h a (weigh (open_representative x) m (new_head now a h m
      (put_block h b (drop_pending (a, open_source x) v)))))"

end
