(* ===== verification/Ledger_Process.thy ===== *)
theory Ledger_Process
  imports Ledger_Steps
begin

text \<open>
  Processing of blocks.  \<open>decide\<close> is the verdict on a block and \<open>accept\<close> the state after it, as
  functions of the view; \<open>spec_process\<close> combines them.  On a ledger that satisfies the invariant the
  code refines this specification: it returns, with that verdict and that state, and the invariant
  holds afterwards.
\<close>

section \<open>Specification\<close>

fun decide :: "params \<Rightarrow> view \<Rightarrow> block \<Rightarrow> process_result" where
  "decide P v (Send x sig w) =
     (if vblk v (hash P (Send x sig w)) \<noteq> None then Old
      else if vblk v (send_previous x) = None then Gap_previous
      else (case vfrt v (send_previous x) of
          None \<Rightarrow> Fork
        | Some a \<Rightarrow>
            if validate_message P a (hash P (Send x sig w)) sig then Bad_signature
            else if balance (the (vacc v a)) < send_balance x then Overspend
            else Progress))"
| "decide P v (Change x sig w) =
     (if vblk v (hash P (Change x sig w)) \<noteq> None then Old
      else if vblk v (change_previous x) = None then Gap_previous
      else (case vfrt v (change_previous x) of
          None \<Rightarrow> Fork
        | Some a \<Rightarrow>
            if validate_message P a (hash P (Change x sig w)) sig then Bad_signature else Progress))"
| "decide P v (Receive x sig w) =
     (if vblk v (hash P (Receive x sig w)) \<noteq> None then Old
      else if vblk v (receive_source x) = None then Gap_source
      else (case vfrt v (receive_previous x) of
          None \<Rightarrow> if vblk v (receive_previous x) \<noteq> None then Fork else Gap_previous
        | Some a \<Rightarrow>
            if validate_message P a (hash P (Receive x sig w)) sig then Bad_signature
            else if vpnd v (a, receive_source x) = None then Unreceivable
            else Progress))"
| "decide P v (Open x sig w) =
     (if vblk v (hash P (Open x sig w)) \<noteq> None then Old
      else if vblk v (open_source x) = None then Gap_source
      else if validate_message P (open_account x) (hash P (Open x sig w)) sig then Bad_signature
      else if vacc v (open_account x) \<noteq> None then Fork
      else if vpnd v (open_account x, open_source x) = None then Unreceivable
      else if open_account x = burn_account then Opened_burn_account
      else Progress)"
| "decide P v (Send_v2 x sig w) = Old"

fun accept :: "params \<Rightarrow> u64 \<Rightarrow> view \<Rightarrow> block \<Rightarrow> view \<times> process_return" where
  "accept P now v (Send x sig w) =
     (let a = the (vfrt v (send_previous x)) in
      (accept_send P now v a x sig w,
       \<lparr>code = Progress, result_account = Some a, result_amount = Some (balance (the (vacc v a)) - send_balance x),
         result_pending_account = Some (send_destination x)\<rparr>))"
| "accept P now v (Change x sig w) =
     (let a = the (vfrt v (change_previous x)) in
      (accept_change P now v a x sig w,
       \<lparr>code = Progress, result_account = Some a, result_amount = Some 0, result_pending_account = None\<rparr>))"
| "accept P now v (Receive x sig w) =
     (let a = the (vfrt v (receive_previous x)); m = pending_amount (the (vpnd v (a, receive_source x))) in
      (accept_receive P now v a m x sig w,
       \<lparr>code = Progress, result_account = Some a, result_amount = Some m, result_pending_account = None\<rparr>))"
| "accept P now v (Open x sig w) =
     (let a = open_account x; m = pending_amount (the (vpnd v (a, open_source x))) in
      (accept_open P now v m x sig w,
       \<lparr>code = Progress, result_account = Some a, result_amount = Some m, result_pending_account = None\<rparr>))"
| "accept P now v (Send_v2 x sig w) = (v, just Old)"

definition spec_process :: "params \<Rightarrow> u64 \<Rightarrow> view \<Rightarrow> block \<Rightarrow> view \<times> process_return" where
  "spec_process P now v b = (if decide P v b = Progress then accept P now v b else (v, just (decide P v b)))"

section \<open>The code refines the specification\<close>

definition usable :: "params \<Rightarrow> block \<Rightarrow> bool" where
  "usable P b \<longleftrightarrow> type_of_block b \<noteq> Type_send_v2 \<and> \<not> reserved P (hash P b) \<and>
     (type_of_block b = Type_open \<or> type_of_block b = Type_change \<longrightarrow> representative b \<noteq> 0)"

lemma usableD: "usable P b \<Longrightarrow> hash P b \<noteq> 0 \<and> hash P b \<noteq> 1 \<and> hash P b \<noteq> genesis_account P \<and> serializable b"
  by (cases b) (auto simp: usable_def reserved_def serializable_def)

lemma frontier_head:
  assumes inv: "linv P g v" and f: "vfrt v p = Some a"
  obtains i where "vacc v a = Some i" "head i = p"
  using linvD(4) [OF inv] f by (auto simp: accounts_inv_def)

lemma head_rep:
  assumes inv: "linv P g v" and i: "vacc v a = Some i"
  shows "rep_of v (rep_block i) = rep g (head i)" "rep g (head i) \<noteq> 0" "vblk v (rep_block i) \<noteq> None"
proof -
  note D = accounts_invD [OF linvD(4) [OF inv] i]
  from D(1) obtain d where "vblk v (head i) = Some d" by auto
  from blocks_invD(6) [OF linvD(1) [OF inv] this] D(4)
  show "rep_of v (rep_block i) = rep g (head i)" "rep g (head i) \<noteq> 0" "vblk v (rep_block i) \<noteq> None"
    by (auto simp: rep_inv_def rep_of_def)
qed

lemma account_nonzero:
  assumes inv: "linv P g v" and i: "vacc v a = Some i"
  shows "a \<noteq> 0"
proof -
  note D = accounts_invD [OF linvD(4) [OF inv] i]
  from D(1) obtain d where "vblk v (head i) = Some d" by auto
  from blocks_invD(5) [OF linvD(1) [OF inv] this] D(2) show ?thesis by simp
qed

definition refined :: "(block_store \<times> process_return) outcome \<Rightarrow> view \<times> process_return \<Rightarrow> bool" where
  "refined m vr \<longleftrightarrow> returns m (\<lambda>(s, ret). represents s (fst vr) \<and> ret = snd vr)"

lemma refined_Ret: "represents s v \<Longrightarrow> refined (Ret (s, ret)) (v, ret)"
  by (simp add: refined_def)

lemma refined_bind: "gives m v \<Longrightarrow> (\<And>s. represents s v \<Longrightarrow> refined (f s) vr) \<Longrightarrow> refined (obind m f) vr"
  unfolding refined_def by (rule returns_bind)

lemma send_accepted:
  assumes r: "represents s v" and inv: "linv P g v" and u: "usable P (Send x sig w)"
    and i: "vacc v a = Some i" and p: "head i = send_previous x"
    and h: "vblk v (hash P (Send x sig w)) = None" and m: "m = balance i - send_balance x"
  shows "refined
     (obind (representation_add P s (rep_block i) (0 - m)) (\<lambda>s.
      obind (block_put P s (hash P (Send x sig w)) (Send x sig w) 0) (\<lambda>s.
      obind (change_latest P now s a (hash P (Send x sig w)) (rep_block i) (send_balance x) (block_count i + 1)) (\<lambda>s.
      let s = pending_put s (send_destination x, hash P (Send x sig w)) \<lparr>pending_source = a, pending_amount = m\<rparr> in
      obind (frontier_del s (send_previous x)) (\<lambda>s. Ret (frontier_put s (hash P (Send x sig w)) a, ret))))))
     (accept_send P now v a x sig w, ret)"
proof -
  note D = accounts_invD [OF linvD(4) [OF inv] i]
  note facts = D(1,8) [unfolded p] usableD [OF u] head_rep [OF inv i] h i
  show ?thesis
    unfolding accept_send_def Let_def i option.sel m
    by (rule refined_bind, rule representation_add_gives [OF r], (simp add: facts; fail),
        rule refined_bind, rule block_put_gives, assumption, (simp add: transformers facts; fail)+,
        rule refined_bind, rule change_latest_gives, assumption, (simp add: transformers facts; fail)+,
        rule refined_bind, rule del_gives(1), erule put_gives, (simp add: transformers facts; fail),
        erule refined_Ret [OF put_gives(1)])
qed

section \<open>The invariant after an accepted block\<close>

definition fresh_rank :: "ghost \<Rightarrow> (u256 \<rightharpoonup> block) \<Rightarrow> nat" where
  "fresh_rank g M = Suc (Max (insert 0 (rnk g ` dom M)))"

lemma fresh_rank: "finite (dom M) \<Longrightarrow> M x \<noteq> None \<Longrightarrow> rnk g x < fresh_rank g M"
  unfolding fresh_rank_def by (intro le_imp_less_Suc Max_ge) auto

lemma fresh_rank_pos [simp]: "0 < fresh_rank g M"
  by (simp add: fresh_rank_def)

definition appended :: "ghost \<Rightarrow> view \<Rightarrow> u256 \<Rightarrow> u256 \<Rightarrow> account_info \<Rightarrow> u128 \<Rightarrow> u256 \<Rightarrow> u256 \<Rightarrow> ghost" where
  "appended g v h a i m rb ra = extend g h a m (Suc (hgt g (head i))) (fresh_rank g (vblk v)) rb ra"

lemma appended_agree: "vblk v h = None \<Longrightarrow> agree (vblk v) g (appended g v h a i m rb ra)"
  by (simp add: appended_def agree_extend)

lemma mod_max_iff: "((of_nat n :: u64) mod of_nat block_info_max = 0) \<longleftrightarrow> n mod block_info_max = 0"
proof -
  have "unat ((of_nat n :: u64) mod 32) = n mod 2 ^ 64 mod 32"
    by (simp add: unat_mod_distrib unat_of_nat take_bit_eq_mod)
  also have "\<dots> = n mod 32" by (rule mod_mod_cancel) simp
  finally have "unat ((of_nat n :: u64) mod 32) = n mod 32" .
  then show ?thesis using unat_eq_0 [of "(of_nat n :: u64) mod 32"] by (simp add: block_info_max_def)
qed

lemma linked_new:
  assumes inv: "linv P g v" and fin: "finite (dom (vblk v))" and i: "vacc v a = Some i" and h: "vblk v h = None"
    and g': "g' = appended g v h a i m rb ra"
  shows "linked g' ((vblk v)(h \<mapsto> b)) ((vsuc v)(h := 0, head i := h)) (head i) h"
    "bal g' (head i) = balance i" "rep g' (head i) = rep g (head i)" "repb g' (head i) = rep_block i"
    "hgt g' h = Suc (hgt g (head i))" "own g' h = a"
proof -
  note D = accounts_invD [OF linvD(4) [OF inv] i]
  from D h have "head i \<noteq> h" by auto
  then show "linked g' ((vblk v)(h \<mapsto> b)) ((vsuc v)(h := 0, head i := h)) (head i) h"
    "bal g' (head i) = balance i" "rep g' (head i) = rep g (head i)" "repb g' (head i) = rep_block i"
    "hgt g' h = Suc (hgt g (head i))" "own g' h = a"
    using D fresh_rank [OF fin D(1), of g] by (auto simp: linked_def g' appended_def)
qed

lemma append_blocks_inv:
  assumes inv: "linv P g v" and fin: "finite (dom (vblk v))" and i: "vacc v a = Some i" and h: "vblk v h = None"
    and u: "usable P b" "hash P b = h" and g': "g' = appended g v h a i m rb ra"
    and new: "rep_inv g' ((vblk v)(h \<mapsto> b)) h"
      "block_case P g' ((vblk v)(h \<mapsto> b)) ((vsuc v)(h := 0, head i := h)) h b"
  shows "blocks_inv P g' ((vblk v)(h \<mapsto> b)) ((vsuc v)(h := 0, head i := h))"
proof (rule blocks_inv_extend [OF linvD(1) [OF inv] h])
  note D = accounts_invD [OF linvD(4) [OF inv] i]
  show "agree (vblk v) g g'" using h by (simp add: g' appended_agree)
  show "((vsuc v)(h := 0, head i := h)) y = vsuc v y" if "vblk v y \<noteq> None" "vsuc v y \<noteq> 0" for y
    using that h D(3) by auto
  show "own g' h \<noteq> 0" using account_nonzero [OF inv i] by (simp add: g' appended_def)
qed (use u new in \<open>auto simp: usable_def\<close>)

lemma same_rep_new:
  assumes inv: "linv P g v" and fin: "finite (dom (vblk v))" and i: "vacc v a = Some i" and h: "vblk v h = None"
    and g': "g' = appended g v h a i m (rep_block i) (rep g (head i))"
  shows "same_rep g' (head i) h" "rep_inv g' ((vblk v)(h \<mapsto> b)) h"
proof -
  note D = accounts_invD [OF linvD(4) [OF inv] i]
  note L = linked_new [OF inv fin i h g']
  show "same_rep g' (head i) h" using L(3,4) by (simp add: same_rep_def g' appended_def)
  from D(1) obtain c where c: "vblk v (head i) = Some c" by auto
  from blocks_invD(6) [OF linvD(1) [OF inv] c] obtain d where
    d: "vblk v (rep_block i) = Some d" "representative d = rep g (head i)" "rep g (head i) \<noteq> 0"
      "own g (rep_block i) = a" "hgt g (rep_block i) \<le> hgt g (head i)"
    using D(2,4) by (auto simp: rep_inv_def)
  with h have "rep_block i \<noteq> h" by auto
  with d show "rep_inv g' ((vblk v)(h \<mapsto> b)) h" by (simp add: rep_inv_def g' appended_def)
qed

lemma append_linv:
  assumes r: "represents s v" and inv: "linv P g v" and i: "vacc v a = Some i" and h: "vblk v h = None"
    and u: "usable P b" "hash P b = h" "previous b = head i" and g': "g' = appended g v h a i m rb ra"
    and new: "rep_inv g' ((vblk v)(h \<mapsto> b)) h"
      "block_case P g' ((vblk v)(h \<mapsto> b)) ((vsuc v)(h := 0, head i := h)) h b"
    and i': "i' = i\<lparr>head := h, rep_block := rb, balance := m, modified := now, block_count := block_count i + 1\<rparr>"
    and v': "vblk v' = (vblk v)(h \<mapsto> b)" "vsuc v' = (vsuc v)(h := 0, head i := h)" "vacc v' = (vacc v)(a \<mapsto> i')"
      "vfrt v' = (vfrt v)(head i := None, h \<mapsto> a)"
      "vbin v' = (if (block_count i + 1) mod of_nat block_info_max = 0
         then (vbin v)(h \<mapsto> \<lparr>info_account = a, info_balance = m\<rparr>) else vbin v)"
      "vcks v' = vcks v XOR head i XOR h"
      "\<And>r. vrep v' r = vrep v r - (if rep g (head i) = r then balance i else 0) + (if ra = r then m else 0)"
    and pnd: "pending_inv g' ((vblk v)(h \<mapsto> b)) (vpnd v')" and sup: "supply_inv ((vacc v)(a \<mapsto> i')) (vpnd v')"
  shows "linv P g' v'"
proof -
  note fin = block_counts_view(1) [OF r] and finA = finite_view(1) [OF r]
  note D = accounts_invD [OF linvD(4) [OF inv] i]
  note L = linked_new [OF inv fin i h g']
  have ag: "agree (vblk v) g g'" using h by (simp add: g' appended_agree)
  have heads: "vblk v (head j) \<noteq> None" if "vacc v c = Some j" for c j
    using accounts_invD(1) [OF linvD(4) [OF inv] that] .
  have "chain_inv g' (vblk v')"
    unfolding v' g' appended_def
  proof (rule chain_inv_extend [OF linvD(2) [OF inv] h fresh_rank [OF fin]])
    fix x assume "vblk v x \<noteq> None" "own g x = a"
    with linvD(4) [OF inv] i show "hgt g x < Suc (hgt g (head i))"
      by (force simp: accounts_inv_def)
  qed
  moreover have "succ_inv g' (vblk v') (vsuc v') (vfrt v')"
    unfolding v' using linvD(3) [OF inv] h D u L(6) usableD [OF u(1)] ag by (intro succ_inv_append) auto
  moreover have "accounts_inv g' (vblk v') (vsuc v') (vacc v') (vfrt v')"
    unfolding v' using h D(6)
    by (intro accounts_inv_append [OF linvD(4) [OF inv] i refl h ag])
      (auto simp: keeps_def i' g' appended_def split: if_splits)
  moreover have "infos_inv g' (vblk v') (vbin v')"
  proof -
    have "vbin v' = (if hgt g' h mod block_info_max = 0
        then (vbin v)(h \<mapsto> \<lparr>info_account = own g' h, info_balance = bal g' h\<rparr>) else vbin v)"
      using mod_max_iff [of "hgt g' h"] D(6) by (simp add: v' g' appended_def add.commute)
    then show ?thesis using infos_inv_extend [OF linvD(6) [OF inv] h ag, of b] by (simp only: v'(1))
  qed
  moreover have "weights_inv g' (vacc v') (vrep v')"
    unfolding v'(3)
  proof (rule weights_inv_upd [OF linvD(7) [OF inv] finA i])
    show "rep g' (head j) = rep g (head j)" if "vacc v c = Some j" for c j
      using heads [OF that] agreeD(6) [OF ag] by auto
    show "vrep v' r = vrep v r - (if rep g (head i) = r then balance i else 0) +
        (if rep g' (head i') = r then balance i' else 0)" for r
      by (simp add: v'(7) i' g' appended_def)
  qed
  moreover have "checksum_inv (vacc v') (vcks v')"
    using checksum_inv_upd [OF linvD(9) [OF inv] finA i, of i'] by (simp add: v' i')
  moreover have "blocks_inv P g' (vblk v') (vsuc v')"
    unfolding v' by (rule append_blocks_inv [OF inv fin i h u(1,2) g' new])
  moreover have "\<exists>x sig w. vblk v' (gen g') = Some (Open x sig w)"
    using linvD(10) [OF inv] h by (auto simp: v' g' appended_def)
  ultimately show ?thesis using pnd sup by (simp add: linv_def v')
qed

lemma received_send:
  assumes inv: "linv P g v" and r: "received (vblk v) s" and s: "s \<noteq> genesis_account P"
  shows "\<exists>x sig w. vblk v s = Some (Send x sig w)"
proof -
  from r obtain y c where y: "vblk v y = Some c" "receives c s" by (auto simp: received_def)
  from blocks_invD(7) [OF linvD(1) [OF inv] y(1)] y(2) s show ?thesis
    by (cases c) (auto simp: receipt_def split: if_splits)
qed

lemma send_linv:
  assumes r: "represents s v" and inv: "linv P g v" and u: "usable P (Send x sig w)"
    and i: "vacc v a = Some i" and p: "head i = send_previous x"
    and h: "vblk v (hash P (Send x sig w)) = None" and le: "send_balance x \<le> balance i"
  shows "\<exists>g. linv P g (accept_send P now v a x sig w)"
proof
  let ?b = "Send x sig w"
  let ?h = "hash P ?b"
  let ?i = "i\<lparr>head := ?h, rep_block := rep_block i, balance := send_balance x, modified := now,
    block_count := block_count i + 1\<rparr>"
  let ?g = "appended g v ?h a i (send_balance x) (rep_block i) (rep g (head i))"
  note fin = block_counts_view(1) [OF r] and finv = finite_view [OF r]
  note L = linked_new [OF inv fin i h refl] and R = same_rep_new [OF inv fin i h refl]
  have unrec: "\<not> received (vblk v) ?h" using received_send [OF inv, of ?h] h usableD [OF u] by auto
  show "linv P ?g (accept_send P now v a x sig w)"
  proof (rule append_linv [OF r inv i h u refl _ refl R(2) _ refl])
    show "block_case P ?g ((vblk v)(?h \<mapsto> ?b)) ((vsuc v)(?h := 0, head i := ?h)) ?h ?b"
      using L(1,2) R(1) p le by (simp add: appended_def)
    show "pending_inv ?g ((vblk v)(?h \<mapsto> ?b)) (vpnd (accept_send P now v a x sig w))"
      using pending_inv_send [OF linvD(5) [OF inv] linvD(1) [OF inv] h appended_agree [OF h] refl unrec] L(2,6) p i
      by (simp add: accept_send_def transformers)
    have none: "vpnd v (send_destination x, ?h) = None"
      using pending_invD(1) [OF linvD(5) [OF inv], of "send_destination x" ?h] h by (cases "vpnd v (send_destination x, ?h)") auto
    show "supply_inv ((vacc v)(a \<mapsto> ?i)) (vpnd (accept_send P now v a x sig w))"
      using supply_inv_send [OF linvD(8) [OF inv] finv i none, of ?i] le i by (simp add: accept_send_def transformers)
  qed (use p i head_rep [OF inv i] in \<open>auto simp: accept_send_def transformers algebra_simps\<close>)
qed

lemma own_rep_new:
  assumes inv: "linv P g v" and fin: "finite (dom (vblk v))" and i: "vacc v a = Some i"
    and g': "g' = appended g v h a i m h (representative b)" and r: "representative b \<noteq> 0"
  shows "own_rep g' h (representative b)" "rep_inv g' ((vblk v)(h \<mapsto> b)) h"
  using r by (auto simp: own_rep_def rep_inv_def g' appended_def)

lemma change_blocks_inv:
  assumes inv: "linv P g v" and fin: "finite (dom (vblk v))" and u: "usable P (Change x sig w)"
    and i: "vacc v a = Some i" and p: "head i = change_previous x"
    and h: "vblk v h = None" "hash P (Change x sig w) = h"
    and g': "g' = appended g v h a i (balance i) h (change_representative x)"
  shows "block_case P g' ((vblk v)(h \<mapsto> Change x sig w)) ((vsuc v)(h := 0, head i := h)) h (Change x sig w)"
    "rep_inv g' ((vblk v)(h \<mapsto> Change x sig w)) h"
    "blocks_inv P g' ((vblk v)(h \<mapsto> Change x sig w)) ((vsuc v)(h := 0, head i := h))"
proof -
  note L = linked_new [OF inv fin i h(1) g']
  have "representative (Change x sig w) \<noteq> 0" using u by (simp add: usable_def)
  note R = own_rep_new [OF inv fin i _ this, of g' h "balance i"]
  show bc: "block_case P g' ((vblk v)(h \<mapsto> Change x sig w)) ((vsuc v)(h := 0, head i := h)) h (Change x sig w)"
    using L(1,2) R(1) p by (simp add: g' appended_def)
  show ri: "rep_inv g' ((vblk v)(h \<mapsto> Change x sig w)) h" using R(2) by (simp add: g')
  show "blocks_inv P g' ((vblk v)(h \<mapsto> Change x sig w)) ((vsuc v)(h := 0, head i := h))"
    by (rule append_blocks_inv [OF inv fin i h(1) u h(2) g' ri bc])
qed

lemma change_accepted:
  assumes r: "represents s v" and inv: "linv P g v" and u: "usable P (Change x sig w)"
    and i: "vacc v a = Some i" and p: "head i = change_previous x"
    and h: "vblk v (hash P (Change x sig w)) = None"
  shows "refined
     (obind (block_put P s (hash P (Change x sig w)) (Change x sig w) 0) (\<lambda>s.
      obind (ledger_balance P s (change_previous x)) (\<lambda>bal.
      obind (representation_add P s (hash P (Change x sig w)) bal) (\<lambda>s.
      obind (representation_add P s (rep_block i) (0 - bal)) (\<lambda>s.
      obind (change_latest P now s a (hash P (Change x sig w)) (hash P (Change x sig w)) (balance i) (block_count i + 1)) (\<lambda>s.
      obind (frontier_del s (change_previous x)) (\<lambda>s. Ret (frontier_put s (hash P (Change x sig w)) a, ret))))))))
     (accept_change P now v a x sig w, ret)"
proof -
  let ?b = "Change x sig w"
  let ?h = "hash P ?b"
  let ?g = "appended g v ?h a i (balance i) ?h (change_representative x)"
  note D = accounts_invD [OF linvD(4) [OF inv] i]
  note facts = D(1,8) [unfolded p] usableD [OF u] head_rep [OF inv i] h i
  have cr: "change_representative x \<noteq> 0" using u by (simp add: usable_def)
  have nh: "?h \<noteq> rep_block i" using facts by auto
  note fin = block_counts_view(1) [OF r]
  have "infos_ok ?g (vbin v)"
    using infos_inv_ok [OF linvD(6) [OF inv]] linvD(6) [OF inv] h
    by (auto simp: infos_ok_def appended_def infos_inv_def split: if_splits)
  then have bal: "ledger_balance P s1 (change_previous x) = Ret (balance i)" if "represents s1 (put_block ?h ?b v)" for s1
    using ledger_balance_eval [OF that, of P ?g "change_previous x"] change_blocks_inv(3) [OF inv fin u i p h refl refl]
      linked_new(2) [OF inv fin i h refl] facts p by (simp add: transformers)
  have rep: "rep_of (put_block ?h ?b v) ?h = change_representative x"
    "rep_of (weigh q k (put_block ?h ?b v)) (rep_block i) = rep_of v (rep_block i)" for q k
    using nh by (simp_all add: rep_of_def transformers)
  show ?thesis
    unfolding accept_change_def Let_def i option.sel
    by (rule refined_bind, rule block_put_gives [OF r], (simp add: facts; fail)+, simp only: bal obind.simps,
        rule refined_bind, rule representation_add_gives, assumption, (simp add: rep cr; fail), simp only: rep,
        rule refined_bind, rule representation_add_gives, assumption, (simp add: rep facts; fail), simp only: rep,
        rule refined_bind, rule change_latest_gives, assumption, (simp add: transformers facts; fail)+,
        rule refined_bind, rule del_gives(1), assumption, (simp add: transformers facts; fail),
        erule refined_Ret [OF put_gives(1)])
qed

lemma change_linv:
  assumes r: "represents s v" and inv: "linv P g v" and u: "usable P (Change x sig w)"
    and i: "vacc v a = Some i" and p: "head i = change_previous x"
    and h: "vblk v (hash P (Change x sig w)) = None"
  shows "\<exists>g. linv P g (accept_change P now v a x sig w)"
proof
  let ?b = "Change x sig w"
  let ?h = "hash P ?b"
  let ?i = "i\<lparr>head := ?h, rep_block := ?h, balance := balance i, modified := now,
    block_count := block_count i + 1\<rparr>"
  let ?g = "appended g v ?h a i (balance i) ?h (change_representative x)"
  note fin = block_counts_view(1) [OF r] and finv = finite_view [OF r]
  note C = change_blocks_inv [OF inv fin u i p h refl refl]
  show "linv P ?g (accept_change P now v a x sig w)"
  proof (rule append_linv [OF r inv i h u refl _ refl C(2,1) refl])
    show "pending_inv ?g ((vblk v)(?h \<mapsto> ?b)) (vpnd (accept_change P now v a x sig w))"
      using pending_inv_receive [OF linvD(5) [OF inv] linvD(1) [OF inv] h appended_agree [OF h], of ?b]
      by (simp add: accept_change_def transformers)
    show "supply_inv ((vacc v)(a \<mapsto> ?i)) (vpnd (accept_change P now v a x sig w))"
      using supply_inv_change [OF linvD(8) [OF inv] finv(1) i, of ?i] by (simp add: accept_change_def transformers)
  qed (use p i head_rep [OF inv i] in \<open>auto simp: accept_change_def transformers algebra_simps\<close>)
qed

lemma receive_accepted:
  assumes r: "represents s v" and inv: "linv P g v" and u: "usable P (Receive x sig w)"
    and i: "vacc v a = Some i" and p: "head i = receive_previous x"
    and h: "vblk v (hash P (Receive x sig w)) = None" and q: "vpnd v (a, receive_source x) = Some q"
  shows "refined
     (obind (pending_del s (a, receive_source x)) (\<lambda>s.
      obind (block_put P s (hash P (Receive x sig w)) (Receive x sig w) 0) (\<lambda>s.
      obind (change_latest P now s a (hash P (Receive x sig w)) (rep_block i) (balance i + pending_amount q) (block_count i + 1)) (\<lambda>s.
      obind (representation_add P s (rep_block i) (pending_amount q)) (\<lambda>s.
      obind (frontier_del s (receive_previous x)) (\<lambda>s. Ret (frontier_put s (hash P (Receive x sig w)) a, ret)))))))
     (accept_receive P now v a (pending_amount q) x sig w, ret)"
proof -
  let ?b = "Receive x sig w"
  let ?h = "hash P ?b"
  note D = accounts_invD [OF linvD(4) [OF inv] i]
  note facts = D(1,8) [unfolded p] usableD [OF u] head_rep [OF inv i] h i q
  have nh: "?h \<noteq> rep_block i" using facts by auto
  then have rep: "rep_of (set_head now a h rb m c (put_block ?h ?b (drop_pending k v))) (rep_block i) =
      rep_of v (rep_block i)" for rb m c k h
    by (simp add: rep_of_def transformers)
  show ?thesis
    unfolding accept_receive_def Let_def i option.sel
    by (rule refined_bind, rule del_gives(2) [OF r], (simp add: facts; fail),
        rule refined_bind, rule block_put_gives, assumption, (simp add: transformers facts; fail)+,
        rule refined_bind, rule change_latest_gives, assumption, (simp add: transformers facts; fail)+,
        rule refined_bind, rule representation_add_gives, assumption, (simp add: rep facts; fail), simp only: rep,
        rule refined_bind, rule del_gives(1), assumption, (simp add: transformers facts; fail),
        erule refined_Ret [OF put_gives(1)])
qed

lemma receipt_new:
  assumes inv: "linv P g v" and fin: "finite (dom (vblk v))" and h: "vblk v h = None"
    and q: "vpnd v (a, c) = Some q" and g': "g' = extend g h a m k (fresh_rank g (vblk v)) rb ra"
  shows "receipt g' ((vblk v)(h \<mapsto> b)) c h" "sent g' ((vblk v)(h \<mapsto> b)) c = pending_amount q"
    "\<not> received (vblk v) c" "c \<noteq> genesis_account P"
proof -
  note Q = pending_invD(1) [OF linvD(5) [OF inv] q]
  then obtain y sig w where y: "vblk v c = Some (Send y sig w)" "send_destination y = a" by auto
  with h have "c \<noteq> h" by auto
  with y fresh_rank [OF fin, of c g] show "receipt g' ((vblk v)(h \<mapsto> b)) c h" by (auto simp: receipt_def g')
  show "sent g' ((vblk v)(h \<mapsto> b)) c = pending_amount q"
    using sent_mono [OF linvD(1) [OF inv] y(1), of g' "(vblk v)(h \<mapsto> b)"] h Q
    by (auto simp: g' agree_extend keeps_def)
  show "\<not> received (vblk v) c" using Q by simp
  show "c \<noteq> genesis_account P" using blocks_invD(4) [OF linvD(1) [OF inv] y(1)] .
qed

lemma supply_grows:
  assumes "supply_inv A N" "finite (dom A)" "finite (dom N)" "A a = Some i" "N k = Some p"
  shows "balance i \<le> balance i + pending_amount p"
  using supply_bound [OF assms] by (simp add: word_le_nat_alt unat_add_lem [THEN iffD1])

lemma receive_linv:
  assumes r: "represents s v" and inv: "linv P g v" and u: "usable P (Receive x sig w)"
    and i: "vacc v a = Some i" and p: "head i = receive_previous x"
    and h: "vblk v (hash P (Receive x sig w)) = None" and q: "vpnd v (a, receive_source x) = Some q"
  shows "\<exists>g. linv P g (accept_receive P now v a (pending_amount q) x sig w)"
proof
  let ?b = "Receive x sig w"
  let ?h = "hash P ?b"
  let ?m = "balance i + pending_amount q"
  let ?i = "i\<lparr>head := ?h, rep_block := rep_block i, balance := ?m, modified := now,
    block_count := block_count i + 1\<rparr>"
  let ?g = "appended g v ?h a i ?m (rep_block i) (rep g (head i))"
  let ?v = "accept_receive P now v a (pending_amount q) x sig w"
  note fin = block_counts_view(1) [OF r] and finv = finite_view [OF r]
  note L = linked_new [OF inv fin i h refl] and R = same_rep_new [OF inv fin i h refl]
  note Q = receipt_new [OF inv fin h q appended_def [of g v ?h a i ?m "rep_block i" "rep g (head i)"]]
  have m: "bal ?g ?h = ?m" by (simp add: appended_def)
  show "linv P ?g ?v"
  proof (rule append_linv [OF r inv i h u refl _ refl R(2) _ refl])
    show "block_case P ?g ((vblk v)(?h \<mapsto> ?b)) ((vsuc v)(?h := 0, head i := ?h)) ?h ?b"
      using supply_grows [OF linvD(8) [OF inv] finv i q] by (simp add: L(1,2) R(1) Q(1,2) m flip: p)
    have "vpnd ?v (d, c) = (if receives ?b c then None else vpnd v (d, c))" for d c
    proof (cases "c = receive_source x")
      case True
      have "vpnd v (d, c) = None" if "d \<noteq> a"
        using pending_invD(1) [OF linvD(5) [OF inv], of d c] pending_invD(1) [OF linvD(5) [OF inv] q] that True
        by (cases "vpnd v (d, c)") auto
      with True show ?thesis by (auto simp: accept_receive_def transformers)
    qed (auto simp: accept_receive_def transformers)
    then show "pending_inv ?g ((vblk v)(?h \<mapsto> ?b)) (vpnd ?v)"
      using Q(3) by (intro pending_inv_receive [OF linvD(5) [OF inv] linvD(1) [OF inv] h appended_agree [OF h]]) auto
    show "supply_inv ((vacc v)(a \<mapsto> ?i)) (vpnd ?v)"
      using supply_inv_receive [OF linvD(8) [OF inv] finv i q, of ?i] by (simp add: accept_receive_def transformers)
  qed (use p i head_rep [OF inv i] in \<open>auto simp: accept_receive_def transformers algebra_simps\<close>)
qed

lemma open_accepted:
  assumes r: "represents s v" and u: "usable P (Open x sig w)"
    and a: "vacc v (open_account x) = None"
    and h: "vblk v (hash P (Open x sig w)) = None" and q: "vpnd v (open_account x, open_source x) = Some q"
  shows "refined
     (obind (pending_del s (open_account x, open_source x)) (\<lambda>s.
      obind (block_put P s (hash P (Open x sig w)) (Open x sig w) 0) (\<lambda>s.
      obind (change_latest P now s (open_account x) (hash P (Open x sig w)) (hash P (Open x sig w)) (pending_amount q) 1) (\<lambda>s.
      obind (representation_add P s (hash P (Open x sig w)) (pending_amount q)) (\<lambda>s.
      Ret (frontier_put s (hash P (Open x sig w)) (open_account x), ret))))))
     (accept_open P now v (pending_amount q) x sig w, ret)"
proof -
  let ?b = "Open x sig w"
  let ?h = "hash P ?b"
  have "open_representative x \<noteq> 0" using u by (simp add: usable_def)
  note facts = usableD [OF u] h a q this
  have rep: "rep_of (new_head now c y m (put_block ?h ?b (drop_pending k v))) ?h = open_representative x" for c y m k
    by (simp add: rep_of_def transformers)
  show ?thesis
    unfolding accept_open_def Let_def
    by (rule refined_bind, rule del_gives(2) [OF r], (simp add: facts; fail),
        rule refined_bind, rule block_put_gives, assumption, (simp add: transformers facts; fail)+,
        rule refined_bind, rule change_latest_new_gives [where b = ?b], assumption, (simp add: transformers facts; fail)+,
        rule refined_bind, rule representation_add_gives, assumption, (simp add: rep facts; fail), simp only: rep,
        erule refined_Ret [OF put_gives(1)])
qed

lemma open_linv:
  assumes r: "represents s v" and inv: "linv P g v" and u: "usable P (Open x sig w)"
    and a: "vacc v (open_account x) = None" "open_account x \<noteq> 0"
    and h: "vblk v (hash P (Open x sig w)) = None" and q: "vpnd v (open_account x, open_source x) = Some q"
  shows "\<exists>g. linv P g (accept_open P now v (pending_amount q) x sig w)"
proof
  let ?b = "Open x sig w" and ?a = "open_account x" and ?m = "pending_amount q"
  let ?h = "hash P ?b"
  let ?i = "\<lparr>head = ?h, rep_block = ?h, open_block = ?h, balance = ?m, modified = now, block_count = 1\<rparr>"
  let ?g = "extend g ?h ?a ?m 1 (fresh_rank g (vblk v)) ?h (open_representative x)"
  let ?v = "accept_open P now v ?m x sig w"
  let ?M = "(vblk v)(?h \<mapsto> ?b)"
  note fin = block_counts_view(1) [OF r] and finv = finite_view [OF r]
  note Q = receipt_new [OF inv fin h q refl]
  have ag: "agree (vblk v) g ?g" using h by (rule agree_extend)
  have v': "vblk ?v = ?M" "vsuc ?v = (vsuc v)(?h := 0)" "vacc ?v = (vacc v)(?a \<mapsto> ?i)" "vfrt ?v = (vfrt v)(?h \<mapsto> ?a)"
    "vbin ?v = vbin v" "vcks ?v = vcks v XOR ?h" "vpnd ?v = (vpnd v)((?a, open_source x) := None)"
    by (simp_all add: accept_open_def transformers)
  have heads: "vblk v (head j) \<noteq> None" if "vacc v c = Some j" for c j
    using accounts_invD(1) [OF linvD(4) [OF inv] that] .
  have gen: "vblk v (gen g) \<noteq> None" "gen g \<noteq> ?h" using linvD(10) [OF inv] h by auto
  have "blocks_inv P ?g (vblk ?v) (vsuc ?v)"
    unfolding v' using u a(2) gen(2) h
    by (intro blocks_inv_extend [OF linvD(1) [OF inv] h ag])
      (auto simp: usable_def rep_inv_def own_rep_def Q(1,2))
  moreover have "chain_inv ?g (vblk ?v)"
    unfolding v'
  proof (rule chain_inv_extend [OF linvD(2) [OF inv] h fresh_rank [OF fin]])
    show "hgt g y < 1" if "vblk v y \<noteq> None" "own g y = ?a" for y
      using that linvD(4) [OF inv] a(1) by (auto simp: accounts_inv_def)
  qed
  moreover have "succ_inv ?g (vblk ?v) (vsuc ?v) (vfrt ?v)"
    unfolding v' using usableD [OF u] by (intro succ_inv_open [OF linvD(3) [OF inv] h _ ag]) auto
  moreover have "accounts_inv ?g (vblk ?v) (vsuc ?v) (vacc ?v) (vfrt ?v)"
    unfolding v' by (rule accounts_inv_open [OF linvD(4) [OF inv] a(1) h ag refl]) simp_all
  moreover have "pending_inv ?g (vblk ?v) (vpnd ?v)"
    unfolding v'(1)
  proof (rule pending_inv_receive [OF linvD(5) [OF inv] linvD(1) [OF inv] h ag])
    show "\<not> received (vblk v) c" if "receives ?b c" for c using that Q(3) by simp
    show "vpnd ?v (d, c) = (if receives ?b c then None else vpnd v (d, c))" for d c
    proof (cases "c = open_source x")
      case True
      have "vpnd v (d, c) = None" if "d \<noteq> ?a"
        using pending_invD(1) [OF linvD(5) [OF inv], of d c] pending_invD(1) [OF linvD(5) [OF inv] q] that True
        by (cases "vpnd v (d, c)") auto
      with True show ?thesis by (auto simp: v')
    qed (auto simp: v')
  qed simp
  moreover have "infos_inv ?g (vblk ?v) (vbin ?v)"
    using infos_inv_extend [OF linvD(6) [OF inv] h ag, of ?b] by (simp add: v' block_info_max_def)
  moreover have "weights_inv ?g (vacc ?v) (vrep ?v)"
    unfolding v'(3)
  proof (rule weights_inv_new [OF linvD(7) [OF inv] finv(1) a(1)])
    show "rep ?g (head j) = rep g (head j)" if "vacc v c = Some j" for c j
      using heads [OF that] h by auto
  qed (simp add: accept_open_def transformers)
  moreover have "supply_inv (vacc ?v) (vpnd ?v)"
    unfolding v' by (rule supply_inv_open [OF linvD(8) [OF inv] finv a(1) q]) simp
  moreover have "checksum_inv (vacc ?v) (vcks ?v)"
    using checksum_inv_new [OF linvD(9) [OF inv] finv(1) a(1), of ?i] by (simp add: v')
  moreover have "\<exists>x sig w. vblk ?v (gen ?g) = Some (Open x sig w)"
    using linvD(10) [OF inv] gen by (auto simp: v')
  ultimately show "linv P ?g ?v" by (simp add: linv_def)
qed

section \<open>Processing a block\<close>

lemma process_send_refined:
  assumes r: "represents s v" and inv: "linv P g v" and u: "usable P (Send x sig w)"
  shows "refined (process P now s (Send x sig w)) (spec_process P now v (Send x sig w))"
proof (cases "decide P v (Send x sig w) = Progress")
  case True
  then obtain a where h: "vblk v (hash P (Send x sig w)) = None" "vblk v (send_previous x) \<noteq> None"
    "vfrt v (send_previous x) = Some a" "\<not> validate_message P a (hash P (Send x sig w)) sig"
    "send_balance x \<le> balance (the (vacc v a))"
    by (auto split: if_splits option.splits simp: not_less)
  obtain i where i: "vacc v a = Some i" "head i = send_previous x" using frontier_head [OF inv h(3)] .
  have "refined (process P now s (Send x sig w)) (accept P now v (Send x sig w))"
    using send_accepted [OF r inv u i h(1) refl] h i account_nonzero [OF inv i(1)]
    by (simp add: process_send_block_def get_views [OF r] Let_def)
  with True show ?thesis by (simp add: spec_process_def)
next
  case False
  show ?thesis
  proof (cases "vfrt v (send_previous x)")
    case None
    with False r show ?thesis
      by (auto simp: spec_process_def process_send_block_def get_views [OF r] Let_def refined_Ret)
  next
    case (Some a)
    obtain i where i: "vacc v a = Some i" "head i = send_previous x" using frontier_head [OF inv Some] .
    from False r Some i account_nonzero [OF inv i(1)] show ?thesis
      by (auto simp: spec_process_def process_send_block_def get_views [OF r] Let_def refined_Ret not_le)
  qed
qed

lemma process_change_refined:
  assumes r: "represents s v" and inv: "linv P g v" and u: "usable P (Change x sig w)"
  shows "refined (process P now s (Change x sig w)) (spec_process P now v (Change x sig w))"
proof (cases "vfrt v (change_previous x)")
  case None
  with r show ?thesis
    by (auto simp: spec_process_def process_change_block_def get_views [OF r] Let_def refined_Ret)
next
  case (Some a)
  obtain i where i: "vacc v a = Some i" "head i = change_previous x" using frontier_head [OF inv Some] .
  note facts = Some i account_nonzero [OF inv i(1)]
  show ?thesis
  proof (cases "decide P v (Change x sig w) = Progress")
    case True
    then have h: "vblk v (hash P (Change x sig w)) = None" "vblk v (change_previous x) \<noteq> None"
      "\<not> validate_message P a (hash P (Change x sig w)) sig"
      by (auto simp: Some split: if_splits)
    have "refined (process P now s (Change x sig w)) (accept P now v (Change x sig w))"
      using change_accepted [OF r inv u i h(1)] h facts
      by (simp add: process_change_block_def get_views [OF r] Let_def)
    with True show ?thesis by (simp add: spec_process_def)
  next
    case False
    with r facts show ?thesis
      by (auto simp: spec_process_def process_change_block_def get_views [OF r] Let_def refined_Ret)
  qed
qed

lemma pending_source_account:
  assumes inv: "linv P g v" and q: "vpnd v (a, c) = Some q"
  shows "vacc v (pending_source q) \<noteq> None"
proof -
  note Q = pending_invD(1) [OF linvD(5) [OF inv] q]
  then have "vblk v c \<noteq> None" by auto
  with linvD(4) [OF inv] Q show ?thesis by (force simp: accounts_inv_def)
qed

lemma process_receive_refined:
  assumes r: "represents s v" and inv: "linv P g v" and u: "usable P (Receive x sig w)"
  shows "refined (process P now s (Receive x sig w)) (spec_process P now v (Receive x sig w))"
proof (cases "vfrt v (receive_previous x)")
  case None
  with r show ?thesis
    by (auto simp: spec_process_def process_receive_block_def get_views [OF r] Let_def refined_Ret)
next
  case (Some a)
  obtain i where i: "vacc v a = Some i" "head i = receive_previous x" using frontier_head [OF inv Some] .
  note facts = Some i account_nonzero [OF inv i(1)]
  show ?thesis
  proof (cases "decide P v (Receive x sig w) = Progress")
    case True
    then obtain q where h: "vblk v (hash P (Receive x sig w)) = None" "vblk v (receive_source x) \<noteq> None"
      "\<not> validate_message P a (hash P (Receive x sig w)) sig" "vpnd v (a, receive_source x) = Some q"
      by (auto simp: Some split: if_splits)
    obtain j where "vacc v (pending_source q) = Some j" using pending_source_account [OF inv h(4)] by auto
    then have "refined (process P now s (Receive x sig w)) (accept P now v (Receive x sig w))"
      using receive_accepted [OF r inv u i h(1,4)] h facts
      by (simp add: process_receive_block_def get_views [OF r] Let_def)
    with True show ?thesis by (simp add: spec_process_def)
  next
    case False
    with r facts show ?thesis
      by (auto simp: spec_process_def process_receive_block_def get_views [OF r] Let_def refined_Ret)
  qed
qed

lemma process_open_refined:
  assumes r: "represents s v" and inv: "linv P g v" and u: "usable P (Open x sig w)"
  shows "refined (process P now s (Open x sig w)) (spec_process P now v (Open x sig w))"
proof (cases "decide P v (Open x sig w) = Progress")
  case True
  then obtain q where h: "vblk v (hash P (Open x sig w)) = None" "vblk v (open_source x) \<noteq> None"
    "\<not> validate_message P (open_account x) (hash P (Open x sig w)) sig" "vacc v (open_account x) = None"
    "vpnd v (open_account x, open_source x) = Some q" "open_account x \<noteq> burn_account"
    by (auto split: if_splits)
  obtain j where "vacc v (pending_source q) = Some j" using pending_source_account [OF inv h(5)] by auto
  then have "refined (process P now s (Open x sig w)) (accept P now v (Open x sig w))"
    using open_accepted [OF r u h(4,1,5)] h
    by (simp add: process_open_block_def get_views [OF r] Let_def account_info_default_def)
  with True show ?thesis by (simp add: spec_process_def)
next
  case False
  with r show ?thesis
    by (auto simp: spec_process_def process_open_block_def get_views [OF r] Let_def refined_Ret split: option.split)
qed

lemma process_refined:
  assumes "represents s v" "linv P g v" "usable P b"
  shows "refined (process P now s b) (spec_process P now v b)"
  using assms process_send_refined process_change_refined process_receive_refined process_open_refined
  by (cases b) (auto simp: usable_def)

lemma spec_process_linv:
  assumes r: "represents s v" and inv: "linv P g v" and u: "usable P b"
  shows "\<exists>g. linv P g (fst (spec_process P now v b))"
proof (cases "decide P v b = Progress")
  case False
  with inv show ?thesis by (auto simp: spec_process_def)
next
  case True
  show ?thesis
  proof (cases b)
    case (Send x sig w)
    with True obtain a where h: "vblk v (hash P b) = None" "vfrt v (send_previous x) = Some a"
      "send_balance x \<le> balance (the (vacc v a))" by (auto split: if_splits option.splits simp: not_less)
    obtain i where i: "vacc v a = Some i" "head i = send_previous x" using frontier_head [OF inv h(2)] .
    show ?thesis using send_linv [OF r inv _ i, of sig w now] True h i u Send by (simp add: spec_process_def)
  next
    case (Change x sig w)
    with True obtain a where h: "vblk v (hash P b) = None" "vfrt v (change_previous x) = Some a"
      by (auto split: if_splits option.splits)
    obtain i where i: "vacc v a = Some i" "head i = change_previous x" using frontier_head [OF inv h(2)] .
    show ?thesis using change_linv [OF r inv _ i, of sig w now] True h u Change by (simp add: spec_process_def)
  next
    case (Receive x sig w)
    with True obtain a q where h: "vblk v (hash P b) = None" "vfrt v (receive_previous x) = Some a"
      "vpnd v (a, receive_source x) = Some q" by (auto split: if_splits option.splits)
    obtain i where i: "vacc v a = Some i" "head i = receive_previous x" using frontier_head [OF inv h(2)] .
    show ?thesis using receive_linv [OF r inv _ i, of sig w _ now] True h u Receive
      by (simp add: spec_process_def Let_def)
  next
    case (Open x sig w)
    with True obtain q where h: "vblk v (hash P b) = None" "vacc v (open_account x) = None"
      "vpnd v (open_account x, open_source x) = Some q" "open_account x \<noteq> burn_account" by (auto split: if_splits)
    show ?thesis using open_linv [OF r inv, of x sig w _ now] True h u Open
      by (simp add: spec_process_def burn_account_def Let_def)
  next
    case (Send_v2 x sig w)
    with u show ?thesis by (simp add: usable_def)
  qed
qed

end
