(* ===== verification/Ledger_Retract.thy ===== *)
theory Ledger_Retract
  imports Ledger_Process
begin

text \<open>
  The ledger invariant when the head of an account is taken away: the counterpart of
  \<open>Ledger_Extend\<close>, for rollback.
\<close>

section \<open>Facts about the head of a chain\<close>

text \<open>\<open>at_head\<close>: the block \<open>b\<close> with hash \<open>h\<close> is the head of account \<open>a\<close>.\<close>

definition at_head :: "view \<Rightarrow> u256 \<Rightarrow> account_info \<Rightarrow> u256 \<Rightarrow> block \<Rightarrow> bool" where
  "at_head v a i h b \<longleftrightarrow> vacc v a = Some i \<and> head i = h \<and> vblk v h = Some b"

lemma at_headD:
  assumes inv: "linv P g v" and at: "at_head v a i h b"
  shows "vacc v a = Some i" "head i = h" "vblk v h = Some b" "own g h = a" "vsuc v h = 0" "rep_block i = repb g h"
    "balance i = bal g h" "block_count i = of_nat (hgt g h)" "vfrt v h = Some a" "hash P b = h" "h \<noteq> 0"
    "block_case P g (vblk v) (vsuc v) h b" "rep_inv g (vblk v) h"
proof -
  from at show i: "vacc v a = Some i" "head i = h" "vblk v h = Some b" by (auto simp: at_head_def)
  from accounts_invD [OF linvD(4) [OF inv] i(1)] i(2)
  show "own g h = a" "vsuc v h = 0" "rep_block i = repb g h" "balance i = bal g h"
    "block_count i = of_nat (hgt g h)" "vfrt v h = Some a" by auto
  from blocks_invD [OF linvD(1) [OF inv] i(3)]
  show "hash P b = h" "h \<noteq> 0" "block_case P g (vblk v) (vsuc v) h b" "rep_inv g (vblk v) h" by auto
qed

lemma accounts_inv_le:
  assumes "accounts_inv g M S A F" "M x \<noteq> None" "A (own g x) = Some i"
  shows "hgt g x \<le> hgt g (head i)"
proof -
  from assms(1,2) obtain j where "A (own g x) = Some j" "hgt g x \<le> hgt g (head j)"
    unfolding accounts_inv_def by blast
  with assms(3) show ?thesis by simp
qed

lemma head_unreferenced:
  assumes inv: "linv P g v" and at: "at_head v a i h b" and c: "vblk v x = Some c" and x: "x \<noteq> h"
  shows "type_of_block c \<noteq> Type_open \<Longrightarrow> previous c \<noteq> h" "repb g x \<noteq> h"
    "own g x = a \<Longrightarrow> hgt g x < hgt g h"
proof -
  note D = at_headD [OF inv at]
  show "previous c \<noteq> h" if "type_of_block c \<noteq> Type_open"
    using blocks_inv_prev [OF linvD(1) [OF inv] c that] D(5) blocks_invD(2) [OF linvD(1) [OF inv] c]
    by (auto simp: linked_def)
  show *: "hgt g x < hgt g h" if "own g x = a"
  proof -
    have "hgt g x \<le> hgt g h"
      using accounts_inv_le [OF linvD(4) [OF inv], of x i] c that D(1,2) by simp
    moreover have "hgt g x \<noteq> hgt g h"
      using linvD(2) [OF inv] c D(3,4) that x unfolding chain_inv_def by (metis option.distinct(1))
    ultimately show ?thesis by simp
  qed
  show "repb g x \<noteq> h"
  proof
    assume "repb g x = h"
    with blocks_invD(6) [OF linvD(1) [OF inv] c] D(4) have "own g x = a" "hgt g h \<le> hgt g x"
      by (auto simp: rep_inv_def)
    with * show False by simp
  qed
qed

section \<open>Removing the head\<close>

lemma linked_removed: "linked g M S p x \<Longrightarrow> p \<noteq> h \<Longrightarrow> S' p = S p \<Longrightarrow> linked g (M(h := None)) S' p x"
  by (auto simp: linked_def)

lemma receipt_removed:
  "receipt g M s x \<Longrightarrow> s \<noteq> h \<Longrightarrow> receipt g (M(h := None)) s x \<and> sent g (M(h := None)) s = sent g M s"
  by (auto simp: receipt_def sent_def)

lemma blocks_inv_removed:
  assumes inv: "blocks_inv P g M S" and b: "M h = Some b"
    and S: "\<And>y. M y \<noteq> None \<Longrightarrow> S y \<noteq> 0 \<Longrightarrow> S y \<noteq> h \<Longrightarrow> S' y = S y"
    and un: "\<And>x c. M x = Some c \<Longrightarrow> x \<noteq> h \<Longrightarrow> (type_of_block c \<noteq> Type_open \<longrightarrow> previous c \<noteq> h) \<and> repb g x \<noteq> h"
    and rc: "\<And>x c. M x = Some c \<Longrightarrow> x \<noteq> h \<Longrightarrow> \<not> receives c h"
  shows "blocks_inv P g (M(h := None)) S'"
  unfolding blocks_inv_def
proof (intro allI impI)
  fix x c assume "(M(h := None)) x = Some c"
  then have x: "M x = Some c" "x \<noteq> h" by (auto split: if_splits)
  note D = blocks_invD [OF inv x(1)]
  note U = un [OF x] rc [OF x]
  have ri: "rep_inv g (M(h := None)) x" using D(6) U by (simp add: rep_inv_def)
  have link: "linked g (M(h := None)) S' p x" if "linked g M S p x" "p \<noteq> h" for p
  proof (rule linked_removed [OF that])
    show "S' p = S p" using that D(2) x(2) by (intro S) (auto simp: linked_def)
  qed
  have "block_case P g (M(h := None)) S' x c"
    using D(7) U link receipt_removed [of g M _ x h] by (cases c) auto
  with D ri show "hash P c = x \<and> \<not> reserved P x \<and> own g x \<noteq> 0 \<and> rep_inv g (M(h := None)) x \<and>
      block_case P g (M(h := None)) S' x c" by (simp add: reserved_def)
qed

lemma chain_inv_removed: "chain_inv g M \<Longrightarrow> chain_inv g (M(h := None))"
  by (auto simp: chain_inv_def)

lemma succ_inv_removed:
  assumes inv: "succ_inv g M S F" and b: "M h = Some b" "previous b = p" "S h = 0"
    and p: "M p \<noteq> None" "S p = h" "h \<noteq> 0" "p \<noteq> h" "own g p = a"
  shows "succ_inv g (M(h := None)) (S(h := 0, p := 0)) (F(h := None, p \<mapsto> a))"
  unfolding succ_inv_def
proof (intro allI)
  fix x
  have X: "(M x = None \<longrightarrow> S x = 0) \<and>
     (M x \<noteq> None \<longrightarrow> (if S x = 0 then F x = Some (own g x) else \<exists>c. M (S x) = Some c \<and> previous c = x))"
    using inv by (simp add: succ_inv_def)
  have "S x \<noteq> h" if "x \<noteq> p" "M x \<noteq> None" using X that b p by auto
  with X show "((M(h := None)) x = None \<longrightarrow> (S(h := 0, p := 0)) x = 0) \<and>
     ((M(h := None)) x \<noteq> None \<longrightarrow>
      (if (S(h := 0, p := 0)) x = 0 then (F(h := None, p \<mapsto> a)) x = Some (own g x)
       else \<exists>c. (M(h := None)) ((S(h := 0, p := 0)) x) = Some c \<and> previous c = x))"
    using b p by (cases "x = h"; cases "x = p") auto
qed

lemma succ_inv_removed_open:
  assumes inv: "succ_inv g M S F" and b: "M h = Some b" "type_of_block b = Type_open" and z: "M 0 = None"
  shows "succ_inv g (M(h := None)) (S(h := 0)) (F(h := None))"
  unfolding succ_inv_def
proof (intro allI)
  fix x
  have X: "(M x = None \<longrightarrow> S x = 0) \<and>
     (M x \<noteq> None \<longrightarrow> (if S x = 0 then F x = Some (own g x) else \<exists>c. M (S x) = Some c \<and> previous c = x))"
    using inv by (simp add: succ_inv_def)
  have "S x \<noteq> h" if "M x \<noteq> None" "S x \<noteq> 0"
  proof
    assume "S x = h"
    with X that b have "previous b = x" by auto
    with b(2) z that show False by auto
  qed
  with X show "((M(h := None)) x = None \<longrightarrow> (S(h := 0)) x = 0) \<and>
     ((M(h := None)) x \<noteq> None \<longrightarrow>
      (if (S(h := 0)) x = 0 then (F(h := None)) x = Some (own g x)
       else \<exists>c. (M(h := None)) ((S(h := 0)) x) = Some c \<and> previous c = x))"
    by (cases "x = h") auto
qed

lemma accounts_inv_removed:
  assumes inv: "accounts_inv g M S A F" and i: "A a = Some i" "head i = h" "M h = Some b" "type_of_block b \<noteq> Type_open"
    and p: "M p \<noteq> None" "p \<noteq> h" "own g p = a" "hgt g h = Suc (hgt g p)"
    and less: "\<And>x. M x \<noteq> None \<Longrightarrow> x \<noteq> h \<Longrightarrow> own g x = a \<Longrightarrow> hgt g x < hgt g h"
    and new: "head i' = p" "rep_block i' = repb g p" "balance i' = bal g p" "block_count i' = of_nat (hgt g p)"
      "open_block i' = open_block i"
  shows "accounts_inv g (M(h := None)) (S(h := 0, p := 0)) (A(a \<mapsto> i')) (F(h := None, p \<mapsto> a))"
proof -
  note iD = accounts_invD [OF inv i(1)]
  have heads: "M (head j) \<noteq> None" "head j \<noteq> h" "head j \<noteq> p" if "A c = Some j" "c \<noteq> a" for c j
    using accounts_invD [OF inv that(1)] that(2) iD(2) i(2) p(3) by auto
  have opens: "\<exists>x sig w. (M(h := None)) (open_block j) = Some (Open x sig w) \<and> open_account x = c"
    if "A c = Some j" for c j
    using accounts_invD(7) [OF inv that] i(3,4) by auto
  have "account_inv g (M(h := None)) (S(h := 0, p := 0)) c j" if j: "(A(a \<mapsto> i')) c = Some j" for c j
  proof (cases "c = a")
    case True
    with j have "j = i'" by simp
    then show ?thesis using True new p opens [OF i(1)] by (auto simp: account_inv_def)
  next
    case False
    with j have j: "A c = Some j" by simp
    show ?thesis
      using accounts_invD [OF inv j] heads [OF j False] opens [OF j] by (auto simp: account_inv_def)
  qed
  moreover have "\<exists>j. (A(a \<mapsto> i')) (own g x) = Some j \<and> hgt g x \<le> hgt g (head j)" if "(M(h := None)) x \<noteq> None" for x
  proof (cases "own g x = a")
    case True
    with less [of x] that new p show ?thesis by (auto split: if_splits)
  next
    case False
    with that inv show ?thesis by (auto simp: accounts_inv_def split: if_splits)
  qed
  moreover have "(F(h := None, p \<mapsto> a)) x = Some c \<longleftrightarrow> (\<exists>j. (A(a \<mapsto> i')) c = Some j \<and> head j = x)" for x c
  proof -
    have F: "F x = Some c \<longleftrightarrow> (\<exists>j. A c = Some j \<and> head j = x)" using inv by (simp add: accounts_inv_def)
    show ?thesis
    proof (cases "c = a")
      case True
      with F new(1) i p show ?thesis by auto
    next
      case False
      have "x \<noteq> h \<and> x \<noteq> p" if "A c = Some j" "head j = x" for j using heads [OF that(1) False] that by auto
      with False F show ?thesis by auto
    qed
  qed
  ultimately show ?thesis unfolding accounts_inv_def by blast
qed

lemma accounts_inv_removed_open:
  assumes inv: "accounts_inv g M S A F" and i: "A a = Some i" "head i = h" "M h = Some (Open x sig w)" "open_account x = a"
    and less: "\<And>x. M x \<noteq> None \<Longrightarrow> x \<noteq> h \<Longrightarrow> own g x \<noteq> a"
  shows "accounts_inv g (M(h := None)) (S(h := 0)) (A(a := None)) (F(h := None))"
proof -
  note iD = accounts_invD [OF inv i(1)]
  have heads: "M (head j) \<noteq> None" "head j \<noteq> h" "open_block j \<noteq> h" if "A c = Some j" "c \<noteq> a" for c j
    using accounts_invD [OF inv that(1)] that(2) iD(2) i by auto
  have "account_inv g (M(h := None)) (S(h := 0)) c j" if j: "(A(a := None)) c = Some j" for c j
  proof -
    from j have j: "A c = Some j" "c \<noteq> a" by (auto split: if_splits)
    show ?thesis using accounts_invD [OF inv j(1)] heads [OF j] by (auto simp: account_inv_def)
  qed
  moreover have "\<exists>j. (A(a := None)) (own g x) = Some j \<and> hgt g x \<le> hgt g (head j)" if "(M(h := None)) x \<noteq> None" for x
    using that less [of x] inv by (auto simp: accounts_inv_def split: if_splits)
  moreover have "(F(h := None)) x = Some c \<longleftrightarrow> (\<exists>j. (A(a := None)) c = Some j \<and> head j = x)" for x c
  proof -
    have F: "F x = Some c \<longleftrightarrow> (\<exists>j. A c = Some j \<and> head j = x)" using inv by (simp add: accounts_inv_def)
    show ?thesis
    proof (cases "c = a")
      case True
      with F i show ?thesis by auto
    next
      case False
      have "x \<noteq> h" if "A c = Some j" "head j = x" for j using heads [OF that(1) False] that by auto
      with False F show ?thesis by auto
    qed
  qed
  ultimately show ?thesis unfolding accounts_inv_def by blast
qed

lemma received_removed:
  assumes "pending_inv g M N" "M h = Some b"
  shows "received (M(h := None)) s \<longleftrightarrow> received M s \<and> \<not> receives b s"
proof
  assume "received (M(h := None)) s"
  then obtain x c where "M x = Some c" "x \<noteq> h" "receives c s" by (auto simp: received_def split: if_splits)
  then show "received M s \<and> \<not> receives b s"
    using pending_invD(3) [OF assms(1) _ assms(2)] by (auto simp: received_def)
next
  assume *: "received M s \<and> \<not> receives b s"
  then obtain x c where x: "M x = Some c" "receives c s" by (auto simp: received_def)
  with * assms(2) have "x \<noteq> h" by auto
  with x have "(M(h := None)) x = Some c \<and> receives c s" by simp
  then show "received (M(h := None)) s" unfolding received_def by blast
qed

lemma pending_inv_removed_send:
  assumes inv: "pending_inv g M N" and b: "M h = Some (Send x sig w)"
  shows "pending_inv g (M(h := None)) (N((send_destination x, h) := None))"
proof -
  note rc = received_removed [OF inv b, simplified]
  have "(\<exists>y sig w. (M(h := None)) s = Some (Send y sig w) \<and> send_destination y = d) \<and>
      pending_source q = own g s \<and> pending_amount q = sent g (M(h := None)) s \<and> \<not> received (M(h := None)) s"
    if "(N((send_destination x, h) := None)) (d, s) = Some q" for d s q
  proof -
    from that have n: "N (d, s) = Some q" "(d, s) \<noteq> (send_destination x, h)" by (auto split: if_splits)
    from pending_invD(1) [OF inv n(1)] obtain y sig' w' where
      y: "M s = Some (Send y sig' w')" "send_destination y = d" by blast
    with n b have "s \<noteq> h" by auto
    with y pending_invD(1) [OF inv n(1)] show ?thesis by (auto simp: rc sent_def)
  qed
  moreover have "received (M(h := None)) s"
    if "(M(h := None)) s = Some (Send y sig' w')" "(N((send_destination x, h) := None)) (send_destination y, s) = None"
    for s y sig' w'
    using that pending_invD(2) [OF inv, of s y] by (auto simp: rc split: if_splits)
  moreover have "u = y" if "(M(h := None)) u = Some c" "(M(h := None)) y = Some d" "receives c s" "receives d s"
    for u y c d s
    using that pending_invD(3) [OF inv] by (auto split: if_splits)
  ultimately show ?thesis unfolding pending_inv_def by blast
qed

lemma pending_inv_removed_receive:
  assumes inv: "pending_inv g M N" and b: "M h = Some b" "receives b c" "M c = Some (Send x sig w)"
    and p: "pending_source p = own g c" "pending_amount p = sent g M c"
  shows "pending_inv g (M(h := None)) (N((send_destination x, c) \<mapsto> p))"
proof -
  note rc = received_removed [OF inv b(1)]
  have ch: "c \<noteq> h" using b by auto
  have one: "receives b s \<longleftrightarrow> s = c" for s using b(2) by (cases b) auto
  have "(\<exists>y sig w. (M(h := None)) s = Some (Send y sig w) \<and> send_destination y = d) \<and>
      pending_source q = own g s \<and> pending_amount q = sent g (M(h := None)) s \<and> \<not> received (M(h := None)) s"
    if n: "(N((send_destination x, c) \<mapsto> p)) (d, s) = Some q" for d s q
  proof (cases "(d, s) = (send_destination x, c)")
    case True
    with n b p ch show ?thesis by (auto simp: rc sent_def)
  next
    case False
    with n have n: "N (d, s) = Some q" by (auto split: if_splits)
    from pending_invD(1) [OF inv n] obtain y sig' w' where
      y: "M s = Some (Send y sig' w')" "send_destination y = d" by blast
    with b have "s \<noteq> h" by auto
    with y pending_invD(1) [OF inv n] show ?thesis by (auto simp: rc sent_def)
  qed
  moreover have "received (M(h := None)) s"
    if "(M(h := None)) s = Some (Send y sig' w')" "(N((send_destination x, c) \<mapsto> p)) (send_destination y, s) = None"
    for s y sig' w'
  proof -
    from that b(3) have "s \<noteq> c" by (auto split: if_splits)
    with that show ?thesis using pending_invD(2) [OF inv, of s y] by (auto simp: rc one split: if_splits)
  qed
  moreover have "u = y" if "(M(h := None)) u = Some d" "(M(h := None)) y = Some e" "receives d s" "receives e s"
    for u y d e s
    using that pending_invD(3) [OF inv] by (auto split: if_splits)
  ultimately show ?thesis unfolding pending_inv_def by blast
qed

lemma pending_inv_removed_other:
  assumes inv: "pending_inv g M N" and b: "M h = Some b" "type_of_block b = Type_change"
  shows "pending_inv g (M(h := None)) N"
proof -
  have none: "\<not> receives b s" for s using b(2) by (cases b) auto
  note rc = received_removed [OF inv b(1)]
  have "(\<exists>y sig w. (M(h := None)) s = Some (Send y sig w) \<and> send_destination y = d) \<and>
      pending_source q = own g s \<and> pending_amount q = sent g (M(h := None)) s \<and> \<not> received (M(h := None)) s"
    if n: "N (d, s) = Some q" for d s q
  proof -
    from pending_invD(1) [OF inv n] obtain y sig' w' where
      y: "M s = Some (Send y sig' w')" "send_destination y = d" by blast
    with b have "s \<noteq> h" by auto
    with y pending_invD(1) [OF inv n] show ?thesis by (auto simp: rc sent_def)
  qed
  moreover have "received (M(h := None)) s"
    if "(M(h := None)) s = Some (Send y sig' w')" "N (send_destination y, s) = None" for s y sig' w'
    using that pending_invD(2) [OF inv, of s y] by (auto simp: rc none split: if_splits)
  moreover have "u = y" if "(M(h := None)) u = Some d" "(M(h := None)) y = Some e" "receives d s" "receives e s"
    for u y d e s
    using that pending_invD(3) [OF inv] by (auto split: if_splits)
  ultimately show ?thesis unfolding pending_inv_def by blast
qed

lemma infos_inv_removed:
  assumes inv: "infos_inv g M B" and b: "M h \<noteq> None"
  shows "infos_inv g (M(h := None)) (if hgt g h mod block_info_max = 0 then B(h := None) else B)"
  unfolding infos_inv_def
proof
  fix x
  have "B x = (if M x \<noteq> None \<and> hgt g x mod block_info_max = 0
     then Some \<lparr>info_account = own g x, info_balance = bal g x\<rparr> else None)"
    using inv by (simp add: infos_inv_def)
  then show "(if hgt g h mod block_info_max = 0 then B(h := None) else B) x =
    (if (M(h := None)) x \<noteq> None \<and> hgt g x mod block_info_max = 0
     then Some \<lparr>info_account = own g x, info_balance = bal g x\<rparr> else None)"
    using b by (cases "x = h") auto
qed

lemma infos_inv_same:
  assumes inv: "infos_inv g M B" and p: "M p \<noteq> None" "hgt g p mod block_info_max = 0"
  shows "B(p \<mapsto> \<lparr>info_account = own g p, info_balance = bal g p\<rparr>) = B"
  using assms by (auto simp: infos_inv_def fun_eq_iff)

lemma weights_inv_drop:
  assumes inv: "weights_inv g A R" and fin: "finite (dom A)" and i: "A a = Some i"
    and R': "\<And>r. R' r = R r - (if rep g (head i) = r then balance i else 0)"
  shows "weights_inv g (A(a := None)) R'"
  unfolding weights_inv_def
proof
  fix r
  let ?f = "\<lambda>i. if rep g (head i) = r then unat (balance i) else 0"
  have "msum ?f (A(a := None)) + ?f i = msum ?f A" by (rule msum_drop_old [OF fin i])
  then have "(of_nat (msum ?f (A(a := None)) + ?f i) :: u128) = of_nat (msum ?f A)" by (rule arg_cong)
  then have "of_nat (msum ?f (A(a := None))) + of_nat (?f i) = (of_nat (msum ?f A) :: u128)" unfolding of_nat_add .
  then show "R' r = of_nat (msum ?f (A(a := None)))"
    using inv unfolding R' weights_inv_def of_nat_unat_if by (auto simp: algebra_simps split: if_splits)
qed

lemma checksum_inv_drop:
  assumes inv: "checksum_inv A c" and fin: "finite (dom A)" and i: "A a = Some i"
  shows "checksum_inv (A(a := None)) (c XOR head i)"
  unfolding checksum_inv_def
proof
  fix n
  have c: "bit c n \<longleftrightarrow> odd (msum (\<lambda>i. of_bool (bit (head i) n)) A)" using inv by (simp add: checksum_inv_def)
  have "msum (\<lambda>i. of_bool (bit (head i) n)) (A(a := None)) + of_bool (bit (head i) n) =
      msum (\<lambda>i. of_bool (bit (head i) n)) A + of_bool False"
    using msum_drop_old [OF fin i, of "\<lambda>i. of_bool (bit (head i) n)"] by simp
  from parity_swap [OF this] c
  show "bit (c XOR head i) n \<longleftrightarrow> odd (msum (\<lambda>i. of_bool (bit (head i) n)) (A(a := None)))"
    unfolding bit_xor_iff by blast
qed

lemma supply_inv_reopen:
  assumes inv: "supply_inv A N" and fin: "finite (dom A)" "finite (dom N)" and i: "A a = Some i" and n: "N k = None"
    and p: "pending_amount p = balance i"
  shows "supply_inv (A(a := None)) (N(k \<mapsto> p))"
  using inv msum_drop_old [OF fin(1) i, of "\<lambda>i. unat (balance i)"]
    msum_upd_new [OF fin(2) n, of "\<lambda>p. unat (pending_amount p)" p] p by (simp add: supply_inv_def)

section \<open>The invariant without the head\<close>

lemma retract_linv:
  assumes r: "represents s v" and inv: "linv P g v" and at: "at_head v a i h b"
    and t: "type_of_block b \<noteq> Type_open" and un: "\<not> received (vblk v) h"
    and i': "i' = i\<lparr>head := previous b, rep_block := repb g (previous b), balance := bal g (previous b), modified := now,
        block_count := block_count i - 1\<rparr>"
    and v': "vblk v' = (vblk v)(h := None)" "vsuc v' = (vsuc v)(h := 0, previous b := 0)" "vacc v' = (vacc v)(a \<mapsto> i')"
      "vfrt v' = (vfrt v)(h := None, previous b \<mapsto> a)"
      "vbin v' = (if hgt g h mod block_info_max = 0 then (vbin v)(h := None) else vbin v)"
      "vcks v' = vcks v XOR h XOR previous b"
      "\<And>r. vrep v' r = vrep v r - (if rep g h = r then balance i else 0) +
        (if rep g (previous b) = r then bal g (previous b) else 0)"
    and pnd: "pending_inv g ((vblk v)(h := None)) (vpnd v')" and sup: "supply_inv ((vacc v)(a \<mapsto> i')) (vpnd v')"
  shows "linv P g v'"
proof -
  note D = at_headD [OF inv at]
  note U = head_unreferenced [OF inv at]
  note finA = finite_view(1) [OF r]
  let ?p = "previous b"
  have l: "linked g (vblk v) (vsuc v) ?p h" using blocks_inv_prev [OF linvD(1) [OF inv] D(3) t] .
  then have p: "vblk v ?p \<noteq> None" "vsuc v ?p = h" "own g ?p = a" "hgt g h = Suc (hgt g ?p)" "?p \<noteq> h"
    using D(4,5,11) by (auto simp: linked_def)
  have "blocks_inv P g (vblk v') (vsuc v')"
    unfolding v'
  proof (rule blocks_inv_removed [OF linvD(1) [OF inv] D(3)])
    show "((vsuc v)(h := 0, ?p := 0)) y = vsuc v y" if "vblk v y \<noteq> None" "vsuc v y \<noteq> 0" "vsuc v y \<noteq> h" for y
      using that D(5) p by auto
    show "\<not> receives c h" if "vblk v x = Some c" "x \<noteq> h" for x c using un that by (auto simp: received_def)
  qed (use U(1,2) in blast)
  moreover have "chain_inv g (vblk v')" unfolding v' by (rule chain_inv_removed [OF linvD(2) [OF inv]])
  moreover have "succ_inv g (vblk v') (vsuc v') (vfrt v')"
    unfolding v' using succ_inv_removed [OF linvD(3) [OF inv] D(3) refl D(5) p(1,2) D(11) p(5,3)] .
  moreover have "accounts_inv g (vblk v') (vsuc v') (vacc v') (vfrt v')"
    unfolding v'
  proof (rule accounts_inv_removed [OF linvD(4) [OF inv] D(1,2,3) t p(1,5,3,4)])
    show "hgt g x < hgt g h" if "vblk v x \<noteq> None" "x \<noteq> h" "own g x = a" for x
      using U(3) that by blast
    show "block_count i' = of_nat (hgt g ?p)" using D(8) p(4) by (simp add: i')
  qed (simp_all add: i')
  moreover have "infos_inv g (vblk v') (vbin v')"
    unfolding v' using infos_inv_removed [OF linvD(6) [OF inv]] D(3) by simp
  moreover have "weights_inv g (vacc v') (vrep v')"
    unfolding v'(3) using D(2) v'(7) by (intro weights_inv_upd [OF linvD(7) [OF inv] finA D(1)]) (auto simp: i')
  moreover have "checksum_inv (vacc v') (vcks v')"
    using checksum_inv_upd [OF linvD(9) [OF inv] finA D(1), of i'] D(2) by (simp add: v' i')
  moreover have "\<exists>x sig w. vblk v' (gen g) = Some (Open x sig w)"
    using linvD(10) [OF inv] D(3) t by (auto simp: v')
  ultimately show ?thesis using pnd sup by (simp add: linv_def v')
qed

lemma retract_open_linv:
  assumes r: "represents s v" and inv: "linv P g v" and at: "at_head v a i h (Open x sig w)"
    and gn: "h \<noteq> gen g"
    and v': "vblk v' = (vblk v)(h := None)" "vsuc v' = (vsuc v)(h := 0)" "vacc v' = (vacc v)(a := None)"
      "vfrt v' = (vfrt v)(h := None)" "vbin v' = vbin v" "vcks v' = vcks v XOR h"
      "\<And>r. vrep v' r = vrep v r - (if rep g h = r then balance i else 0)"
    and pnd: "pending_inv g ((vblk v)(h := None)) (vpnd v')" and sup: "supply_inv ((vacc v)(a := None)) (vpnd v')"
  shows "linv P g v'"
proof -
  note D = at_headD [OF inv at]
  note U = head_unreferenced [OF inv at]
  note finA = finite_view(1) [OF r]
  have h1: "hgt g h = 1" "open_account x = a" using D(4,12) by auto
  have un: "\<not> receives c h" if "vblk v y = Some c" for y c
    using received_send [OF inv, of h] that D(3) blocks_invD(4) [OF linvD(1) [OF inv] D(3)]
    by (auto simp: received_def)
  have pos: "0 < hgt g y" if "vblk v y \<noteq> None" for y
  proof -
    from that obtain c where "vblk v y = Some c" by auto
    from blocks_invD(7) [OF linvD(1) [OF inv] this] show ?thesis by (cases c) (auto simp: linked_def)
  qed
  have "blocks_inv P g (vblk v') (vsuc v')"
    unfolding v' using U(1,2) un D(5) by (intro blocks_inv_removed [OF linvD(1) [OF inv] D(3)]) auto
  moreover have "chain_inv g (vblk v')" unfolding v' by (rule chain_inv_removed [OF linvD(2) [OF inv]])
  moreover have "succ_inv g (vblk v') (vsuc v') (vfrt v')"
  proof -
    have "vblk v 0 = None" using blocks_invD(2) [OF linvD(1) [OF inv], of 0] by (cases "vblk v 0") auto
    then show ?thesis unfolding v' by (intro succ_inv_removed_open [OF linvD(3) [OF inv] D(3)]) simp_all
  qed
  moreover have "accounts_inv g (vblk v') (vsuc v') (vacc v') (vfrt v')"
    unfolding v'
  proof (rule accounts_inv_removed_open [OF linvD(4) [OF inv] D(1,2,3) h1(2)])
    show "own g y \<noteq> a" if "vblk v y \<noteq> None" "y \<noteq> h" for y
      using U(3) [OF _ that(2)] that pos [OF that(1)] h1 by auto
  qed
  moreover have "infos_inv g (vblk v') (vbin v')"
    unfolding v' using infos_inv_removed [OF linvD(6) [OF inv], of h] D(3) h1 by (simp add: block_info_max_def)
  moreover have "weights_inv g (vacc v') (vrep v')"
    unfolding v'(3) using D(2) v'(7) by (intro weights_inv_drop [OF linvD(7) [OF inv] finA D(1)]) auto
  moreover have "checksum_inv (vacc v') (vcks v')"
    using checksum_inv_drop [OF linvD(9) [OF inv] finA D(1)] D(2) by (simp add: v')
  moreover have "\<exists>x sig w. vblk v' (gen g) = Some (Open x sig w)"
    using linvD(10) [OF inv] gn by (auto simp: v')
  ultimately show ?thesis using pnd sup by (simp add: linv_def v')
qed

end
