(* ===== verification/Ledger_Undo.thy ===== *)
theory Ledger_Undo
  imports Ledger_Retract
begin

text \<open>
  The undo of the head block of an account, one lemma per visit of \<^verbatim>\<open>rollback_visitor\<close>: the writes of
  the source give the view \<open>undo_send\<close>, \<open>undo_receive\<close>, \<open>undo_open\<close> or \<open>undo_change\<close>, and that view
  satisfies the ledger invariant with the same ghost state.
\<close>

section \<open>Undoing the head block on views\<close>

definition forget_info :: "account_info \<Rightarrow> u256 \<Rightarrow> view \<Rightarrow> view" where
  "forget_info i h v = (if block_count i mod of_nat block_info_max = 0 then drop_info h v else v)"

definition undo_send :: "u64 \<Rightarrow> ghost \<Rightarrow> view \<Rightarrow> u256 \<Rightarrow> account_info \<Rightarrow> u256 \<Rightarrow> send_hashables \<Rightarrow> u128 \<Rightarrow> view" where
  "undo_send now g v a i h x m =
     forget_info i h (clear_succ (send_previous x) (add_frontier (send_previous x) a (drop_frontier h (remove_block h
     (set_head now a (send_previous x) (rep_block i) (bal g (send_previous x)) (block_count i - 1)
     (weigh (rep g h) m (drop_pending (send_destination x, h) v)))))))"

definition undo_receive :: "u64 \<Rightarrow> ghost \<Rightarrow> view \<Rightarrow> u256 \<Rightarrow> account_info \<Rightarrow> u256 \<Rightarrow> receive_hashables \<Rightarrow> u128 \<Rightarrow> view" where
  "undo_receive now g v a i h x m =
     forget_info i h (clear_succ (receive_previous x) (add_frontier (receive_previous x) a (drop_frontier h
     (add_pending (a, receive_source x) \<lparr>pending_source = own g (receive_source x), pending_amount = m\<rparr> (remove_block h
     (set_head now a (receive_previous x) (repb g (receive_previous x)) (bal g (receive_previous x)) (block_count i - 1)
     (weigh (rep g h) (0 - m) v)))))))"

definition undo_change :: "u64 \<Rightarrow> ghost \<Rightarrow> view \<Rightarrow> u256 \<Rightarrow> account_info \<Rightarrow> u256 \<Rightarrow> change_hashables \<Rightarrow> view" where
  "undo_change now g v a i h x =
     forget_info i h (clear_succ (change_previous x) (add_frontier (change_previous x) a (drop_frontier h
     (set_head now a (change_previous x) (repb g (change_previous x)) (balance i) (block_count i - 1) (remove_block h
     (weigh (rep g h) (0 - bal g (change_previous x))
     (weigh (rep g (change_previous x)) (bal g (change_previous x)) v)))))))"

definition undo_open :: "u64 \<Rightarrow> ghost \<Rightarrow> view \<Rightarrow> u256 \<Rightarrow> u256 \<Rightarrow> open_hashables \<Rightarrow> u128 \<Rightarrow> view" where
  "undo_open now g v a h x m =
     drop_frontier h (add_pending (a, open_source x)
       \<lparr>pending_source = own g (open_source x), pending_amount = m\<rparr>
     (remove_block h (drop_head a (weigh (rep g h) (0 - m) v))))"

section \<open>The code performs the undo\<close>

lemma block_successor_clear_gives:
  assumes r: "represents s v" and b: "vblk v h = Some b"
    and p: "type_of_block b \<noteq> Type_open \<Longrightarrow>
      vblk v (previous b) \<noteq> None \<and> previous b \<noteq> h \<and> hash P b = h \<and> vsuc v (previous b) = h"
  shows "gives (block_successor_clear P s h) (clear_succ h v)"
  using write_views(10) [OF r b represents_serializable [OF r b] p] by (simp add: clear_succ_def)

lemma rollback_block_info_gives:
  assumes r: "represents s v" and b: "block_count i mod of_nat block_info_max = 0 \<Longrightarrow> vbin v h \<noteq> None"
  shows "gives (rollback_block_info s i h) (forget_info i h v)"
  using del_gives(3) [OF r, of h] r b by (auto simp: rollback_block_info_def forget_info_def)

lemma prev_of_head:
  assumes inv: "linv P g v" and at: "at_head v a i h b" and t: "type_of_block b \<noteq> Type_open" and p: "previous b = p"
  obtains c where "vblk v p = Some c" "vsuc v p = h" "own g p = a" "hgt g h = Suc (hgt g p)" "p \<noteq> h"
    "hash P c = p" "p \<noteq> 0" "type_of_block c \<noteq> Type_open \<Longrightarrow> vblk v (previous c) \<noteq> None \<and> previous c \<noteq> p \<and>
      previous c \<noteq> h \<and> vsuc v (previous c) = p" "rnk g p < rnk g h"
proof -
  note D = at_headD [OF inv at]
  have l: "linked g (vblk v) (vsuc v) p h" using blocks_inv_prev [OF linvD(1) [OF inv] D(3) t] p by simp
  then obtain c where c: "vblk v p = Some c" by (auto simp: linked_def)
  note C = blocks_invD [OF linvD(1) [OF inv] c]
  have "vblk v (previous c) \<noteq> None \<and> previous c \<noteq> p \<and> previous c \<noteq> h \<and> vsuc v (previous c) = p"
    if "type_of_block c \<noteq> Type_open"
    using blocks_inv_prev [OF linvD(1) [OF inv] c that] D(5) C(2) by (auto simp: linked_def)
  with l c C show thesis using D(4,5,11) by (intro that [of c]) (auto simp: linked_def)
qed

lemma info_of_head:
  assumes inv: "linv P g v" and at: "at_head v a i h b"
  shows "block_count i mod of_nat block_info_max = 0 \<longleftrightarrow> hgt g h mod block_info_max = 0"
    "hgt g h mod block_info_max = 0 \<Longrightarrow> vbin v h \<noteq> None"
proof -
  note D = at_headD [OF inv at]
  show "block_count i mod of_nat block_info_max = 0 \<longleftrightarrow> hgt g h mod block_info_max = 0"
    unfolding D(8) by (rule mod_max_iff)
  show "vbin v h \<noteq> None" if "hgt g h mod block_info_max = 0"
    using linvD(6) [OF inv] D(3) that by (simp add: infos_inv_def)
qed

lemma head_rep_of:
  assumes inv: "linv P g v" and b: "vblk v h \<noteq> None"
  shows "rep_of v (repb g h) = rep g h" "rep g h \<noteq> 0" "vblk v (repb g h) \<noteq> None"
proof -
  from b obtain c where "vblk v h = Some c" by auto
  from blocks_invD(6) [OF linvD(1) [OF inv] this]
  show "rep_of v (repb g h) = rep g h" "rep g h \<noteq> 0" "vblk v (repb g h) \<noteq> None"
    by (auto simp: rep_inv_def rep_of_def)
qed

lemma rep_of_same: "rep_of (drop_pending k v) = rep_of v" "rep_of (weigh r m v) = rep_of v"
  by (simp_all add: rep_of_def transformers fun_eq_iff)

lemma rollback_send_gives:
  assumes r: "represents s v" and inv: "linv P g v" and at: "at_head v a i h (Send x sig w)"
    and q: "vpnd v (send_destination x, h) = Some q"
  shows "gives (rollback_send_block P now s x h q) (undo_send now g v a i h x (pending_amount q))"
proof -
  note D = at_headD [OF inv at]
  obtain c where C: "vblk v (send_previous x) = Some c" "vsuc v (send_previous x) = h" "own g (send_previous x) = a"
    "send_previous x \<noteq> h" "hash P c = send_previous x" "send_previous x \<noteq> 0"
    "type_of_block c \<noteq> Type_open \<Longrightarrow> vblk v (previous c) \<noteq> None \<and> previous c \<noteq> send_previous x \<and> previous c \<noteq> h \<and>
       vsuc v (previous c) = send_previous x"
    by (rule prev_of_head [OF inv at, of "send_previous x"]) auto
  have src: "pending_source q = a" using pending_invD(1) [OF linvD(5) [OF inv] q] D(4) by simp
  note R = head_rep_of [OF inv, of h]
  have rp: "ledger_representative P s1 h = Ret (repb g h)" if "represents s1 (drop_pending k v)" for s1 k
    using ledger_representative_eval [OF that, of P g h] linvD(1) [OF inv] D(3) by (simp add: transformers)
  have bl: "ledger_balance P s1 (send_previous x) = Ret (bal g (send_previous x))"
    if "represents s1 (weigh y m (drop_pending k v))" for s1 k y m
    using ledger_balance_eval [OF that, of P g "send_previous x"] linvD(1) [OF inv] infos_inv_ok [OF linvD(6) [OF inv]] C(1)
    by (simp add: transformers)
  have ro: "rep_of (drop_pending k v) (repb g h) = rep g h" for k
    using R D(3) by (simp add: rep_of_same)
  note facts = D(1-3,9) C R src q info_of_head [OF inv at]
  show ?thesis
    unfolding undo_send_def rollback_send_block_def account_get_view [OF r] src D(1) obind.simps of_option_simps Let_def
    by (rule returns_bind, rule del_gives(2) [OF r], (simp add: facts; fail), simp only: rp obind.simps,
        rule returns_bind, rule representation_add_gives, assumption, (simp add: ro facts; fail), simp only: bl ro obind.simps,
        rule returns_bind, rule change_latest_gives, assumption, (simp add: transformers facts; fail)+,
        rule returns_bind, rule del_gives(4), assumption, (simp add: transformers facts; fail),
        rule returns_bind, rule del_gives(1), assumption, (simp add: transformers facts; fail), drule put_gives(1),
        rule returns_bind, rule block_successor_clear_gives [where b = c], assumption, (simp add: transformers facts; fail)+,
        rule rollback_block_info_gives, assumption, simp add: transformers facts del: not_None_eq)
qed

lemma ledger_account_removed:
  assumes r: "represents s v" and inv: "linv P g v" and h: "vblk v h \<noteq> None"
    and r': "represents s' w" and w: "vblk w = (vblk v)(h := None)" "vsuc w = vsuc v" "vfrt w = vfrt v" "vbin w = vbin v"
    and x: "vblk v x \<noteq> None" "x \<noteq> h"
  shows "ledger_account s' x = Ret (own g x)"
proof (rule ledger_account_eval [OF r'])
  show "walk g w (own g x) {y. vblk v y \<noteq> None \<and> own g y = own g x}"
    using chain_walk [OF r inv, of "own g x"] w by (simp add: walk_def)
  note fin = block_counts_view(1) [OF r]
  have "card (dom (vblk v)) = Suc (card (dom (vblk w)))"
    using h card.remove [OF fin, of h] by (simp add: w domIff)
  moreover have "card {y. vblk v y \<noteq> None \<and> own g y = own g x} \<le> card (dom (vblk v))"
    using fin by (intro card_mono) auto
  ultimately show "card {y. vblk v y \<noteq> None \<and> own g y = own g x} \<le> Suc (card (dom (vblk w)))" by simp
  show "own g x \<noteq> 0" using x blocks_invD(5) [OF linvD(1) [OF inv]] by auto
qed (use x w in auto)

lemma head_count:
  assumes inv: "linv P g v" and at: "at_head v a i h b" and p: "hgt g h = Suc (hgt g p)" "vblk v p \<noteq> None" "own g p = a"
  shows "(block_count i - 1) mod of_nat block_info_max = 0 \<Longrightarrow>
    (vbin v)(p \<mapsto> \<lparr>info_account = a, info_balance = bal g p\<rparr>) = vbin v"
proof -
  have "block_count i - 1 = of_nat (hgt g p)" using at_headD(8) [OF inv at] p(1) by simp
  moreover assume "(block_count i - 1) mod of_nat block_info_max = 0"
  ultimately have "hgt g p mod block_info_max = 0" by (simp only: mod_max_iff)
  from infos_inv_same [OF linvD(6) [OF inv] p(2) this] p(3)
  show "(vbin v)(p \<mapsto> \<lparr>info_account = a, info_balance = bal g p\<rparr>) = vbin v" by simp
qed

lemma source_of_head:
  assumes inv: "linv P g v" and at: "at_head v a i h b" and c: "receives b c" "h \<noteq> gen g"
  obtains x sig w where "vblk v c = Some (Send x sig w)" "send_destination x = a" "c \<noteq> h" "rnk g c < rnk g h"
    "vpnd v (a, c) = None"
proof -
  note D = at_headD [OF inv at]
  from D(4,12) c have "receipt g (vblk v) c h" by (cases b) auto
  then obtain x sig w where x: "vblk v c = Some (Send x sig w)" "send_destination x = a" "rnk g c < rnk g h"
    using D(4) by (auto simp: receipt_def)
  have "received (vblk v) c" using D(3) c(1) by (auto simp: received_def)
  then have "vpnd v (a, c) = None" using pending_invD(1) [OF linvD(5) [OF inv], of a c] by (cases "vpnd v (a, c)") auto
  with x show thesis by (intro that [of x sig w]) auto
qed

lemma rollback_receive_gives:
  assumes r: "represents s v" and inv: "linv P g v" and at: "at_head v a i h (Receive x sig w)"
  shows "gives (rollback_receive_block P now s x h) (undo_receive now g v a i h x (sent g (vblk v) (receive_source x)))"
proof -
  note D = at_headD [OF inv at]
  let ?p = "receive_previous x" and ?c = "receive_source x"
  obtain c where C: "vblk v ?p = Some c" "vsuc v ?p = h" "own g ?p = a" "hgt g h = Suc (hgt g ?p)" "?p \<noteq> h"
    "hash P c = ?p" "?p \<noteq> 0" "type_of_block c \<noteq> Type_open \<Longrightarrow> vblk v (previous c) \<noteq> None \<and>
      previous c \<noteq> ?p \<and> previous c \<noteq> h \<and> vsuc v (previous c) = ?p"
    by (rule prev_of_head [OF inv at, of ?p]) auto
  have gn: "h \<noteq> gen g" using linvD(10) [OF inv] D(3) by auto
  obtain y ys yw where Y: "vblk v ?c = Some (Send y ys yw)" "?c \<noteq> h"
    by (rule source_of_head [OF inv at _ gn]) auto
  note R = head_rep_of [OF inv, of h]
  note ok = linvD(1) [OF inv] infos_inv_ok [OF linvD(6) [OF inv]]
  have am: "ledger_amount P s ?c = Ret (sent g (vblk v) ?c)"
    using ledger_amount_eval [OF r ok] Y by (simp add: sent_def)
  note ac = ledger_account_own [OF r inv, of h]
  have rp: "ledger_representative P s y = Ret (repb g y)" if "vblk v y \<noteq> None" for y
    using ledger_representative_eval [OF r ok(1) that] .
  have bl: "ledger_balance P s1 ?p = Ret (bal g ?p)" if "represents s1 (weigh y m v)" for s1 y m
    using ledger_balance_eval [OF that, of P g ?p] ok C(1) by (simp add: transformers)
  have hc: "(block_count i - 1) mod of_nat block_info_max = 0 \<Longrightarrow>
    (vbin v)(?p \<mapsto> \<lparr>info_account = a, info_balance = bal g ?p\<rparr>) = vbin v"
    using head_count [OF inv at C(4)] C(1,3) by simp
  have sc: "ledger_account s1 ?c = Ret (own g ?c)"
    if "represents s1 (remove_block h (set_head now a ?p rb (bal g ?p) (block_count i - 1) (weigh y m v)))" for s1 rb y m
    by (rule ledger_account_removed [OF r inv _ that, of h]) (simp_all add: D(1-5) Y transformers hc fun_upd_idem)
  note facts = D(1-3,9) C Y R info_of_head [OF inv at] hc
  show ?thesis
    unfolding undo_receive_def rollback_receive_block_def am Let_def
    apply (simp only: rp [of ?p] rp [of h] ac C(1) D(3,4) obind.simps account_get_view [OF r] D(1) of_option_simps option.distinct not_False_eq_True)
    apply (rule returns_bind, rule representation_add_gives [OF r], (simp add: facts; fail), simp only: bl R(1) D(3) obind.simps option.distinct not_False_eq_True)
    by (
        rule returns_bind, rule change_latest_gives, assumption, (simp add: transformers facts; fail)+,
        rule returns_bind, rule del_gives(4), assumption, (simp add: transformers facts; fail), simp only: sc obind.simps,
        drule put_gives(2),
        rule returns_bind, rule del_gives(1), assumption, (simp add: transformers facts; fail), drule put_gives(1),
        rule returns_bind, rule block_successor_clear_gives [where b = c], assumption, (simp add: transformers facts; fail)+,
        rule rollback_block_info_gives, assumption, simp add: transformers facts del: not_None_eq)
qed

lemma rollback_change_gives:
  assumes r: "represents s v" and inv: "linv P g v" and at: "at_head v a i h (Change x sig w)"
  shows "gives (rollback_change_block P now s x h) (undo_change now g v a i h x)"
proof -
  note D = at_headD [OF inv at]
  let ?p = "change_previous x"
  obtain c where C: "vblk v ?p = Some c" "vsuc v ?p = h" "own g ?p = a" "hgt g h = Suc (hgt g ?p)" "?p \<noteq> h"
    "hash P c = ?p" "?p \<noteq> 0" "type_of_block c \<noteq> Type_open \<Longrightarrow> vblk v (previous c) \<noteq> None \<and>
      previous c \<noteq> ?p \<and> previous c \<noteq> h \<and> vsuc v (previous c) = ?p"
    by (rule prev_of_head [OF inv at, of ?p]) auto
  note R = head_rep_of [OF inv, of ?p]
  note ok = linvD(1) [OF inv] infos_inv_ok [OF linvD(6) [OF inv]]
  note ac = ledger_account_own [OF r inv, of ?p] and rp = ledger_representative_eval [OF r ok(1), of ?p]
    and bl = ledger_balance_eval [OF r ok, of ?p]
  have q: "rep_of v h = rep g h" "rep g h \<noteq> 0"
    using D(3,12,13) by (auto simp: rep_of_def rep_inv_def own_rep_def)
  note facts = D(1-3,9) C R q info_of_head [OF inv at]
  show ?thesis
    unfolding undo_change_def rollback_change_block_def Let_def
    apply (simp only: rp bl ac C(1,3) obind.simps account_get_view [OF r] D(1) of_option_simps option.distinct not_False_eq_True)
    apply (rule returns_bind, rule representation_add_gives [OF r], (simp add: facts; fail))
    apply (rule returns_bind, rule representation_add_gives, assumption, (simp add: rep_of_same facts; fail))
    by (simp only: rep_of_same R(1) C(1) q option.distinct not_False_eq_True,
        rule returns_bind, rule del_gives(4), assumption, (simp add: transformers facts; fail),
        rule returns_bind, rule change_latest_gives, assumption, (simp add: transformers facts; fail)+,
        rule returns_bind, rule del_gives(1), assumption, (simp add: transformers facts; fail), drule put_gives(1),
        rule returns_bind, rule block_successor_clear_gives [where b = c], assumption, (simp add: transformers facts; fail)+,
        rule rollback_block_info_gives, assumption, simp add: transformers facts del: not_None_eq)
qed

lemma rollback_open_gives:
  assumes r: "represents s v" and inv: "linv P g v" and at: "at_head v a i h (Open x sig w)" and gn: "h \<noteq> gen g"
  shows "gives (rollback_open_block P now s x h) (undo_open now g v a h x (sent g (vblk v) (open_source x)))"
proof -
  note D = at_headD [OF inv at]
  let ?c = "open_source x"
  obtain y ys yw where Y: "vblk v ?c = Some (Send y ys yw)" "?c \<noteq> h"
    by (rule source_of_head [OF inv at _ gn]) auto
  note R = head_rep_of [OF inv, of h]
  note ok = linvD(1) [OF inv] infos_inv_ok [OF linvD(6) [OF inv]]
  have am: "ledger_amount P s ?c = Ret (sent g (vblk v) ?c)"
    using ledger_amount_eval [OF r ok] Y by (simp add: sent_def)
  note ac = ledger_account_own [OF r inv, of h] and rp = ledger_representative_eval [OF r ok(1), of h]
  have sc: "ledger_account s1 ?c = Ret (own g ?c)"
    if "represents s1 (remove_block h (drop_head a (weigh y m v)))" for s1 y m
    by (rule ledger_account_removed [OF r inv _ that, of h]) (simp_all add: D(1-5) Y transformers fun_upd_idem)
  note facts = D(1-3,9) Y R
  show ?thesis
    unfolding undo_open_def rollback_open_block_def am Let_def
    apply (simp only: rp ac D(3,4) obind.simps option.distinct not_False_eq_True)
    apply (rule returns_bind, rule representation_add_gives [OF r], (simp add: facts; fail), simp only: R(1) D(3) option.distinct not_False_eq_True)
    by (rule returns_bind, rule change_latest_del_gives, assumption, (simp add: transformers facts; fail)+,
        rule returns_bind, rule del_gives(4), assumption, (simp add: transformers facts; fail), simp only: sc obind.simps,
        drule put_gives(2), rule del_gives(1), assumption, simp add: transformers facts)
qed

section \<open>The undo keeps the invariant\<close>

lemma undo_send_linv:
  assumes r: "represents s v" and inv: "linv P g v" and at: "at_head v a i h (Send x sig w)"
    and q: "vpnd v (send_destination x, h) = Some q"
  shows "linv P g (undo_send now g v a i h x (pending_amount q))"
proof -
  note D = at_headD [OF inv at]
  let ?p = "send_previous x"
  obtain c where C: "vblk v ?p = Some c" "own g ?p = a" "hgt g h = Suc (hgt g ?p)" "?p \<noteq> h"
    by (rule prev_of_head [OF inv at, of ?p]) auto
  note hc = head_count [OF inv at C(3)] info_of_head(1) [OF inv at]
  note Q = pending_invD(1) [OF linvD(5) [OF inv] q]
  have B: "rep g h = rep g ?p" "repb g h = repb g ?p" "bal g h = send_balance x" "send_balance x \<le> bal g ?p"
    using D(12) by (auto simp: same_rep_def)
  have am: "pending_amount q = bal g ?p - bal g h" using Q D(3) B by (simp add: sent_def)
  show ?thesis
  proof (rule retract_linv [OF r inv at _ _ refl, of _ now])
    show "supply_inv ((vacc v)(a \<mapsto> i\<lparr>head := previous (Send x sig w), rep_block := repb g (previous (Send x sig w)),
        balance := bal g (previous (Send x sig w)), modified := now, block_count := block_count i - 1\<rparr>))
      (vpnd (undo_send now g v a i h x (pending_amount q)))"
      using supply_inv_receive [OF linvD(8) [OF inv] finite_view(1,2) [OF r] D(1) q] am D(7) B
      by (simp add: undo_send_def forget_info_def transformers)
    show "pending_inv g ((vblk v)(h := None)) (vpnd (undo_send now g v a i h x (pending_amount q)))"
      using pending_inv_removed_send [OF linvD(5) [OF inv] D(3)]
      by (simp add: undo_send_def forget_info_def transformers)
  qed (use Q B C D hc am in \<open>auto simp: undo_send_def forget_info_def transformers xor.assoc\<close>)
qed

lemma unreceived:
  assumes inv: "linv P g v" and b: "vblk v h = Some b" "\<And>x sig w. b \<noteq> Send x sig w"
  shows "\<not> received (vblk v) h"
  using received_send [OF inv, of h] blocks_invD(4) [OF linvD(1) [OF inv] b(1)] b by auto

lemma undo_receive_linv:
  assumes r: "represents s v" and inv: "linv P g v" and at: "at_head v a i h (Receive x sig w)"
  shows "linv P g (undo_receive now g v a i h x (sent g (vblk v) (receive_source x)))"
proof -
  note D = at_headD [OF inv at]
  let ?p = "receive_previous x" and ?c = "receive_source x" and ?b = "Receive x sig w"
  obtain c where C: "vblk v ?p = Some c" "own g ?p = a" "hgt g h = Suc (hgt g ?p)" "?p \<noteq> h"
    by (rule prev_of_head [OF inv at, of ?p]) auto
  have gn: "h \<noteq> gen g" using linvD(10) [OF inv] D(3) by auto
  obtain y ys yw where Y: "vblk v ?c = Some (Send y ys yw)" "send_destination y = a" "?c \<noteq> h" "vpnd v (a, ?c) = None"
    by (rule source_of_head [OF inv at _ gn]) auto
  note hc = head_count [OF inv at C(3)] info_of_head(1) [OF inv at]
  have B: "rep g h = rep g ?p" "bal g h = bal g ?p + sent g (vblk v) ?c" "bal g ?p \<le> bal g h"
    using D(12) by (auto simp: same_rep_def)
  show ?thesis
  proof (rule retract_linv [OF r inv at _ unreceived [OF inv D(3)] refl, of _ now])
    show "supply_inv ((vacc v)(a \<mapsto> i\<lparr>head := previous ?b, rep_block := repb g (previous ?b),
        balance := bal g (previous ?b), modified := now, block_count := block_count i - 1\<rparr>))
      (vpnd (undo_receive now g v a i h x (sent g (vblk v) ?c)))"
      using supply_inv_send [OF linvD(8) [OF inv] finite_view(1,2) [OF r] D(1) Y(4)] D(7) B
      by (simp add: undo_receive_def forget_info_def transformers)
    show "pending_inv g ((vblk v)(h := None)) (vpnd (undo_receive now g v a i h x (sent g (vblk v) ?c)))"
      using pending_inv_removed_receive [OF linvD(5) [OF inv] D(3) _ Y(1)] Y(2)
      by (simp add: undo_receive_def forget_info_def transformers)
  qed (use B C D hc in \<open>auto simp: undo_receive_def forget_info_def transformers xor.assoc\<close>)
qed

lemma undo_change_linv:
  assumes r: "represents s v" and inv: "linv P g v" and at: "at_head v a i h (Change x sig w)"
  shows "linv P g (undo_change now g v a i h x)"
proof -
  note D = at_headD [OF inv at]
  let ?p = "change_previous x" and ?b = "Change x sig w"
  obtain c where C: "vblk v ?p = Some c" "own g ?p = a" "hgt g h = Suc (hgt g ?p)" "?p \<noteq> h"
    by (rule prev_of_head [OF inv at, of ?p]) auto
  note hc = head_count [OF inv at C(3)] info_of_head(1) [OF inv at]
  have B: "bal g h = bal g ?p" using D(12) by simp
  show ?thesis
  proof (rule retract_linv [OF r inv at _ unreceived [OF inv D(3)] refl, of _ now])
    show "supply_inv ((vacc v)(a \<mapsto> i\<lparr>head := previous ?b, rep_block := repb g (previous ?b),
        balance := bal g (previous ?b), modified := now, block_count := block_count i - 1\<rparr>))
      (vpnd (undo_change now g v a i h x))"
      using supply_inv_change [OF linvD(8) [OF inv] finite_view(1) [OF r] D(1)] D(7) B
      by (simp add: undo_change_def forget_info_def transformers)
    show "pending_inv g ((vblk v)(h := None)) (vpnd (undo_change now g v a i h x))"
      using pending_inv_removed_other [OF linvD(5) [OF inv] D(3)]
      by (simp add: undo_change_def forget_info_def transformers)
  qed (use B C D hc in \<open>auto simp: undo_change_def forget_info_def transformers xor.assoc\<close>)
qed

lemma undo_open_linv:
  assumes r: "represents s v" and inv: "linv P g v" and at: "at_head v a i h (Open x sig w)" and gn: "h \<noteq> gen g"
  shows "linv P g (undo_open now g v a h x (sent g (vblk v) (open_source x)))"
proof -
  note D = at_headD [OF inv at]
  let ?c = "open_source x" and ?b = "Open x sig w"
  obtain y ys yw where Y: "vblk v ?c = Some (Send y ys yw)" "send_destination y = a" "?c \<noteq> h" "vpnd v (a, ?c) = None"
    by (rule source_of_head [OF inv at _ gn]) auto
  have B: "bal g h = sent g (vblk v) ?c" using D(12) gn by simp
  show ?thesis
  proof (rule retract_open_linv [OF r inv at gn])
    show "supply_inv ((vacc v)(a := None)) (vpnd (undo_open now g v a h x (sent g (vblk v) ?c)))"
      using supply_inv_reopen [OF linvD(8) [OF inv] finite_view(1,2) [OF r] D(1) Y(4)] D(7) B
      by (simp add: undo_open_def transformers)
    show "pending_inv g ((vblk v)(h := None)) (vpnd (undo_open now g v a h x (sent g (vblk v) ?c)))"
      using pending_inv_removed_receive [OF linvD(5) [OF inv] D(3) _ Y(1)] Y(2)
      by (simp add: undo_open_def transformers)
  qed (use B D in \<open>auto simp: undo_open_def transformers\<close>)
qed

end
