(* ===== verification/Ledger_Rollback.thy ===== *)
theory Ledger_Rollback
  imports Ledger_Undo
begin

text \<open>
  \<open>rollback\<close> returns on every ledger that satisfies the invariant and on every stored block but the
  genesis block, and takes away that block and the blocks that depend on it.  A block depends on its
  previous block and on the block it receives.  The recursion of the source between
  \<^verbatim>\<open>ledger::rollback\<close> and \<^verbatim>\<open>rollback_visitor::send_block\<close> is well founded by the rank of the ghost
  state: the head of the destination that is rolled back inside the visit of a send block depends on
  that send block.
\<close>

section \<open>Dependent blocks\<close>

definition dep :: "(u256 \<rightharpoonup> block) \<Rightarrow> u256 \<Rightarrow> u256 \<Rightarrow> bool" where
  "dep M x y \<longleftrightarrow> (\<exists>b. M y = Some b \<and> (previous b = x \<or> receives b x))"

lemma dep_linv:
  assumes inv: "linv P g v" and d: "dep (vblk v) x y" and x: "\<not> reserved P x"
  shows "vblk v x \<noteq> None" "vblk v y \<noteq> None" "rnk g x < rnk g y"
proof -
  from d obtain b where b: "vblk v y = Some b" "previous b = x \<or> receives b x" by (auto simp: dep_def)
  from blocks_invD(7) [OF linvD(1) [OF inv] b(1)] b(2) x have "vblk v x \<noteq> None \<and> rnk g x < rnk g y"
    by (cases b) (auto simp: linked_def receipt_def reserved_def split: if_splits)
  with b show "vblk v x \<noteq> None" "vblk v y \<noteq> None" "rnk g x < rnk g y" by auto
qed

lemma linv_unreserved: "linv P g v \<Longrightarrow> vblk v x \<noteq> None \<Longrightarrow> \<not> reserved P x"
  unfolding reserved_def using blocks_invD(2,3,4) [OF linvD(1)] by blast

lemma dep_rank:
  assumes inv: "linv P g v" and x: "vblk v x \<noteq> None"
  shows "(dep (vblk v))\<^sup>*\<^sup>* x y \<Longrightarrow> vblk v y \<noteq> None \<and> rnk g x \<le> rnk g y"
proof (induction rule: rtranclp_induct)
  case (step y z)
  with dep_linv [OF inv step(2)] linv_unreserved [OF inv, of y] show ?case by simp
qed (use x in simp)

lemma chain_dep:
  assumes inv: "linv P g v" and x: "vblk v x \<noteq> None"
  shows "vblk v y \<noteq> None \<Longrightarrow> own g x = own g y \<Longrightarrow> hgt g x \<le> hgt g y \<Longrightarrow> (dep (vblk v))\<^sup>*\<^sup>* x y"
proof (induction "hgt g y" arbitrary: y rule: less_induct)
  case less
  show ?case
  proof (cases "x = y")
    case False
    then have lt: "hgt g x < hgt g y" using linvD(2) [OF inv] x less.prems by (fastforce simp: chain_inv_def)
    from less.prems obtain b where b: "vblk v y = Some b" by auto
    have "0 < hgt g x"
    proof -
      from x obtain c where "vblk v x = Some c" by auto
      from blocks_invD(7) [OF linvD(1) [OF inv] this] show ?thesis by (cases c) (auto simp: linked_def)
    qed
    with lt blocks_invD(7) [OF linvD(1) [OF inv] b] have "type_of_block b \<noteq> Type_open" by (cases b) auto
    from blocks_inv_prev [OF linvD(1) [OF inv] b this]
    have l: "vblk v (previous b) \<noteq> None" "own g y = own g (previous b)" "hgt g y = Suc (hgt g (previous b))"
      by (auto simp: linked_def)
    then have "(dep (vblk v))\<^sup>*\<^sup>* x (previous b)" using less.prems lt by (intro less.hyps) auto
    moreover have "dep (vblk v) (previous b) y" using b by (auto simp: dep_def)
    ultimately show ?thesis by simp
  qed simp
qed

text \<open>
  The state \<open>v'\<close> is \<open>v\<close> with \<open>h\<close> taken back: a ledger with the same ghost state that has lost \<open>h\<close> and
  otherwise only blocks that depend on \<open>h\<close>.
\<close>

definition undone :: "params \<Rightarrow> ghost \<Rightarrow> view \<Rightarrow> u256 \<Rightarrow> view \<Rightarrow> bool" where
  "undone P g v h v' \<longleftrightarrow> linv P g v' \<and> vblk v' \<subseteq>\<^sub>m vblk v \<and> vblk v' h = None \<and>
     (\<forall>y. vblk v y \<noteq> None \<longrightarrow> vblk v' y = None \<longrightarrow> (dep (vblk v))\<^sup>*\<^sup>* h y)"

lemma dep_mono: "M' \<subseteq>\<^sub>m M \<Longrightarrow> (dep M')\<^sup>*\<^sup>* x y \<Longrightarrow> (dep M)\<^sup>*\<^sup>* x y"
  by (erule rtranclp_mono [THEN predicate2D, rotated]) (auto simp: dep_def map_le_def dom_def)

lemma map_le_None: "M' \<subseteq>\<^sub>m M \<Longrightarrow> M x = None \<Longrightarrow> M' x = None"
  by (metis map_le_def domIff)

text \<open>Exactly the dependent blocks are gone.\<close>

lemma undone_blocks:
  assumes inv: "linv P g v" and h: "vblk v h \<noteq> None" and u: "undone P g v h v'"
  shows "vblk v' = (vblk v) |` (- {y. (dep (vblk v))\<^sup>*\<^sup>* h y})"
proof
  fix y
  from u have D: "linv P g v'" "vblk v' \<subseteq>\<^sub>m vblk v" "vblk v' h = None"
    "vblk v y \<noteq> None \<Longrightarrow> vblk v' y = None \<Longrightarrow> (dep (vblk v))\<^sup>*\<^sup>* h y" by (auto simp: undone_def)
  have "(dep (vblk v))\<^sup>*\<^sup>* h y \<Longrightarrow> vblk v' y = None"
  proof (induction rule: rtranclp_induct)
    case (step x y)
    from dep_rank [OF inv h step(1)] have x: "\<not> reserved P x" using linv_unreserved [OF inv] by blast
    show ?case
    proof (rule ccontr)
      assume "vblk v' y \<noteq> None"
      then have "dep (vblk v') x y" using step(2) D(2) by (fastforce simp: dep_def map_le_def dom_def)
      with dep_linv(1) [OF D(1) _ x] step(3) show False by blast
    qed
  qed (rule D(3))
  moreover have "vblk v' y = vblk v y" if "vblk v' y \<noteq> None" using D(2) that by (auto simp: map_le_def dom_def)
  ultimately show "vblk v' y = ((vblk v) |` (- {y. (dep (vblk v))\<^sup>*\<^sup>* h y})) y"
    using D(4) by (cases "(dep (vblk v))\<^sup>*\<^sup>* h y"; cases "vblk v y"; cases "vblk v' y") (auto simp: restrict_map_def)
qed

section \<open>The recursion returns\<close>

definition above :: "ghost \<Rightarrow> view \<Rightarrow> u256 \<Rightarrow> nat" where
  "above g v h = card {x \<in> dom (vblk v). rnk g h < rnk g x}"

lemma above_less:
  assumes fin: "finite (dom (vblk v))" and le: "vblk v' \<subseteq>\<^sub>m vblk v" "rnk g h \<le> rnk g h'"
    and d: "vblk v d \<noteq> None" "rnk g h < rnk g d" "vblk v' d = None \<or> rnk g d \<le> rnk g h'"
  shows "above g v' h' < above g v h"
proof -
  have "{x \<in> dom (vblk v'). rnk g h' < rnk g x} \<subseteq> {x \<in> dom (vblk v). rnk g h < rnk g x}"
    using le map_le_implies_dom_le [OF le(1)] by auto
  moreover have "d \<in> {x \<in> dom (vblk v). rnk g h < rnk g x}" "d \<notin> {x \<in> dom (vblk v'). rnk g h' < rnk g x}"
    using d by auto
  ultimately have "{x \<in> dom (vblk v'). rnk g h' < rnk g x} \<subset> {x \<in> dom (vblk v). rnk g h < rnk g x}" by blast
  then show ?thesis unfolding above_def using fin by (intro psubset_card_mono) auto
qed

lemma undone_one: "linv P g v' \<Longrightarrow> vblk v' = (vblk v)(h := None) \<Longrightarrow> undone P g v h v'"
  by (auto simp: undone_def map_le_def dom_def split: if_splits)

lemma at_head_kept:
  assumes inv: "linv P g v" and at: "at_head v a i h b" and v': "linv P g v'" "vblk v' \<subseteq>\<^sub>m vblk v" "vblk v' h \<noteq> None"
  shows "\<exists>i'. at_head v' a i' h b"
proof -
  note D = at_headD [OF inv at]
  from v' D(4) obtain i' where i': "vacc v' a = Some i'" "hgt g h \<le> hgt g (head i')"
    using linvD(4) [OF v'(1)] by (auto simp: accounts_inv_def)
  note E = accounts_invD(1,2) [OF linvD(4) [OF v'(1)] i'(1)]
  have M: "vblk v (head i') \<noteq> None" "vblk v' h = Some b" using v' E D(3) by (auto simp: map_le_def dom_def)
  have "head i' = h"
    using head_unreferenced(3) [OF inv at _ _ E(2)] M i'(2) by (cases "head i' = h") auto
  with i' M show ?thesis by (auto simp: at_head_def)
qed

definition rolled :: "params \<Rightarrow> ghost \<Rightarrow> view \<Rightarrow> u256 \<Rightarrow> block_store \<Rightarrow> bool" where
  "rolled P g v h s' \<longleftrightarrow> (\<exists>v'. represents s' v' \<and> undone P g v h v')"

lemma visit_plain:
  assumes r: "represents s v" and inv: "linv P g v" and at: "at_head v a i h b" and gn: "h \<noteq> gen g"
    and b: "\<And>x sig w. b \<noteq> Send x sig w"
  shows "returns (rollback_visit P now (Suc n) s b) (rolled P g v h)"
proof -
  note D = at_headD [OF inv at]
  have fin: "returns m (rolled P g v h)"
    if "gives m v'" "linv P g v'" "vblk v' = (vblk v)(h := None)" for m v'
    by (rule returns_mono [OF that(1)]) (use undone_one [OF that(2,3)] in \<open>auto simp: rolled_def\<close>)
  show ?thesis
  proof (cases b)
    case (Receive x sig w)
    note at' = at [unfolded Receive]
    show ?thesis
      using fin [OF rollback_receive_gives [OF r inv at'] undo_receive_linv [OF r inv at']] D(10) Receive
      by (simp add: undo_receive_def forget_info_def transformers)
  next
    case (Open x sig w)
    note at' = at [unfolded Open]
    show ?thesis
      using fin [OF rollback_open_gives [OF r inv at' gn] undo_open_linv [OF r inv at' gn]] D(10) Open
      by (simp add: undo_open_def transformers)
  next
    case (Change x sig w)
    note at' = at [unfolded Change]
    show ?thesis
      using fin [OF rollback_change_gives [OF r inv at'] undo_change_linv [OF r inv at']] D(10) Change
      by (simp add: undo_change_def forget_info_def transformers)
  qed (use b D(12) in auto)
qed

lemma not_pending_head:
  assumes inv: "linv P g v" and s: "vblk v h = Some (Send x sig w)" and p: "vpnd v (send_destination x, h) = None"
  obtains j b where "at_head v (send_destination x) j (head j) b" "rnk g h < rnk g (head j)" "(dep (vblk v))\<^sup>*\<^sup>* h (head j)"
proof -
  from pending_invD(2) [OF linvD(5) [OF inv] s p] obtain y c where y: "vblk v y = Some c" "receives c h"
    by (auto simp: received_def)
  have un: "\<not> reserved P h" using linv_unreserved [OF inv] s by blast
  have d: "dep (vblk v) h y" using y by (auto simp: dep_def)
  have o: "own g y = send_destination x"
    using blocks_invD(7) [OF linvD(1) [OF inv] y(1)] y(2) s un
    by (cases c) (auto simp: receipt_def reserved_def split: if_splits)
  obtain j where j: "vacc v (own g y) = Some j" "hgt g y \<le> hgt g (head j)"
    using linvD(4) [OF inv] y unfolding accounts_inv_def by blast
  note E = accounts_invD(1,2) [OF linvD(4) [OF inv] j(1)]
  have c: "(dep (vblk v))\<^sup>*\<^sup>* y (head j)" using y E j(2) by (intro chain_dep [OF inv]) auto
  from E(1) obtain b where "vblk v (head j) = Some b" by auto
  then have "at_head v (send_destination x) j (head j) b" using j(1) o by (simp add: at_head_def)
  moreover have "rnk g h < rnk g (head j)"
    using dep_linv(3) [OF inv d un] dep_rank [OF inv _ c] y by auto
  moreover have "(dep (vblk v))\<^sup>*\<^sup>* h (head j)" using d c by simp
  ultimately show thesis by (rule that)
qed

text \<open>What the loop over the pending entry of a send block leaves.\<close>

definition found :: "params \<Rightarrow> ghost \<Rightarrow> view \<Rightarrow> u256 \<Rightarrow> u256 \<Rightarrow> block \<Rightarrow> pending_key \<Rightarrow> block_store \<times> pending_info \<Rightarrow> bool" where
  "found P g v a h b k = (\<lambda>(s', q). \<exists>v' i'. represents s' v' \<and> linv P g v' \<and> at_head v' a i' h b \<and>
     vpnd v' k = Some q \<and> vblk v' \<subseteq>\<^sub>m vblk v \<and>
     (\<forall>y. vblk v y \<noteq> None \<longrightarrow> vblk v' y = None \<longrightarrow> (dep (vblk v))\<^sup>*\<^sup>* h y))"

lemma visit_send:
  assumes inv: "linv P g v" and at: "at_head v a i h (Send x sig w)"
    and p: "returns (rollback_pending P now n s (send_destination x, h)) (found P g v a h (Send x sig w) (send_destination x, h))"
  shows "returns (rollback_visit P now (Suc n) s (Send x sig w)) (rolled P g v h)"
proof -
  note D = at_headD [OF inv at]
  have "returns (rollback_send_block P now s' x h q) (rolled P g v h)"
    if f: "found P g v a h (Send x sig w) (send_destination x, h) (s', q)" for s' q
  proof -
    from f obtain v' i' where f: "represents s' v'" "linv P g v'" "at_head v' a i' h (Send x sig w)"
      "vpnd v' (send_destination x, h) = Some q" "vblk v' \<subseteq>\<^sub>m vblk v"
      "\<And>y. vblk v y \<noteq> None \<Longrightarrow> vblk v' y = None \<Longrightarrow> (dep (vblk v))\<^sup>*\<^sup>* h y"
      unfolding found_def by blast
    have u: "undone P g v h (undo_send now g v' a i' h x (pending_amount q))"
      using undo_send_linv [OF f(1-4), of now] f(5,6)
      by (auto simp: undone_def undo_send_def forget_info_def transformers map_le_def dom_def split: if_splits)
    show ?thesis
      by (rule returns_mono [OF rollback_send_gives [OF f(1-4)]]) (use u in \<open>auto simp: rolled_def\<close>)
  qed
  then show ?thesis
    by (subst rollback_visit.simps) (auto simp: D(10) intro!: returns_bind [OF p])
qed

lemma rollback_head:
  assumes r: "represents s v" and inv: "linv P g v" and at: "at_head v a i h b" and n: "0 < n"
    and vis: "returns (rollback_visit P now n s b) (rolled P g v h)"
  shows "returns (rollback_rec P now (Suc (Suc n)) s h) (rolled P g v h)"
proof -
  note D = at_headD [OF inv at]
  have ac: "ledger_account s h = Ret a" using ledger_account_own [OF r inv] D(3,4) by simp
  have stop: "returns (rollback_loop P now n s' a h) (rolled P g v h)" if "rolled P g v h s'" for s'
  proof -
    from that obtain v' where "represents s' v'" "vblk v' h = None" by (auto simp: rolled_def undone_def)
    then have "\<not> block_exists s' h" by (simp add: get_views)
    with n that show ?thesis by (cases n) auto
  qed
  have "returns (rollback_loop P now (Suc n) s a h) (rolled P g v h)"
    by (subst rollback_loop.simps)
      (simp add: get_views [OF r] D returns_bind [OF vis stop] del: rollback_loop.simps rollback_visit.simps)
  then show ?thesis by (subst rollback_rec.simps) (simp add: get_views [OF r] D ac del: rollback_loop.simps)
qed

lemma visit_above:
  assumes pend: "\<And>n s v a i h x sig w. represents s v \<Longrightarrow> linv P g v \<Longrightarrow> at_head v a i h (Send x sig w) \<Longrightarrow>
      above g v h \<le> k \<Longrightarrow> 4 * k + 1 \<le> n \<Longrightarrow>
      returns (rollback_pending P now n s (send_destination x, h)) (found P g v a h (Send x sig w) (send_destination x, h))"
    and r: "represents s v" and inv: "linv P g v" and at: "at_head v a i h b" and gn: "h \<noteq> gen g"
    and k: "above g v h \<le> k" "4 * k + 2 \<le> n"
  shows "returns (rollback_visit P now n s b) (rolled P g v h)"
proof -
  from k obtain m where m: "n = Suc m" "4 * k + 1 \<le> m" by (cases n) auto
  show ?thesis
  proof (cases "\<exists>x sig w. b = Send x sig w")
    case True
    then obtain x sig w where b: "b = Send x sig w" by blast
    show ?thesis unfolding m b using at b by (intro visit_send [OF inv] pend [OF r inv _ k(1) m(2)]) auto
  next
    case False
    then show ?thesis unfolding m by (intro visit_plain [OF r inv at gn]) blast
  qed
qed

lemma found_later:
  assumes inv: "linv P g v" and h: "vblk v h \<noteq> None" and d: "(dep (vblk v))\<^sup>*\<^sup>* h d" and u: "undone P g v d v1"
    and f: "found P g v1 a h b k r"
  shows "found P g v a h b k r"
proof -
  obtain s' q where r: "r = (s', q)" by (cases r)
  from f obtain v' i' where f: "represents s' v'" "linv P g v'" "at_head v' a i' h b" "vpnd v' k = Some q"
    "vblk v' \<subseteq>\<^sub>m vblk v1" "\<And>y. vblk v1 y \<noteq> None \<Longrightarrow> vblk v' y = None \<Longrightarrow> (dep (vblk v1))\<^sup>*\<^sup>* h y"
    unfolding found_def r by blast
  from u have U: "vblk v1 \<subseteq>\<^sub>m vblk v" "\<And>y. vblk v y \<noteq> None \<Longrightarrow> vblk v1 y = None \<Longrightarrow> (dep (vblk v))\<^sup>*\<^sup>* d y"
    by (auto simp: undone_def)
  have "(dep (vblk v))\<^sup>*\<^sup>* h y" if "vblk v y \<noteq> None" "vblk v' y = None" for y
    using U(2) [OF that(1)] f(6) [OF _ that(2)] d dep_mono [OF U(1)] by (cases "vblk v1 y = None") auto
  with f(1-4) map_le_trans [OF f(5) U(1)] show ?thesis unfolding found_def r by blast
qed

lemma pending_above:
  "represents s v \<Longrightarrow> linv P g v \<Longrightarrow> at_head v a i h (Send x sig w) \<Longrightarrow> above g v h \<le> k \<Longrightarrow> 4 * k + 1 \<le> n \<Longrightarrow>
   returns (rollback_pending P now n s (send_destination x, h)) (found P g v a h (Send x sig w) (send_destination x, h))"
proof (induction k arbitrary: n s v a i h x sig w rule: less_induct)
  case (less k)
  note r = less.prems(1) and inv = less.prems(2) and at = less.prems(3)
  note D = at_headD [OF inv at]
  from less.prems(5) obtain m where m: "n = Suc m" "4 * k \<le> m" by (cases n) auto
  let ?d = "send_destination x"
  show ?case
  proof (cases "vpnd v (?d, h)")
    case (Some q)
    with r inv at show ?thesis
      unfolding m by (subst rollback_pending.simps) (auto simp: get_views found_def)
  next
    case None
    obtain j c where j: "at_head v ?d j (head j) c" "rnk g h < rnk g (head j)" "(dep (vblk v))\<^sup>*\<^sup>* h (head j)"
      by (rule not_pending_head [OF inv D(3) None])
    note J = at_headD [OF inv j(1)]
    note fin = block_counts_view(1) [OF r]
    have less_k: "above g v' h' < k" if "vblk v' \<subseteq>\<^sub>m vblk v" "rnk g h \<le> rnk g h'"
        "vblk v' (head j) = None \<or> rnk g (head j) \<le> rnk g h'" for v' h'
      using above_less [OF fin that(1,2) _ j(2) that(3)] J(3) less.prems(4) by simp
    have "0 < k" using less_k [of v "head j"] j(2) by simp
    then obtain l where l: "k = Suc l" by (cases k) auto
    have gn: "head j \<noteq> gen g"
      using linvD(10) [OF inv] blocks_invD(7) [OF linvD(1) [OF inv]] j(2) by fastforce
    obtain p where p: "m = Suc (Suc p)" "4 * l + 2 \<le> p" using m(2) l by (cases m; cases "m - 1") auto
    have rec: "returns (rollback_rec P now m s (head j)) (rolled P g v (head j))"
      unfolding p using less_k [of v "head j"] j(2) p(2) l
      by (intro rollback_head [OF r inv j(1)] visit_above [OF less.IH r inv j(1) gn, of l]) auto
    have next_round: "returns (rollback_pending P now m s1 (?d, h)) (found P g v a h (Send x sig w) (?d, h))"
      if ro: "rolled P g v (head j) s1" for s1
    proof -
      from ro obtain v1 where v1: "represents s1 v1" "undone P g v (head j) v1" by (auto simp: rolled_def)
      then have U: "linv P g v1" "vblk v1 \<subseteq>\<^sub>m vblk v" "vblk v1 (head j) = None"
        "\<And>y. vblk v y \<noteq> None \<Longrightarrow> vblk v1 y = None \<Longrightarrow> (dep (vblk v))\<^sup>*\<^sup>* (head j) y" by (auto simp: undone_def)
      have "vblk v1 h \<noteq> None" using U(4) [of h] dep_rank [OF inv, of "head j" h] D(3) J(3) j(2) by fastforce
      then obtain i1 where i1: "at_head v1 a i1 h (Send x sig w)" using at_head_kept [OF inv at U(1,2)] by blast
      have "above g v1 h \<le> l" using less_k [of v1 h] U(2,3) l by simp
      then have "returns (rollback_pending P now m s1 (?d, h)) (found P g v1 a h (Send x sig w) (?d, h))"
        using l p by (intro less.IH [OF _ v1(1) U(1) i1]) auto
      then show ?thesis by (rule returns_mono) (rule found_later [OF inv _ j(3) v1(2)], simp add: D(3))
    qed
    show ?thesis unfolding m
      by (subst rollback_pending.simps)
        (simp add: get_views [OF r] None ledger_latest_def J(1) returns_bind [OF rec next_round]
          del: rollback_pending.simps rollback_rec.simps)
  qed
qed

lemmas visit_returns = visit_above [OF pending_above]

lemma undone_later:
  assumes u: "undone P g v d v1" "(dep (vblk v))\<^sup>*\<^sup>* h d" and w: "undone P g v1 h v'"
  shows "undone P g v h v'"
proof -
  from u(1) have U: "vblk v1 \<subseteq>\<^sub>m vblk v" "\<And>y. vblk v y \<noteq> None \<Longrightarrow> vblk v1 y = None \<Longrightarrow> (dep (vblk v))\<^sup>*\<^sup>* d y"
    by (auto simp: undone_def)
  from w have W: "linv P g v'" "vblk v' \<subseteq>\<^sub>m vblk v1" "vblk v' h = None"
    "\<And>y. vblk v1 y \<noteq> None \<Longrightarrow> vblk v' y = None \<Longrightarrow> (dep (vblk v1))\<^sup>*\<^sup>* h y"
    by (auto simp: undone_def)
  have "(dep (vblk v))\<^sup>*\<^sup>* h y" if "vblk v y \<noteq> None" "vblk v' y = None" for y
    using U(2) [OF that(1)] W(4) [OF _ that(2)] u(2) dep_mono [OF U(1)] by (cases "vblk v1 y = None") auto
  with W(1,3) map_le_trans [OF W(2) U(1)] show ?thesis unfolding undone_def by blast
qed

lemma undone_first:
  assumes "undone P g v d v'" "(dep (vblk v))\<^sup>*\<^sup>* h d" "vblk v' h = None"
  shows "undone P g v h v'"
  using assms unfolding undone_def by (meson rtranclp_trans)

lemma chain_head:
  assumes inv: "linv P g v" and h: "vblk v h \<noteq> None" "h \<noteq> gen g"
  obtains i b where "at_head v (own g h) i (head i) b" "(dep (vblk v))\<^sup>*\<^sup>* h (head i)" "head i \<noteq> gen g"
proof -
  obtain i where i: "vacc v (own g h) = Some i" "hgt g h \<le> hgt g (head i)"
    using linvD(4) [OF inv] h(1) unfolding accounts_inv_def by blast
  note E = accounts_invD(1,2) [OF linvD(4) [OF inv] i(1)]
  have c: "(dep (vblk v))\<^sup>*\<^sup>* h (head i)" using E i(2) by (intro chain_dep [OF inv h(1)]) auto
  have "head i \<noteq> gen g"
  proof
    assume "head i = gen g"
    moreover have "rnk g (gen g) = 0" using linvD(10) [OF inv] blocks_invD(7) [OF linvD(1) [OF inv]] by fastforce
    moreover have "rnk g h < rnk g (head i)" if "h \<noteq> head i"
      using linvD(2) [OF inv] h(1) E i(2) that unfolding chain_inv_def by (metis nat_less_le)
    ultimately show False using h(2) by auto
  qed
  moreover from E(1) obtain b where "vblk v (head i) = Some b" by auto
  ultimately show thesis using i(1) c by (intro that [of i b]) (auto simp: at_head_def)
qed

lemma rollback_loop_returns:
  "represents s v \<Longrightarrow> linv P g v \<Longrightarrow> vblk v h \<noteq> None \<Longrightarrow> h \<noteq> gen g \<Longrightarrow> 4 * card (dom (vblk v)) + 1 \<le> n \<Longrightarrow>
   returns (rollback_loop P now n s (own g h) h) (rolled P g v h)"
proof (induction "card (dom (vblk v))" arbitrary: n s v rule: less_induct)
  case less
  note r = less.prems(1) and inv = less.prems(2) and h = less.prems(3) and fin = block_counts_view(1) [OF less.prems(1)]
  let ?k = "card (dom (vblk v))"
  obtain i b where i: "at_head v (own g h) i (head i) b" "(dep (vblk v))\<^sup>*\<^sup>* h (head i)" "head i \<noteq> gen g"
    by (rule chain_head [OF inv h less.prems(4)])
  note I = at_headD [OF inv i(1)]
  have "above g v (head i) < ?k"
    unfolding above_def using fin I(3) by (intro psubset_card_mono) auto
  with less.prems(5) obtain m where m: "n = Suc m" "4 * (?k - 1) + 2 \<le> m" "4 * (?k - 1) + 1 \<le> m" "0 < m"
    by (cases n) auto
  have vis: "returns (rollback_visit P now m s b) (rolled P g v (head i))"
    using \<open>above g v (head i) < ?k\<close> m by (intro visit_returns [OF _ _ _ _ _ r inv i(1,3), of "?k - 1"]) auto
  have again: "returns (rollback_loop P now m s1 (own g h) h) (rolled P g v h)" if ro: "rolled P g v (head i) s1" for s1
  proof -
    from ro obtain v1 where v1: "represents s1 v1" "undone P g v (head i) v1" by (auto simp: rolled_def)
    then have U: "linv P g v1" "vblk v1 \<subseteq>\<^sub>m vblk v" "vblk v1 (head i) = None" by (auto simp: undone_def)
    show ?thesis
    proof (cases "vblk v1 h")
      case None
      then have "rolled P g v h s1" using v1 undone_first [OF v1(2) i(2)] by (auto simp: rolled_def)
      with None v1(1) m(4) show ?thesis by (cases m) (auto simp: get_views)
    next
      case (Some c)
      have "dom (vblk v1) \<subset> dom (vblk v)"
        using map_le_implies_dom_le [OF U(2)] U(3) I(3) by (auto simp: psubset_eq)
      then have lt: "card (dom (vblk v1)) < ?k" using fin by (intro psubset_card_mono)
      have "returns (rollback_loop P now m s1 (own g h) h) (rolled P g v1 h)"
        using Some lt m(3) by (intro less.hyps [OF lt v1(1) U(1) _ less.prems(4)]) auto
      then show ?thesis
        by (rule returns_mono) (use undone_later [OF v1(2) i(2)] in \<open>auto simp: rolled_def\<close>)
    qed
  qed
  show ?case unfolding m
    by (subst rollback_loop.simps)
      (use h in \<open>simp add: get_views [OF r] I(1,3) returns_bind [OF vis again] del: rollback_loop.simps rollback_visit.simps\<close>)
qed

lemma rollback_rolled:
  assumes r: "represents s v" and inv: "linv P g v" and h: "vblk v h \<noteq> None" "h \<noteq> gen g"
  shows "returns (rollback P now s h) (rolled P g v h)"
proof -
  obtain n where f: "fuel s = Suc n" "4 * card (dom (vblk v)) + 1 \<le> n"
    using fuel_view [OF r] by (cases "fuel s") auto
  show ?thesis
    unfolding rollback_def f(1)
    by (subst rollback_rec.simps)
      (use h ledger_account_own [OF r inv h(1)] rollback_loop_returns [OF r inv h f(2)]
        in \<open>simp add: get_views [OF r] del: rollback_loop.simps\<close>)
qed

end
