(* ===== verification/Ledger_Unique.thy ===== *)
theory Ledger_Unique
  imports Ledger_Rollback
begin

text \<open>
  The stored blocks determine the rest of the ledger: two ledgers that satisfy the invariant and store
  the same blocks agree on every table, the time stamps of the accounts apart.  The order in which the
  blocks came in, and blocks that came and were rolled back, leave no trace.
\<close>

section \<open>The blocks determine the ledger\<close>

lemma gen_unique:
  assumes inv: "linv P g v" and h: "vblk v h = Some (Open x sig w)" "open_source x = genesis_account P"
  shows "gen g = h"
proof (rule ccontr)
  assume "gen g \<noteq> h"
  with blocks_invD(7) [OF linvD(1) [OF inv] h(1)] h(2) have "vblk v (genesis_account P) \<noteq> None"
    by (auto simp: receipt_def)
  with linv_unreserved [OF inv] show False by (auto simp: reserved_def)
qed

lemma gen_same:
  assumes inv: "linv P g v" "linv P g' v'" and M: "vblk v' = vblk v"
  shows "gen g' = gen g"
proof -
  obtain x sig w where x: "vblk v (gen g) = Some (Open x sig w)" using linvD(10) [OF inv(1)] by blast
  then have "open_source x = genesis_account P" using blocks_invD(7) [OF linvD(1) [OF inv(1)] x] by simp
  with gen_unique [OF inv(2)] x M show ?thesis by simp
qed

definition same_ghost :: "ghost \<Rightarrow> ghost \<Rightarrow> u256 \<Rightarrow> bool" where
  "same_ghost g g' h \<longleftrightarrow> own g h = own g' h \<and> bal g h = bal g' h \<and> hgt g h = hgt g' h \<and>
     repb g h = repb g' h \<and> rep g h = rep g' h"

lemma ghost_unique:
  assumes inv: "linv P g v" "linv P g' v'" and M: "vblk v' = vblk v"
  shows "vblk v h \<noteq> None \<Longrightarrow> same_ghost g g' h"
proof (induction "rnk g h" arbitrary: h rule: less_induct)
  case less
  from less.prems obtain b where b: "vblk v h = Some b" by auto
  note B = blocks_invD(7) [OF linvD(1) [OF inv(1)] b]
  have B': "block_case P g' (vblk v) (vsuc v') h b" using blocks_invD(7) [OF linvD(1) [OF inv(2)], of h b] b M by simp
  have link: "same_ghost g g' p" if "linked g (vblk v) (vsuc v) p h" for p
    using that by (intro less.hyps) (auto simp: linked_def)
  have sent: "sent g (vblk v) s = sent g' (vblk v) s" if s: "receipt g (vblk v) s h" for s
  proof -
    from s obtain y sy wy where y: "vblk v s = Some (Send y sy wy)" "rnk g s < rnk g h" by (auto simp: receipt_def)
    from blocks_invD(7) [OF linvD(1) [OF inv(1)] y(1)] y(2) have "same_ghost g g' (send_previous y)"
      by (intro less.hyps) (auto simp: linked_def)
    with y show ?thesis by (simp add: sent_def same_ghost_def)
  qed
  note G = gen_same [OF inv M]
  show ?case
  proof (cases b)
    case (Send x sig w)
    with B B' link [of "send_previous x"] show ?thesis
      by (auto simp: same_ghost_def linked_def same_rep_def)
  next
    case (Receive x sig w)
    with B B' link [of "receive_previous x"] sent [of "receive_source x"] show ?thesis
      by (auto simp: same_ghost_def linked_def same_rep_def)
  next
    case (Change x sig w)
    with B B' link [of "change_previous x"] show ?thesis
      by (auto simp: same_ghost_def linked_def own_rep_def)
  next
    case (Open x sig w)
    with B B' sent [of "open_source x"] G show ?thesis
      by (auto simp: same_ghost_def own_rep_def split: if_splits)
  qed (use B in auto)
qed

text \<open>Two account records that differ at most in the time of their last change.\<close>

definition untimed :: "account_info \<Rightarrow> account_info" where
  "untimed i = i\<lparr>modified := 0\<rparr>"

definition same_ledger :: "view \<Rightarrow> view \<Rightarrow> bool" where
  "same_ledger v v' \<longleftrightarrow> vblk v' = vblk v \<and> vsuc v' = vsuc v \<and>
     (\<forall>a. map_option untimed (vacc v' a) = map_option untimed (vacc v a)) \<and> vfrt v' = vfrt v \<and>
     vpnd v' = vpnd v \<and> vbin v' = vbin v \<and> vrep v' = vrep v \<and> vcks v' = vcks v"

lemma untimed_eqI:
  "head i = head j \<Longrightarrow> rep_block i = rep_block j \<Longrightarrow> open_block i = open_block j \<Longrightarrow> balance i = balance j \<Longrightarrow>
   block_count i = block_count j \<Longrightarrow> untimed i = untimed j"
  by (simp add: untimed_def account_info.equality)

lemma untimed_sel:
  "untimed i = untimed j \<Longrightarrow> head i = head j \<and> rep_block i = rep_block j \<and> open_block i = open_block j \<and>
     balance i = balance j \<and> block_count i = block_count j"
  by (cases i, cases j) (simp add: untimed_def)

lemma account_unique:
  assumes inv: "linv P g v" "linv P g' v'" and M: "vblk v' = vblk v" and i: "vacc v a = Some i"
  shows "\<exists>j. vacc v' a = Some j \<and> untimed j = untimed i"
proof -
  note sg = ghost_unique [OF inv M, unfolded same_ghost_def]
  note I = accounts_invD [OF linvD(4) [OF inv(1)] i]
  have "\<exists>j. vacc v' (own g' (head i)) = Some j \<and> hgt g' (head i) \<le> hgt g' (head j)"
    using linvD(4) [OF inv(2)] I(1) M unfolding accounts_inv_def by simp
  then obtain j where j: "vacc v' a = Some j" "hgt g' (head i) \<le> hgt g' (head j)" using I(1,2) sg by auto
  note J = accounts_invD [OF linvD(4) [OF inv(2)] j(1), unfolded M]
  have "hgt g (head j) \<le> hgt g (head i)"
    using accounts_inv_le [OF linvD(4) [OF inv(1)], of "head j" i] J(1,2) sg i by simp
  then have "hgt g (head i) = hgt g (head j)" using j(2) sg I(1) J(1) by simp
  then have h: "head i = head j" using linvD(2) [OF inv(1)] I(1,2) J(1,2) sg unfolding chain_inv_def by metis
  obtain x sx wx y sy wy where o: "vblk v (open_block i) = Some (Open x sx wx)" "open_account x = a"
    "vblk v (open_block j) = Some (Open y sy wy)" "open_account y = a" using I(7) J(7) by blast
  have "open_block i = open_block j"
    using linvD(2) [OF inv(1)] o blocks_invD(7) [OF linvD(1) [OF inv(1)] o(1)]
      blocks_invD(7) [OF linvD(1) [OF inv(1)] o(3)] unfolding chain_inv_def
    by (metis block_case.simps(4) option.distinct(1))
  then have "untimed j = untimed i" using h I J sg by (intro untimed_eqI) auto
  with j show ?thesis by blast
qed

lemma accounts_unique:
  assumes inv: "linv P g v" "linv P g' v'" and M: "vblk v' = vblk v"
  shows "map_option untimed (vacc v' a) = map_option untimed (vacc v a)"
  using account_unique [OF inv M, of a] account_unique [OF inv(2,1) M [symmetric], of a]
  by (cases "vacc v a"; cases "vacc v' a") auto

lemma frontiers_unique:
  assumes inv: "linv P g v" "linv P g' v'" and M: "vblk v' = vblk v"
  shows "vfrt v' = vfrt v"
proof
  fix h
  have "vfrt v' h = Some a \<longleftrightarrow> vfrt v h = Some a" for a
    using linvD(4) [OF inv(1)] linvD(4) [OF inv(2)] accounts_unique [OF inv M, of a]
    unfolding accounts_inv_def by (cases "vacc v a"; cases "vacc v' a") (auto dest: untimed_sel)
  then show "vfrt v' h = vfrt v h" by (cases "vfrt v h"; cases "vfrt v' h") auto
qed

lemma successors_unique:
  assumes inv: "linv P g v" "linv P g' v'" and M: "vblk v' = vblk v"
  shows "vsuc v' = vsuc v"
proof
  fix h
  note S = succ_invD [OF linvD(3) [OF inv(1)], of h]
  show "vsuc v' h = vsuc v h"
  proof (cases "vblk v h = None")
    case True
    with linvD(3) [OF inv(1)] linvD(3) [OF inv(2)] M show ?thesis by (simp add: succ_inv_def)
  next
    case h: False
    show ?thesis
    proof (cases "vsuc v h = 0")
      case True
      with S(1) [OF h] have "vfrt v' h \<noteq> None" using frontiers_unique [OF inv M] by simp
      then obtain a j where "vacc v' a = Some j" "head j = h"
        using linvD(4) [OF inv(2)] by (auto simp: accounts_inv_def)
      with accounts_invD(3) [OF linvD(4) [OF inv(2)]] True show ?thesis by auto
    next
      case False
      with S(2) [OF h] obtain c where c: "vblk v (vsuc v h) = Some c" "previous c = h" by blast
      have "h \<noteq> 0" using h linv_unreserved [OF inv(1)] by (auto simp: reserved_def)
      with c have "type_of_block c \<noteq> Type_open" by auto
      from blocks_inv_prev [OF linvD(1) [OF inv(2)] _ this, of "vsuc v h"] c M show ?thesis
        by (simp add: linked_def)
    qed
  qed
qed

lemma pending_unique_le:
  assumes inv: "linv P g v" "linv P g' v'" and M: "vblk v' = vblk v" and p: "vpnd v (d, s) = Some p"
  shows "vpnd v' (d, s) = Some p"
proof -
  note sg = ghost_unique [OF inv M, unfolded same_ghost_def]
  from pending_invD(1) [OF linvD(5) [OF inv(1)] p] obtain x sig w where
    x: "vblk v s = Some (Send x sig w)" "send_destination x = d" "pending_source p = own g s"
      "pending_amount p = sent g (vblk v) s" "\<not> received (vblk v) s" by blast
  have "vblk v (send_previous x) \<noteq> None"
    using blocks_invD(7) [OF linvD(1) [OF inv(1)] x(1)] by (simp add: linked_def)
  then have e: "own g' s = own g s" "sent g' (vblk v) s = sent g (vblk v) s"
    using sg x(1) by (auto simp: sent_def)
  obtain q where q: "vpnd v' (d, s) = Some q"
    using pending_invD(2) [OF linvD(5) [OF inv(2)], of s x] x M by (cases "vpnd v' (d, s)") auto
  with pending_invD(1) [OF linvD(5) [OF inv(2)] q] x e M show ?thesis by simp
qed

lemma pending_unique:
  assumes inv: "linv P g v" "linv P g' v'" and M: "vblk v' = vblk v"
  shows "vpnd v' = vpnd v"
proof
  fix k :: pending_key
  obtain d s where k: "k = (d, s)" by (cases k)
  show "vpnd v' k = vpnd v k"
    using pending_unique_le [OF inv M, of d s] pending_unique_le [OF inv(2,1) M [symmetric], of d s]
    unfolding k by (cases "vpnd v (d, s)"; cases "vpnd v' (d, s)") auto
qed

lemma msum_untimed:
  assumes A: "\<And>a. map_option untimed (A' a) = map_option untimed (A a)"
    and f: "\<And>a i j. A a = Some i \<Longrightarrow> A' a = Some j \<Longrightarrow> untimed j = untimed i \<Longrightarrow> f' j = f i"
  shows "msum f' A' = msum f A"
proof -
  have *: "(A a = None \<and> A' a = None) \<or> (\<exists>i j. A a = Some i \<and> A' a = Some j \<and> untimed j = untimed i)" for a
    using A [of a] by (cases "A a"; cases "A' a") auto
  then have "dom A' = dom A" by (auto simp: dom_def) (metis option.distinct(1))+
  then show ?thesis unfolding msum_def using * f by (intro sum.cong) (auto, metis option.sel)
qed

lemma ledger_unique:
  assumes inv: "linv P g v" "linv P g' v'" and M: "vblk v' = vblk v"
  shows "same_ledger v v'"
proof -
  note sg = ghost_unique [OF inv M, unfolded same_ghost_def]
  note A = accounts_unique [OF inv M]
  have "vbin v' h = vbin v h" for h
    using linvD(6) [OF inv(1)] linvD(6) [OF inv(2)] M sg [of h]
    by (cases "vblk v h = None") (auto simp: infos_inv_def)
  moreover have "vrep v' r = vrep v r" for r
  proof -
    have "msum (\<lambda>i. if rep g' (head i) = r then unat (balance i) else 0) (vacc v') =
        msum (\<lambda>i. if rep g (head i) = r then unat (balance i) else 0) (vacc v)"
    proof (rule msum_untimed [OF A])
      fix a i j assume "vacc v a = Some i" and u: "untimed j = untimed i"
      with sg accounts_invD(1) [OF linvD(4) [OF inv(1)]] have "rep g' (head i) = rep g (head i)" by metis
      with untimed_sel [OF u] show "(if rep g' (head j) = r then unat (balance j) else 0) =
        (if rep g (head i) = r then unat (balance i) else 0)" by simp
    qed
    then show ?thesis using linvD(7) [OF inv(1)] linvD(7) [OF inv(2)] by (simp add: weights_inv_def)
  qed
  moreover have "vcks v' = vcks v"
  proof (rule bit_eqI)
    fix n
    have "msum (\<lambda>i. of_bool (bit (head i) n)) (vacc v') = (msum (\<lambda>i. of_bool (bit (head i) n)) (vacc v) :: nat)"
      by (rule msum_untimed [OF A]) (auto dest!: untimed_sel)
    then show "bit (vcks v') n \<longleftrightarrow> bit (vcks v) n"
      using linvD(9) [OF inv(1)] linvD(9) [OF inv(2)] by (simp add: checksum_inv_def)
  qed
  ultimately show ?thesis
    using M A successors_unique [OF inv M] frontiers_unique [OF inv M] pending_unique [OF inv M]
    by (simp add: same_ledger_def fun_eq_iff)
qed

end
