(* ===== verification/Ledger_Reach.thy ===== *)
theory Ledger_Reach
  imports Ledger_Unique
begin

text \<open>
  The ledger as a state machine: it starts as the genesis ledger, and each step processes a block or
  rolls a block back.  The steps keep the invariant, so that it holds on every reachable ledger.
\<close>

section \<open>The genesis ledger\<close>

definition genesis_ok :: "params \<Rightarrow> open_hashables \<Rightarrow> u512 \<Rightarrow> u64 \<Rightarrow> bool" where
  "genesis_ok P x sig w \<longleftrightarrow> open_source x = genesis_account P \<and> open_representative x = genesis_account P \<and>
     open_account x = genesis_account P \<and> genesis_account P \<noteq> 0 \<and> \<not> reserved P (hash P (Open x sig w))"

definition empty_view :: view where
  "empty_view = \<lparr>vblk = Map.empty, vsuc = (\<lambda>_. 0), vacc = Map.empty, vfrt = Map.empty, vpnd = Map.empty,
     vbin = Map.empty, vrep = (\<lambda>_. 0), vcks = 0\<rparr>"

lemma represents_empty: "represents empty_store empty_view"
proof -
  have "block_of empty_store = Map.empty"
    by (rule ext) (simp add: block_of_def block_get_raw_def empty_store_def mdb_get_def)
  moreover have "raw empty_store t h = None" for t h
    by (cases t) (simp_all add: empty_store_def block_table_def)
  then have "wf_blocks empty_store" by (simp add: wf_blocks_def excl_def)
  then have "wf_store empty_store"
    by (auto simp: wf_store_def empty_store_def values_in_def has_checksum_def mdb_put_def)
  ultimately show ?thesis
    by (auto simp: represents_def view_of_def empty_view_def empty_store_def decode_with_def mdb_put_def codec_simps
        intro!: view.equality)
qed

definition genesis_view :: "u64 \<Rightarrow> u256 \<Rightarrow> block \<Rightarrow> u256 \<Rightarrow> view" where
  "genesis_view now a b h = add_frontier h a (empty_view\<lparr>vblk := [h \<mapsto> b],
     vacc := [a \<mapsto> \<lparr>head = h, rep_block = h, open_block = h, balance = - 1, modified = now, block_count = 1\<rparr>],
     vrep := (\<lambda>_. 0)(a := - 1), vcks := h\<rparr>)"

lemma genesis_initialize_gives:
  "gives (genesis_initialize P now x sig w empty_store)
     (genesis_view now (genesis_account P) (Open x sig w) (hash P (Open x sig w)))"
proof -
  let ?h = "hash P (Open x sig w)" and ?b = "Open x sig w"
  have e: "store_begin (accounts empty_store) = []"
    by (simp add: store_begin_def empty_store_def sorted_list_of_fset.rep_eq)
  have put: "gives (block_put P empty_store ?h ?b 0) (empty_view\<lparr>vblk := [?h \<mapsto> ?b]\<rparr>)"
    using write_views(9) [OF represents_empty, of ?b ?h 0 P]
    by (simp add: serializable_def empty_view_def fun_upd_idem)
  show ?thesis
    unfolding genesis_initialize_def e Let_def
    by (simp, rule returns_bind [OF put], drule put_views(1), drule put_views(5), rule returns_bind, rule write_views(1), assumption,
        drule put_gives(1)) (simp add: genesis_view_def empty_view_def transformers)
qed


definition genesis_ghost :: "u256 \<Rightarrow> u256 \<Rightarrow> ghost" where
  "genesis_ghost h a = \<lparr>gen = h, own = (\<lambda>_. a), bal = (\<lambda>_. - 1), hgt = (\<lambda>_. 1), rnk = (\<lambda>_. 0), repb = (\<lambda>_. h), rep = (\<lambda>_. a)\<rparr>"

lemma msum_single [simp]: "msum f [k \<mapsto> v] = f v"
  by (simp add: msum_def)

lemma genesis_linv:
  assumes ok: "genesis_ok P x sig w" and h: "h = hash P (Open x sig w)" and a: "a = genesis_account P"
  shows "linv P (genesis_ghost h a) (genesis_view now a (Open x sig w) h)"
proof -
  let ?g = "genesis_ghost h a" and ?M = "[h \<mapsto> Open x sig w]"
  note defs = genesis_ghost_def genesis_view_def empty_view_def add_frontier_def
  have "blocks_inv P ?g ?M S" for S
    using ok by (auto simp: blocks_inv_def rep_inv_def genesis_ok_def h a defs own_rep_def split: if_splits)
  moreover have "chain_inv ?g ?M" by (auto simp: chain_inv_def split: if_splits)
  moreover have "succ_inv ?g ?M (\<lambda>_. 0) [h \<mapsto> a]" by (auto simp: succ_inv_def defs split: if_splits)
  moreover have "accounts_inv ?g ?M (\<lambda>_. 0) [a \<mapsto> \<lparr>head = h, rep_block = h, open_block = h, balance = - 1, modified = now, block_count = 1\<rparr>] [h \<mapsto> a]"
    using ok by (auto simp: accounts_inv_def account_inv_def genesis_ok_def a defs split: if_splits)
  moreover have "pending_inv ?g ?M Map.empty" by (auto simp: pending_inv_def split: if_splits)
  moreover have "infos_inv ?g ?M Map.empty" by (auto simp: infos_inv_def defs block_info_max_def)
  moreover have "weights_inv ?g [a \<mapsto> \<lparr>head = h, rep_block = h, open_block = h, balance = - 1, modified = now, block_count = 1\<rparr>] ((\<lambda>_. 0)(a := - 1))"
    by (auto simp: weights_inv_def defs)
  moreover have "supply_inv [a \<mapsto> \<lparr>head = h, rep_block = h, open_block = h, balance = - 1, modified = now, block_count = 1\<rparr>] Map.empty"
    by (simp add: supply_inv_def unsigned_minus_1_eq_mask mask_eq_exp_minus_1)
  moreover have "checksum_inv [a \<mapsto> \<lparr>head = h, rep_block = h, open_block = h, balance = - 1, modified = now, block_count = 1\<rparr>] h"
    by (auto simp: checksum_inv_def)
  ultimately show ?thesis by (simp add: linv_def defs)
qed

section \<open>Reachable ledgers\<close>

lemma spec_process_blocks:
  "vblk (fst (spec_process P now v b)) = (if decide P v b = Progress then (vblk v)(hash P b \<mapsto> b) else vblk v)"
  by (cases b) (auto simp: spec_process_def accept_send_def accept_change_def accept_receive_def accept_open_def
      transformers)

text \<open>
  The operations on a ledger that starts with the genesis block \<open>G\<close>: a block is processed, or a stored
  block other than \<open>G\<close> is rolled back.
\<close>

inductive ledger_step :: "params \<Rightarrow> block \<Rightarrow> block_store \<Rightarrow> block_store \<Rightarrow> bool" for P G where
  step_process: "usable P b \<Longrightarrow> process P now s b = Ret (s', ret) \<Longrightarrow> ledger_step P G s s'"
| step_rollback: "block_exists s h \<Longrightarrow> h \<noteq> hash P G \<Longrightarrow> rollback P now s h = Ret s' \<Longrightarrow> ledger_step P G s s'"

definition ledger_init :: "params \<Rightarrow> block \<Rightarrow> block_store \<Rightarrow> bool" where
  "ledger_init P G s \<longleftrightarrow> (\<exists>now x sig w. G = Open x sig w \<and> genesis_ok P x sig w \<and>
     genesis_initialize P now x sig w empty_store = Ret s)"

definition good :: "params \<Rightarrow> block \<Rightarrow> block_store \<Rightarrow> bool" where
  "good P G s \<longleftrightarrow> (\<exists>g x sig w. wf_store s \<and> linv P g (view_of s) \<and> gen g = hash P G \<and>
     vblk (view_of s) (hash P G) = Some G \<and> G = Open x sig w \<and> genesis_ok P x sig w)"

definition reachable :: "params \<Rightarrow> block \<Rightarrow> block_store \<Rightarrow> bool" where
  "reachable P G s \<longleftrightarrow> (\<exists>s0. ledger_init P G s0 \<and> (ledger_step P G)\<^sup>*\<^sup>* s0 s)"

lemma goodI:
  assumes "represents s v" "linv P g v" "vblk v (hash P G) = Some G" "G = Open x sig w" "genesis_ok P x sig w"
  shows "good P G s"
proof -
  have "gen g = hash P G" using gen_unique [OF assms(2)] assms(3-5) by (simp add: genesis_ok_def)
  with assms show ?thesis unfolding good_def represents_def by blast
qed

lemma goodD:
  assumes "good P G s"
  obtains g x sig w where "represents s (view_of s)" "linv P g (view_of s)" "gen g = hash P G"
    "vblk (view_of s) (hash P G) = Some G" "G = Open x sig w" "genesis_ok P x sig w"
  using assms unfolding good_def represents_def by blast

lemma process_good:
  assumes good: "good P G s" and u: "usable P b" and ret: "process P now s b = Ret (s', ret)"
  shows "good P G s' \<and> (view_of s', ret) = spec_process P now (view_of s) b"
proof -
  from good obtain g x sig w where g: "represents s (view_of s)" "linv P g (view_of s)" "gen g = hash P G"
    "vblk (view_of s) (hash P G) = Some G" "G = Open x sig w" "genesis_ok P x sig w" by (rule goodD)
  from process_refined [OF g(1,2) u, of now] ret
  have r: "represents s' (fst (spec_process P now (view_of s) b))" "ret = snd (spec_process P now (view_of s) b)"
    by (auto simp: refined_def)
  obtain g' where g': "linv P g' (fst (spec_process P now (view_of s) b))"
    using spec_process_linv [OF g(1,2) u] by blast
  have "vblk (fst (spec_process P now (view_of s) b)) (hash P G) = Some G"
    using g(4) by (cases b) (auto simp: spec_process_blocks split: if_splits)
  from goodI [OF r(1) g' this g(5,6)] r show ?thesis by (auto simp: represents_def)
qed

lemma rollback_good:
  assumes good: "good P G s" and h: "block_exists s h" "h \<noteq> hash P G"
  shows "returns (rollback P now s h) (\<lambda>s'. good P G s' \<and>
    vblk (view_of s') = vblk (view_of s) |` (- {y. (dep (vblk (view_of s)))\<^sup>*\<^sup>* h y}))"
proof -
  from good obtain g x sig w where g: "represents s (view_of s)" "linv P g (view_of s)" "gen g = hash P G"
    "vblk (view_of s) (hash P G) = Some G" "G = Open x sig w" "genesis_ok P x sig w" by (rule goodD)
  have h': "vblk (view_of s) h \<noteq> None" using h(1) by (simp add: get_views [OF g(1)])
  show ?thesis
  proof (rule returns_mono [OF rollback_rolled [OF g(1,2) h']])
    show "h \<noteq> gen g" using h(2) g(3) by simp
    fix s' assume "rolled P g (view_of s) h s'"
    then obtain v' where v': "represents s' v'" "undone P g (view_of s) h v'" by (auto simp: rolled_def)
    have "linv P g v'" using v'(2) by (simp add: undone_def)
    moreover have "vblk v' (hash P G) = Some G"
      using linvD(10) [OF calculation] v'(2) g(3,4) by (auto simp: undone_def map_le_def dom_def)
    ultimately have "good P G s'" using goodI [OF v'(1)] g(5,6) by blast
    with undone_blocks [OF g(2) h' v'(2)] v'(1) show "good P G s' \<and>
      vblk (view_of s') = vblk (view_of s) |` (- {y. (dep (vblk (view_of s)))\<^sup>*\<^sup>* h y})"
      by (auto simp: represents_def)
  qed
qed

interpretation ledger: invariant_system "ledger_init P G" "ledger_step P G" "good P G" for P G
proof
  show "good P G s" if "ledger_init P G s" for s
  proof -
    from that obtain now x sig w where i: "G = Open x sig w" "genesis_ok P x sig w"
      "genesis_initialize P now x sig w empty_store = Ret s" by (auto simp: ledger_init_def)
    then have r: "represents s (genesis_view now (genesis_account P) (Open x sig w) (hash P (Open x sig w)))"
      using genesis_initialize_gives [of P now x sig w] by simp
    from goodI [OF r genesis_linv [OF i(2) refl refl] _ i(1,2)] i(1) show ?thesis
      by (simp add: genesis_view_def add_frontier_def)
  qed
  show "good P G t" if "good P G s" "ledger_step P G s t" for s t
    using that(2)
  proof cases
    case (step_process b now ret)
    with process_good [OF that(1)] show ?thesis by blast
  next
    case (step_rollback h now)
    with rollback_good [OF that(1), of h now] show ?thesis by (simp add: returns_def)
  qed
qed

lemma reachable_good: "reachable P G s \<Longrightarrow> good P G s"
  unfolding reachable_def using ledger.inv_reachable by blast

lemma process_returns:
  assumes good: "good P G s" and u: "usable P b"
  shows "\<exists>s' ret. process P now s b = Ret (s', ret)"
proof -
  from good obtain g where g: "represents s (view_of s)" "linv P g (view_of s)" by (rule goodD)
  from process_refined [OF g u, of now] show ?thesis by (auto simp: refined_def returns_def)
qed

lemma reachable_process:
  assumes "reachable P G s" "usable P b" "process P now s b = Ret (s', ret)"
  shows "reachable P G s'"
  using assms step_process [OF assms(2,3)] unfolding reachable_def by (meson rtranclp.rtrancl_into_rtrancl)

lemma reachable_rollback:
  assumes "reachable P G s" "block_exists s h" "h \<noteq> hash P G" "rollback P now s h = Ret s'"
  shows "reachable P G s'"
  using assms step_rollback [OF assms(2-4)] unfolding reachable_def by (meson rtranclp.rtrancl_into_rtrancl)

section \<open>Facts about reachable ledgers\<close>

lemma good_weights:
  assumes good: "good P G s"
  shows "unat (vrep (view_of s) r) =
    msum (\<lambda>i. if rep_of (view_of s) (rep_block i) = r then unat (balance i) else 0) (vacc (view_of s))"
proof -
  let ?v = "view_of s"
  from good obtain g where g: "represents s ?v" "linv P g ?v" by (rule goodD)
  have e: "msum (\<lambda>i. if rep g (head i) = r then unat (balance i) else 0) (vacc ?v) =
    msum (\<lambda>i. if rep_of ?v (rep_block i) = r then unat (balance i) else 0) (vacc ?v)"
  proof (rule msum_cong)
    fix a i assume "vacc ?v a = Some i"
    from accounts_invD(1,4) [OF linvD(4) [OF g(2)] this] head_rep_of(1) [OF g(2)]
    show "(if rep g (head i) = r then unat (balance i) else 0) =
      (if rep_of ?v (rep_block i) = r then unat (balance i) else 0)" by simp
  qed
  have "msum (\<lambda>i. if rep_of ?v (rep_block i) = r then unat (balance i) else 0) (vacc ?v) \<le>
      msum (\<lambda>i. unat (balance i)) (vacc ?v)" by (rule msum_mono) simp
  also have "\<dots> \<le> 2 ^ 128 - 1" using linvD(8) [OF g(2)] by (simp add: supply_inv_def)
  finally have "msum (\<lambda>i. if rep_of ?v (rep_block i) = r then unat (balance i) else 0) (vacc ?v) < 2 ^ 128" by simp
  moreover have "vrep ?v r = of_nat (msum (\<lambda>i. if rep g (head i) = r then unat (balance i) else 0) (vacc ?v))"
    using linvD(7) [OF g(2)] by (simp add: weights_inv_def)
  ultimately show ?thesis unfolding e by (simp add: unat_of_nat take_bit_nat_eq_self)
qed

lemma good_checksum:
  assumes good: "good P G s"
  shows "bit (vcks (view_of s)) n \<longleftrightarrow> odd (card {a. \<exists>i. vacc (view_of s) a = Some i \<and> bit (head i) n})"
proof -
  let ?A = "vacc (view_of s)"
  from good obtain g where g: "represents s (view_of s)" "linv P g (view_of s)" by (rule goodD)
  have "msum (\<lambda>i. of_bool (bit (head i) n)) ?A = card {a \<in> dom ?A. bit (head (the (?A a))) n}"
    unfolding msum_def using finite_view(1) [OF g(1)] by (simp add: sum.If_cases of_bool_def Int_def)
  also have "{a \<in> dom ?A. bit (head (the (?A a))) n} = {a. \<exists>i. ?A a = Some i \<and> bit (head i) n}" by (auto simp: dom_def)
  finally show ?thesis using linvD(9) [OF g(2)] by (simp add: checksum_inv_def)
qed

lemma good_unique:
  assumes "good P G s" "good P G t" "vblk (view_of t) = vblk (view_of s)"
  shows "same_ledger (view_of s) (view_of t)"
proof -
  obtain g where g: "linv P g (view_of s)" using assms(1) by (rule goodD)
  obtain g' where g': "linv P g' (view_of t)" using assms(2) by (rule goodD)
  show ?thesis by (rule ledger_unique [OF g g' assms(3)])
qed

text \<open>
  Equal views are equal tables, byte for byte, as far as the view tells everything about a table: the account
  table apart, whose time stamps are not compared, and the table of weights, in which a missing entry reads like
  an entry zero.
\<close>

definition same_tables :: "block_store \<Rightarrow> block_store \<Rightarrow> bool" where
  "same_tables s t \<longleftrightarrow> send_blocks t = send_blocks s \<and> send_blocks_v2 t = send_blocks_v2 s \<and>
     receive_blocks t = receive_blocks s \<and> open_blocks t = open_blocks s \<and> change_blocks t = change_blocks s \<and>
     frontiers t = frontiers s \<and> pending t = pending s \<and> blocks_info t = blocks_info s \<and>
     fmdom (accounts t) = fmdom (accounts s) \<and> mdb_get 0 (checksums t) = mdb_get 0 (checksums s)"

lemma decoded_lookup:
  assumes c: "codec ser des (\<lambda>_. True)" and t: "values_in ser t"
  shows "fmlookup t k = map_option ser (decode_with des t k)"
proof (cases "fmlookup t k")
  case (Some a)
  then obtain x where "a = ser x" using t by (auto simp: values_in_def)
  with Some codec.des_ser_nil [OF c TrueI] show ?thesis by (simp add: decode_with_def)
qed (simp add: decode_with_def)

lemma decoded_table:
  assumes "codec ser des (\<lambda>_. True)" "values_in ser t" "values_in ser u" "decode_with des t = decode_with des u"
  shows "t = u"
  by (rule fmap_ext) (simp add: decoded_lookup [OF assms(1,2)] decoded_lookup [OF assms(1,3)] assms(4))

lemma block_of_view:
  assumes "vblk (view_of t) = vblk (view_of s)" "vsuc (view_of t) = vsuc (view_of s)"
  shows "block_of t h = block_of s h"
  using fun_cong [OF assms(1), of h] fun_cong [OF assms(2), of h]
  by (cases "block_of t h"; cases "block_of s h") (auto simp: view_of_def)

lemma block_tables_eq:
  assumes "wf_blocks s" "wf_blocks t" "\<And>h. block_of t h = block_of s h"
  shows "block_table ty t = block_table ty s"
proof (rule fmap_ext)
  have sub: "raw y ty h = Some v" if h: "wf_blocks x" "wf_blocks y" "block_of y h = block_of x h" "raw x ty h = Some v" for x y h v
  proof -
    obtain b n where b: "stored x h b n" "type_of_block b = ty" "v = serialize b @ write_be n" using wf_blocksD [OF h(1,4)] by blast
    then have "stored y h b n" using stored_iff_block_of [OF h(1)] stored_iff_block_of [OF h(2)] h(3) by simp
    with b show ?thesis by (simp add: stored_def)
  qed
  show "raw t ty h = raw s ty h" for h
    using sub [OF assms(1,2) assms(3), of h] sub [OF assms(2,1) assms(3) [symmetric], of h]
    by (cases "raw s ty h"; cases "raw t ty h") auto
qed

lemma same_ledger_tables:
  assumes "represents s v" "represents t w" and same: "same_ledger v w"
  shows "same_tables s t"
proof -
  have v: "view_of s = v" "wf_store s" "view_of t = w" "wf_store t" using assms by (simp_all add: represents_def)
  have b: "block_table ty t = block_table ty s" for ty
    using v same by (intro block_tables_eq block_of_view) (simp_all add: wf_store_def same_ledger_def)
  have "frontiers t = frontiers s" using v same
    by (intro decoded_table [OF u256c.codec_axioms]) (auto simp: wf_store_def same_ledger_def view_of_def)
  moreover have "pending t = pending s" using v same
    by (intro decoded_table [OF pending_info_codec.codec_axioms]) (auto simp: wf_store_def same_ledger_def view_of_def)
  moreover have "blocks_info t = blocks_info s" using v same
    by (intro decoded_table [OF block_info_codec.codec_axioms]) (auto simp: wf_store_def same_ledger_def view_of_def)
  moreover have "fmdom (accounts t) = fmdom (accounts s)"
  proof -
    have d: "k |\<in>| fmdom (accounts x) \<longleftrightarrow> vacc (view_of x) k \<noteq> None" if "wf_store x" for x k
      using decoded_lookup [OF account_info_codec.codec_axioms, of "accounts x" k] that
      by (simp add: wf_store_def view_of_def fmlookup_dom_iff)
    have "vacc w k \<noteq> None \<longleftrightarrow> vacc v k \<noteq> None" for k
      using same by (metis (no_types) same_ledger_def option.map_disc_iff)
    then show ?thesis using d [OF v(2)] d [OF v(4)] v by (intro fset_eqI) simp
  qed
  moreover have "mdb_get 0 (checksums t) = mdb_get 0 (checksums s)"
  proof -
    have k: "mdb_get 0 (checksums x) = Some (write_be (vcks (view_of x)))" if "wf_store x" for x
      using that u256c.des_ser_nil [OF TrueI] by (auto simp: wf_store_def has_checksum_def mdb_get_def view_of_def decode_with_def)
    show ?thesis using k [OF v(2)] k [OF v(4)] v same by (simp add: same_ledger_def)
  qed
  ultimately show ?thesis
    using b [of Type_send] b [of Type_send_v2] b [of Type_receive] b [of Type_open] b [of Type_change]
    by (simp add: same_tables_def block_table_def)
qed

text \<open>A block that was just accepted has no dependents.\<close>

lemma fresh_dependents:
  assumes good: "good P G s" "good P G s'" and h: "vblk (view_of s) h = None" "\<not> reserved P h"
    and M: "vblk (view_of s') = (vblk (view_of s))(h \<mapsto> b)"
  shows "(dep (vblk (view_of s')))\<^sup>*\<^sup>* h y \<longleftrightarrow> y = h"
proof
  obtain g where g: "linv P g (view_of s)" using good(1) by (rule goodD)
  obtain g' where g': "linv P g' (view_of s')" using good(2) by (rule goodD)
  have no: "\<not> dep (vblk (view_of s')) h z" for z
  proof
    assume d: "dep (vblk (view_of s')) h z"
    then have "z \<noteq> h" using dep_linv(3) [OF g' d h(2)] by auto
    with d M have "dep (vblk (view_of s)) h z" by (auto simp: dep_def)
    with dep_linv(1) [OF g this h(2)] h(1) show False by simp
  qed
  show "y = h" if "(dep (vblk (view_of s')))\<^sup>*\<^sup>* h y" using that no by (induction rule: rtranclp_induct) auto
qed simp

lemma good_exists: "good P G s \<Longrightarrow> block_exists s h \<longleftrightarrow> vblk (view_of s) h \<noteq> None"
  by (erule goodD) (simp add: get_views)

lemma good_genesis: "good P G s \<Longrightarrow> vblk (view_of s) (hash P G) = Some G"
  by (erule goodD)

end
