(* ===== verification/Ledger_Example.thy ===== *)
theory Ledger_Example
  imports Ledger_Reach
begin

text \<open>
  A small ledger that the properties of reachable ledgers are applied to: the genesis block of account 5,
  a send block to account 7 and the open block of account 7.  The hash function and the signature check
  are simple functions that fulfil the hypotheses of those properties.
\<close>

section \<open>Parameters and blocks\<close>


definition demo_params :: params where
  "demo_params = \<lparr>blake2b = (\<lambda>n bs. replicate 30 0 @ [of_nat (length bs), last bs]), ed25519_sign_open = (\<lambda>_ _ _. 0),
     genesis_account = 5, uninit = (0, 0)\<rparr>"

definition demo_genesis_hashables :: open_hashables where
  "demo_genesis_hashables = \<lparr>open_source = 5, open_representative = 5, open_account = 5\<rparr>"

definition demo_genesis :: block where "demo_genesis = Open demo_genesis_hashables 0 0"

definition demo_send :: block where
  "demo_send = Send \<lparr>send_previous = 24581, send_destination = 7, send_balance = 100\<rparr> 0 0"

definition demo_open :: block where
  "demo_open = Open \<lparr>open_source = 20580, open_representative = 9, open_account = 7\<rparr> 0 0"

definition demo_change :: block where
  "demo_change = Change \<lparr>change_previous = 20580, change_representative = 11\<rparr> 0 0"

lemma demo_hashes:
  "hash demo_params demo_genesis = 24581" "hash demo_params demo_send = 20580" "hash demo_params demo_open = 24583"
  "hash demo_params demo_change = 16395"
  by code_simp+


lemma demo_usable: "usable demo_params demo_send" "usable demo_params demo_open" "usable demo_params demo_change"
  unfolding usable_def demo_hashes by (auto simp: demo_send_def demo_open_def demo_change_def reserved_def demo_params_def)

lemma demo_genesis_ok: "genesis_ok demo_params demo_genesis_hashables 0 0"
  using demo_hashes(1) by (simp add: genesis_ok_def demo_genesis_def demo_genesis_hashables_def reserved_def) 
   (simp add: demo_params_def)

definition demo_view0 :: view where "demo_view0 = genesis_view 0 5 demo_genesis 24581"
definition demo_view1 :: view where "demo_view1 = fst (accept demo_params 0 demo_view0 demo_send)"
definition demo_view2 :: view where "demo_view2 = fst (accept demo_params 0 demo_view1 demo_open)"

lemma demo_valid: "\<not> validate_message demo_params a h sig"
  by (simp add: validate_message_def demo_params_def)

lemma demo_views:
  "demo_view0 = \<lparr>vblk = [24581 \<mapsto> demo_genesis], vsuc = (\<lambda>_. 0),
    vacc = [5 \<mapsto> \<lparr>head = 24581, rep_block = 24581, open_block = 24581, balance = - 1, modified = 0, block_count = 1\<rparr>],
    vfrt = [24581 \<mapsto> 5], vpnd = Map.empty, vbin = Map.empty, vrep = (\<lambda>_. 0)(5 := - 1), vcks = 24581\<rparr>"
  "demo_view1 = \<lparr>vblk = [24581 \<mapsto> demo_genesis, 20580 \<mapsto> demo_send], vsuc = (\<lambda>_. 0)(24581 := 20580),
    vacc = [5 \<mapsto> \<lparr>head = 20580, rep_block = 24581, open_block = 24581, balance = 100, modified = 0, block_count = 2\<rparr>],
    vfrt = [20580 \<mapsto> 5], vpnd = [(7, 20580) \<mapsto> \<lparr>pending_source = 5, pending_amount = - 101\<rparr>],
    vbin = Map.empty, vrep = (\<lambda>_. 0)(5 := 100), vcks = 20580\<rparr>"
proof -
  show "demo_view0 = \<lparr>vblk = [24581 \<mapsto> demo_genesis], vsuc = (\<lambda>_. 0),
    vacc = [5 \<mapsto> \<lparr>head = 24581, rep_block = 24581, open_block = 24581, balance = - 1, modified = 0, block_count = 1\<rparr>],
    vfrt = [24581 \<mapsto> 5], vpnd = Map.empty, vbin = Map.empty, vrep = (\<lambda>_. 0)(5 := - 1), vcks = 24581\<rparr>"
    by (simp add: demo_view0_def genesis_view_def empty_view_def add_frontier_def)
  show "demo_view1 = \<lparr>vblk = [24581 \<mapsto> demo_genesis, 20580 \<mapsto> demo_send], vsuc = (\<lambda>_. 0)(24581 := 20580),
    vacc = [5 \<mapsto> \<lparr>head = 20580, rep_block = 24581, open_block = 24581, balance = 100, modified = 0, block_count = 2\<rparr>],
    vfrt = [20580 \<mapsto> 5], vpnd = [(7, 20580) \<mapsto> \<lparr>pending_source = 5, pending_amount = - 101\<rparr>],
    vbin = Map.empty, vrep = (\<lambda>_. 0)(5 := 100), vcks = 20580\<rparr>"
    using demo_hashes(2)
    by (simp add: demo_view0_def demo_view1_def genesis_view_def empty_view_def accept_send_def transformers
        demo_send_def rep_of_def demo_genesis_def demo_genesis_hashables_def block_info_max_def fun_eq_iff)
qed

lemma demo_decide:
  "decide demo_params demo_view0 demo_send = Progress" "decide demo_params demo_view1 demo_open = Progress"
  using demo_hashes(2,3)
  by (auto simp: demo_views demo_send_def demo_open_def demo_valid burn_account_def)

lemma demo_process:
  assumes r: "reachable demo_params demo_genesis s" "view_of s = v" and u: "usable demo_params b"
    and d: "decide demo_params v b = Progress"
  obtains s' where "process demo_params now s b = Ret (s', snd (accept demo_params now v b))"
    "reachable demo_params demo_genesis s'" "view_of s' = fst (accept demo_params now v b)"
proof -
  note good = reachable_good [OF r(1)]
  obtain s' ret where p: "process demo_params now s b = Ret (s', ret)" using process_returns [OF good u] by blast
  have "(view_of s', ret) = accept demo_params now v b"
    using process_good [OF good u p] r(2) d by (simp add: spec_process_def)
  with p reachable_process [OF r(1) u p] show thesis
    by (intro that [of s']) (auto dest: sym)
qed

text \<open>The three ledgers exist and are reachable.\<close>

lemma demo_run:
  "\<exists>s0 s1 s2. reachable demo_params demo_genesis s0 \<and> view_of s0 = demo_view0 \<and>
     process demo_params 0 s0 demo_send = Ret (s1, snd (accept demo_params 0 demo_view0 demo_send)) \<and>
     reachable demo_params demo_genesis s1 \<and> view_of s1 = demo_view1 \<and>
     process demo_params 0 s1 demo_open = Ret (s2, snd (accept demo_params 0 demo_view1 demo_open)) \<and>
     reachable demo_params demo_genesis s2 \<and> view_of s2 = demo_view2"
proof -
  obtain s0 where s0: "genesis_initialize demo_params 0 demo_genesis_hashables 0 0 empty_store = Ret s0"
    "represents s0 demo_view0"
    using genesis_initialize_gives [of demo_params 0 demo_genesis_hashables 0 0] demo_hashes(1)
    by (auto simp: returns_def demo_view0_def demo_genesis_def) (simp add: demo_params_def)
  then have r0: "reachable demo_params demo_genesis s0" "view_of s0 = demo_view0"
    using demo_genesis_ok unfolding reachable_def ledger_init_def
    by (auto simp: represents_def demo_genesis_def)
  obtain s1 where s1: "process demo_params 0 s0 demo_send = Ret (s1, snd (accept demo_params 0 demo_view0 demo_send))"
    "reachable demo_params demo_genesis s1" "view_of s1 = demo_view1"
    using demo_process [OF r0 demo_usable(1) demo_decide(1), of 0] unfolding demo_view1_def by blast
  obtain s2 where s2: "process demo_params 0 s1 demo_open = Ret (s2, snd (accept demo_params 0 demo_view1 demo_open))"
    "reachable demo_params demo_genesis s2" "view_of s2 = demo_view2"
    using demo_process [OF s1(2,3) demo_usable(2) demo_decide(2), of 0] unfolding demo_view2_def by blast
  from r0 s1 s2 show ?thesis by blast
qed

end
