(* ===== verification/Ledger_Limits.thy ===== *)
theory Ledger_Limits
  imports Ledger_Example
begin

text \<open>
  Where the ledger code does not return: blocks of type send_v2 under the balance visitor and under
  rollback, blocks with representative zero, and the rollback of the genesis block.
\<close>

section \<open>A ledger with a send_v2 block\<close>

definition demo_send_v2 :: block where
  "demo_send_v2 = Send_v2 \<lparr>send_v2_previous = 24581, send_v2_destination = 7, send_v2_action = [1, 2]\<rparr> 0 0"

definition demo_v2_store :: block_store where
  "demo_v2_store = (case genesis_initialize demo_params 0 demo_genesis_hashables 0 0 empty_store of
     Ret s \<Rightarrow> (case process demo_params 0 s demo_send_v2 of Ret (t, _) \<Rightarrow> t | _ \<Rightarrow> s) | _ \<Rightarrow> empty_store)"

definition demo_v2_account :: account_info where
  "demo_v2_account = \<lparr>head = hash demo_params demo_send_v2, rep_block = 24581, open_block = 24581, balance = - 1,
     modified = 0, block_count = 2\<rparr>"

lemma demo_v2_head: "block_get demo_params demo_v2_store (hash demo_params demo_send_v2) = Ret (Some demo_send_v2)"
  by code_simp

lemma demo_v2_facts: "block_exists demo_v2_store 24581" "ledger_account demo_v2_store 24581 = Ret 5"
  "account_get demo_v2_store 5 = Ret (Some demo_v2_account)"
  by code_simp+


section \<open>Blocks of type send_v2\<close>

lemma balance_send_v2_step:
  assumes "block_get P s h = Ret (Some (Send_v2 x sig w))" "h \<noteq> 0"
  shows "balance_compute P s n (h, m) = Diverge"
proof (induction n)
  case (Suc n)
  then show ?case using assms by (cases n) simp_all
qed simp

text \<open>
  C33: The balance visitor never ends on a send_v2 block: however long it runs, it does not leave its loop,
  because the visit of such a block changes neither the current block nor the result.
\<close>

theorem balance_of_send_v2_diverges:
  assumes "block_get P s h = Ret (Some (Send_v2 x sig w))" "h \<noteq> 0"
  shows "\<forall>n. balance_compute P s n (h, 0) = Diverge"
  using balance_send_v2_step [OF assms] by blast

theorem balance_of_send_v2_diverges_witness:
  "block_get demo_params demo_v2_store (hash demo_params demo_send_v2) = Ret (Some demo_send_v2) \<and>
   (\<forall>n. balance_compute demo_params demo_v2_store n (hash demo_params demo_send_v2, 0) = Diverge)"
proof -
  have "hash demo_params demo_send_v2 \<noteq> 0" by code_simp
  with balance_of_send_v2_diverges [OF demo_v2_head [unfolded demo_send_v2_def], folded demo_send_v2_def] demo_v2_head
  show ?thesis by blast
qed

lemma rollback_send_v2_step:
  assumes "block_exists s h" "account_get s a = Ret (Some i)" "block_get P s (head i) = Ret (Some (Send_v2 x sig w))"
  shows "rollback_loop P now n s a h = Diverge"
proof (induction n)
  case (Suc n)
  then show ?case using assms by (cases n) simp_all
qed simp

text \<open>
  C34: \<open>rollback\<close> of a block on an account whose head is a send_v2 block never ends: the visitor leaves the
  head in place and the loop takes the same head again.
\<close>

theorem rollback_below_send_v2_diverges:
  assumes "block_exists s h" "ledger_account s h = Ret a" "account_get s a = Ret (Some i)"
    "block_get P s (head i) = Ret (Some (Send_v2 x sig w))"
  shows "\<forall>n. rollback_rec P now n s h = Diverge"
proof
  fix n show "rollback_rec P now n s h = Diverge"
    using assms rollback_send_v2_step [OF assms(1,3,4)] by (cases n) simp_all
qed

theorem rollback_below_send_v2_diverges_witness:
  "block_exists demo_v2_store 24581 \<and> (\<forall>n. rollback_rec demo_params 0 n demo_v2_store 24581 = Diverge)"
proof -
  have "block_get demo_params demo_v2_store (head demo_v2_account) = Ret (Some demo_send_v2)"
    using demo_v2_head by (simp add: demo_v2_account_def)
  from rollback_below_send_v2_diverges [OF demo_v2_facts this [unfolded demo_send_v2_def], of 0] demo_v2_facts(1)
  show ?thesis by blast
qed

section \<open>Zero representatives\<close>

lemma aborts_bind: "gives m v \<Longrightarrow> (\<And>s. represents s v \<Longrightarrow> f s = Abort) \<Longrightarrow> obind m f = Abort"
  by (auto simp: returns_def)

lemma representation_add_zero:
  "represents s v \<Longrightarrow> vblk v h = Some b \<Longrightarrow> representative b = 0 \<Longrightarrow> representation_add P s h m = Abort"
  by (simp add: representation_add_def get_views)

text \<open>
  C35: An open block with representative zero that passes every check of \<open>process\<close> runs into the assertion
  of \<open>representation_add\<close> instead of being refused.
\<close>

theorem zero_representative_aborts:
  assumes r: "reachable P G s" and d: "decide P (view_of s) (Open x sig w) = Progress"
    and z: "open_representative x = 0" "hash P (Open x sig w) \<noteq> 0"
  shows "process P now s (Open x sig w) = Abort"
proof -
  let ?b = "Open x sig w"
  let ?h = "hash P ?b" and ?v = "view_of s"
  obtain g where g: "represents s ?v" "linv P g ?v" using reachable_good [OF r] by (rule goodD)
  from d obtain q where h: "vblk ?v ?h = None" "vblk ?v (open_source x) \<noteq> None"
    "\<not> validate_message P (open_account x) ?h sig" "vacc ?v (open_account x) = None"
    "vpnd ?v (open_account x, open_source x) = Some q" "open_account x \<noteq> burn_account"
    by (auto split: if_splits)
  obtain j where j: "vacc ?v (pending_source q) = Some j" using pending_source_account [OF g(2) h(5)] by auto
  have ser: "serializable ?b" by (simp add: serializable_def)
  have "obind (pending_del s (open_account x, open_source x)) (\<lambda>s.
      obind (block_put P s ?h ?b 0) (\<lambda>s.
      obind (change_latest P now s (open_account x) ?h ?h (pending_amount q) 1) (\<lambda>s.
      obind (representation_add P s ?h (pending_amount q)) f))) = Abort" for f :: "block_store \<Rightarrow> (block_store \<times> process_return) outcome"
    by (rule aborts_bind, rule del_gives(2) [OF g(1)], (simp add: h; fail),
        rule aborts_bind, rule block_put_gives, assumption, (simp add: transformers ser h z; fail)+,
        rule aborts_bind, rule change_latest_new_gives [where b = ?b], assumption, (simp add: transformers h z; fail)+)
      (simp add: representation_add_zero [where b = ?b] transformers z)
  with h j show ?thesis
    by (simp add: process_open_block_def get_views [OF g(1)] Let_def account_info_default_def)
qed

theorem zero_representative_aborts_witness:
  "\<exists>s. reachable demo_params demo_genesis s \<and> view_of s = demo_view1 \<and>
    process demo_params 0 s (Open \<lparr>open_source = 20580, open_representative = 0, open_account = 7\<rparr> 0 0) = Abort"
proof -
  let ?x = "\<lparr>open_source = 20580, open_representative = 0, open_account = 7\<rparr>"
  obtain s where s: "reachable demo_params demo_genesis s" "view_of s = demo_view1" using demo_run by blast
  have h: "hash demo_params (Open ?x 0 0) = 24583" by code_simp
  have "decide demo_params (view_of s) (Open ?x 0 0) = Progress"
    by (simp add: s(2) h) (simp add: demo_views demo_valid burn_account_def)
  from zero_representative_aborts [OF s(1) this _ _, of 0] h s show ?thesis by auto
qed

section \<open>The genesis block\<close>

lemma fuel_3: "\<exists>n. fuel s = Suc (Suc (Suc n))"
  by (rule exI [of _ "8 * block_counts_sum s + 13"]) (simp add: fuel_def)

text \<open>
  C36: Rolling back the genesis block of a new ledger fails an assertion: the account of its source is asked
  for, and its source is not a block.
\<close>

theorem rollback_genesis_aborts:
  assumes i: "ledger_init P G s"
  shows "rollback P now s (hash P G) = Abort"
proof -
  from i obtain t x sig w where G: "G = Open x sig w" "genesis_ok P x sig w"
    "genesis_initialize P t x sig w empty_store = Ret s" by (auto simp: ledger_init_def)
  let ?h = "hash P G" and ?a = "genesis_account P"
  let ?v = "genesis_view t ?a G ?h" and ?g = "genesis_ghost ?h ?a"
  have g: "represents s ?v" "linv P ?g ?v"
    using genesis_initialize_gives [of P t x sig w] G genesis_linv [OF G(2) refl refl] by simp_all
  have V: "vblk ?v = [?h \<mapsto> G]" "vacc ?v = [?a \<mapsto> \<lparr>head = ?h, rep_block = ?h, open_block = ?h, balance = - 1,
      modified = t, block_count = 1\<rparr>]" by (simp_all add: genesis_view_def add_frontier_def)
  have ok: "open_source x = ?a" "open_representative x = ?a" "?h \<noteq> ?a" "?a \<noteq> 0"
    using G(1,2) by (auto simp: genesis_ok_def reserved_def)
  have ac: "ledger_account s ?h = Ret ?a"
    using ledger_account_own [OF g, of ?h] V by (simp add: genesis_ghost_def)
  have rp: "ledger_representative P s ?h = Ret ?h"
    using ledger_representative_eval [OF g(1) linvD(1) [OF g(2)], of ?h] V by (simp add: genesis_ghost_def)
  obtain n where n: "fuel s = Suc (Suc (Suc n))" using fuel_3 by blast
  have am: "ledger_amount P s ?a = Ret (- 1)"
    using ok V by (simp add: ledger_amount_def n get_views [OF g(1)])
  have ro: "rep_of ?v ?h = ?a" using V ok G(1) by (simp add: rep_of_def)
  have "rollback_open_block P now s x ?h = Abort"
    unfolding rollback_open_block_def ok am ac rp obind.simps
    by (rule aborts_bind, rule representation_add_gives [OF g(1)], (simp add: ro ok; fail),
        rule aborts_bind, rule change_latest_del_gives, assumption, (simp add: transformers V; fail),
        rule aborts_bind, rule del_gives(4), assumption, (simp add: transformers V; fail))
      (use ok in \<open>simp add: ledger_account_def get_views transformers V\<close>)
  then have "rollback_visit P now (Suc n) s G = Abort" using G(1) by simp
  then have "rollback_loop P now (Suc (Suc n)) s ?a ?h = Abort"
    by (subst rollback_loop.simps) (simp add: get_views [OF g(1)] V del: rollback_visit.simps rollback_loop.simps)
  then show ?thesis
    unfolding rollback_def n by (subst rollback_rec.simps) (simp add: get_views [OF g(1)] V ac del: rollback_loop.simps)
qed

theorem rollback_genesis_aborts_witness:
  "\<exists>s. ledger_init demo_params demo_genesis s \<and> rollback demo_params 0 s (hash demo_params demo_genesis) = Abort"
proof -
  obtain s where "genesis_initialize demo_params 0 demo_genesis_hashables 0 0 empty_store = Ret s"
    using genesis_initialize_gives [of demo_params 0 demo_genesis_hashables 0 0] by (auto simp: returns_def)
  then have i: "ledger_init demo_params demo_genesis s"
    using demo_genesis_ok unfolding ledger_init_def demo_genesis_def by blast
  with rollback_genesis_aborts [OF i, of 0] show ?thesis by blast
qed

end
