(* ===== verification/Block_Classes.thy ===== *)
theory Block_Classes
  imports Blocks
begin

text \<open>
  The members of the block classes besides those of \<open>Blocks\<close>: the \<^verbatim>\<open>deserialize\<close> methods, the constructors
  from fields and a key, and the comparison operators of \<^verbatim>\<open>rai/lib/blocks.cpp\<close>.
\<close>

section \<open>Reading into an existing block\<close>

text \<open>
  A failed read is \<open>None\<close>; the fields a failed \<^verbatim>\<open>deserialize\<close> leaves behind are not modelled.  The method of
  \<^verbatim>\<open>send_block_v2\<close> appends to the action \<open>act\<close> the block holds.
\<close>

definition send_block_deserialize :: "byte list \<Rightarrow> (block \<times> byte list) option" where
  "send_block_deserialize s = do {
     (p, s) \<leftarrow> read_be s;
     (d, s) \<leftarrow> read_be s;
     (b, s) \<leftarrow> read_be s;
     (sig, s) \<leftarrow> read_be s;
     (work, s) \<leftarrow> read_le s;
     Some (Send \<lparr>send_previous = p, send_destination = d, send_balance = b\<rparr> sig work, s) }"

definition send_block_v2_deserialize ::
    "byte \<times> byte \<Rightarrow> byte list \<Rightarrow> byte list \<Rightarrow> (block \<times> byte list) option" where
  "send_block_v2_deserialize junk act s = do {
     (p, s) \<leftarrow> read_be s;
     (d, s) \<leftarrow> read_be s;
     (a, s) \<leftarrow> read_bytes junk act s;
     (sig, s) \<leftarrow> read_be s;
     (work, s) \<leftarrow> read_le s;
     Some (Send_v2 \<lparr>send_v2_previous = p, send_v2_destination = d, send_v2_action = a\<rparr> sig work, s) }"

definition open_block_deserialize :: "byte list \<Rightarrow> (block \<times> byte list) option" where
  "open_block_deserialize s = do {
     (src, s) \<leftarrow> read_be s;
     (r, s) \<leftarrow> read_be s;
     (a, s) \<leftarrow> read_be s;
     (sig, s) \<leftarrow> read_be s;
     (work, s) \<leftarrow> read_le s;
     Some (Open \<lparr>open_source = src, open_representative = r, open_account = a\<rparr> sig work, s) }"

definition change_block_deserialize :: "byte list \<Rightarrow> (block \<times> byte list) option" where
  "change_block_deserialize s = do {
     (p, s) \<leftarrow> read_be s;
     (r, s) \<leftarrow> read_be s;
     (sig, s) \<leftarrow> read_be s;
     (work, s) \<leftarrow> read_le s;
     Some (Change \<lparr>change_previous = p, change_representative = r\<rparr> sig work, s) }"

definition receive_block_deserialize :: "byte list \<Rightarrow> (block \<times> byte list) option" where
  "receive_block_deserialize s = do {
     (p, s) \<leftarrow> read_be s;
     (src, s) \<leftarrow> read_be s;
     (sig, s) \<leftarrow> read_be s;
     (work, s) \<leftarrow> read_le s;
     Some (Receive \<lparr>receive_previous = p, receive_source = src\<rparr> sig work, s) }"

text \<open>
  Reading a block into an existing object and constructing it from the stream accept the same bytes and
  give the same block; for a send_v2 block this needs an object without an action, and otherwise the
  action that was there comes first.
\<close>

theorem deserialize_agrees_with_constructor:
  "send_block_deserialize s = send_block_read s \<and> open_block_deserialize s = open_block_read s \<and>
   change_block_deserialize s = change_block_read s \<and> receive_block_deserialize s = receive_block_read s \<and>
   send_block_v2_deserialize junk [] s = send_block_v2_read junk s \<and>
   send_block_v2_deserialize junk act s = map_option (\<lambda>(b, r). (case b of Send_v2 h sig w \<Rightarrow>
     Send_v2 (h\<lparr>send_v2_action := act @ send_v2_action h\<rparr>) sig w | _ \<Rightarrow> b, r)) (send_block_v2_read junk s)"
proof -
  have rb: "read_bytes junk act t = map_option (\<lambda>(a, r). (act @ a, r)) (read_bytes junk [] t)" for t
    by (auto simp: read_bytes_def read_bytes_loop_eq split: prod.split)
  show ?thesis
    by (auto simp: send_block_deserialize_def send_block_read_def send_hashables_read_def
        open_block_deserialize_def open_block_read_def open_hashables_read_def
        change_block_deserialize_def change_block_read_def change_hashables_read_def
        receive_block_deserialize_def receive_block_read_def receive_hashables_read_def
        send_block_v2_deserialize_def send_block_v2_read_def send_hashables_v2_read_def rb
        split: Option.bind_split prod.split)
qed

section \<open>Signed construction\<close>

text \<open>\<open>sign prv pub m\<close> is \<^verbatim>\<open>rai::sign_message\<close>; a block is signed over its hash.\<close>

type_synonym signer = "u256 \<Rightarrow> u256 \<Rightarrow> u256 \<Rightarrow> u512"

definition send_block_make ::
    "signer \<Rightarrow> (nat \<Rightarrow> byte list \<Rightarrow> byte list) \<Rightarrow> u256 \<Rightarrow> u256 \<Rightarrow> u128 \<Rightarrow> u256 \<Rightarrow> u256 \<Rightarrow> u64 \<Rightarrow> block" where
  "send_block_make sign blake previous_a destination_a balance_a prv_a pub_a work_a =
     (let h = \<lparr>send_previous = previous_a, send_destination = destination_a, send_balance = balance_a\<rparr>
      in Send h (sign prv_a pub_a (block_hash blake (Send h 0 0))) work_a)"

definition send_block_v2_make ::
    "signer \<Rightarrow> (nat \<Rightarrow> byte list \<Rightarrow> byte list) \<Rightarrow> u256 \<Rightarrow> u256 \<Rightarrow> byte list \<Rightarrow> u256 \<Rightarrow> u256 \<Rightarrow> u64 \<Rightarrow> block" where
  "send_block_v2_make sign blake previous_a destination_a action_a prv_a pub_a work_a =
     (let h = \<lparr>send_v2_previous = previous_a, send_v2_destination = destination_a, send_v2_action = action_a\<rparr>
      in Send_v2 h (sign prv_a pub_a (block_hash blake (Send_v2 h 0 0))) work_a)"

definition open_block_make ::
    "signer \<Rightarrow> (nat \<Rightarrow> byte list \<Rightarrow> byte list) \<Rightarrow> u256 \<Rightarrow> u256 \<Rightarrow> u256 \<Rightarrow> u256 \<Rightarrow> u256 \<Rightarrow> u64 \<Rightarrow> block outcome" where
  "open_block_make sign blake source_a representative_a account_a prv_a pub_a work_a =
     (let h = \<lparr>open_source = source_a, open_representative = representative_a, open_account = account_a\<rparr>
      in obind (check (representative_a \<noteq> 0)) (\<lambda>_.
         Ret (Open h (sign prv_a pub_a (block_hash blake (Open h 0 0))) work_a)))"

definition open_block_unsigned :: "u256 \<Rightarrow> u256 \<Rightarrow> u256 \<Rightarrow> block" where
  "open_block_unsigned source_a representative_a account_a =
     Open \<lparr>open_source = source_a, open_representative = representative_a, open_account = account_a\<rparr> 0 0"

definition change_block_make ::
    "signer \<Rightarrow> (nat \<Rightarrow> byte list \<Rightarrow> byte list) \<Rightarrow> u256 \<Rightarrow> u256 \<Rightarrow> u256 \<Rightarrow> u256 \<Rightarrow> u64 \<Rightarrow> block" where
  "change_block_make sign blake previous_a representative_a prv_a pub_a work_a =
     (let h = \<lparr>change_previous = previous_a, change_representative = representative_a\<rparr>
      in Change h (sign prv_a pub_a (block_hash blake (Change h 0 0))) work_a)"

definition receive_block_make ::
    "signer \<Rightarrow> (nat \<Rightarrow> byte list \<Rightarrow> byte list) \<Rightarrow> u256 \<Rightarrow> u256 \<Rightarrow> u256 \<Rightarrow> u256 \<Rightarrow> u64 \<Rightarrow> block" where
  "receive_block_make sign blake previous_a source_a prv_a pub_a work_a =
     (let h = \<lparr>receive_previous = previous_a, receive_source = source_a\<rparr>
      in Receive h (sign prv_a pub_a (block_hash blake (Receive h 0 0))) work_a)"

text \<open>The signature and the work are not part of what is hashed.\<close>

lemma block_hash_set [simp]:
  "block_hash blake (signature_set sig b) = block_hash blake b"
  "block_hash blake (block_work_set w b) = block_hash blake b"
  by (cases b; simp add: block_hash_def)+

section \<open>Comparison\<close>

definition send_block_eq :: "send_hashables \<times> u512 \<times> u64 \<Rightarrow> send_hashables \<times> u512 \<times> u64 \<Rightarrow> bool" where
  "send_block_eq = (\<lambda>(h, s, w) (h', s', w').
     send_destination h = send_destination h' \<and> send_previous h = send_previous h' \<and>
     send_balance h = send_balance h' \<and> w = w' \<and> s = s')"

definition send_block_v2_eq :: "send_hashables_v2 \<times> u512 \<times> u64 \<Rightarrow> send_hashables_v2 \<times> u512 \<times> u64 \<Rightarrow> bool" where
  "send_block_v2_eq = (\<lambda>(h, s, w) (h', s', w').
     send_v2_destination h = send_v2_destination h' \<and> send_v2_previous h = send_v2_previous h' \<and>
     send_v2_action h = send_v2_action h' \<and> w = w' \<and> s = s')"

definition open_block_eq :: "open_hashables \<times> u512 \<times> u64 \<Rightarrow> open_hashables \<times> u512 \<times> u64 \<Rightarrow> bool" where
  "open_block_eq = (\<lambda>(h, s, w) (h', s', w').
     open_source h = open_source h' \<and> open_representative h = open_representative h' \<and>
     open_account h = open_account h' \<and> w = w' \<and> s = s')"

definition change_block_eq :: "change_hashables \<times> u512 \<times> u64 \<Rightarrow> change_hashables \<times> u512 \<times> u64 \<Rightarrow> bool" where
  "change_block_eq = (\<lambda>(h, s, w) (h', s', w').
     change_previous h = change_previous h' \<and> change_representative h = change_representative h' \<and> w = w' \<and> s = s')"

definition receive_block_eq :: "receive_hashables \<times> u512 \<times> u64 \<Rightarrow> receive_hashables \<times> u512 \<times> u64 \<Rightarrow> bool" where
  "receive_block_eq = (\<lambda>(h, s, w) (h', s', w').
     receive_previous h = receive_previous h' \<and> receive_source h = receive_source h' \<and> w = w' \<and> s = s')"

text \<open>The comparison of the abstract class: a dynamic cast to the own class, then the comparison above.\<close>

fun block_eq :: "block \<Rightarrow> block \<Rightarrow> bool" where
  "block_eq (Send h s w) other = (case other of Send h' s' w' \<Rightarrow> send_block_eq (h, s, w) (h', s', w') | _ \<Rightarrow> False)"
| "block_eq (Send_v2 h s w) other = (case other of Send_v2 h' s' w' \<Rightarrow> send_block_v2_eq (h, s, w) (h', s', w') | _ \<Rightarrow> False)"
| "block_eq (Open h s w) other = (case other of Open h' s' w' \<Rightarrow> open_block_eq (h, s, w) (h', s', w') | _ \<Rightarrow> False)"
| "block_eq (Change h s w) other = (case other of Change h' s' w' \<Rightarrow> change_block_eq (h, s, w) (h', s', w') | _ \<Rightarrow> False)"
| "block_eq (Receive h s w) other = (case other of Receive h' s' w' \<Rightarrow> receive_block_eq (h, s, w) (h', s', w') | _ \<Rightarrow> False)"

lemma block_eq_iff [simp]: "block_eq b c \<longleftrightarrow> b = c"
  by (cases b; cases c)
    (auto simp: send_block_eq_def send_block_v2_eq_def open_block_eq_def change_block_eq_def receive_block_eq_def
      intro: send_hashables.equality send_hashables_v2.equality open_hashables.equality change_hashables.equality
        receive_hashables.equality)

text \<open>
  The comparison operators of the block classes decide equality of blocks: two blocks compare equal if and
  only if they have the same class, the same fields, the same signature and the same work.
\<close>

theorem block_eq_is_equality: "block_eq b c \<longleftrightarrow> b = c"
  by (rule block_eq_iff)

end
