(* ===== verification/Numbers.thy ===== *)
theory Numbers
  imports Codec
begin

text \<open>
  The number types of \<^verbatim>\<open>rai/lib/numbers.cpp\<close>: conversion between the byte arrays and the numbers, and
  the textual forms.

  The byte array of a union is a list of bytes; a number is a word of its width.  Extraction and
  insertion of numbers on string streams are those of Boost.Multiprecision and are arguments of the
  definitions (\<open>multiprecision\<close>); what is documented of them is \<open>multiprecision_ok\<close>.  BLAKE2b is the
  argument \<open>blake\<close>, from a digest size and a message to the digest.
\<close>

section \<open>Bytes and numbers\<close>

text \<open>
  The constructor from a number fills the array from its end; \<open>acc\<close> is the part filled already.
  \<open>number_loop\<close> is the loop of \<^verbatim>\<open>number\<close> on \<^verbatim>\<open>result\<close> and \<^verbatim>\<open>shift\<close>.
\<close>

fun bytes_loop :: "nat \<Rightarrow> 'a::len word \<Rightarrow> byte list \<Rightarrow> byte list" where
  "bytes_loop 0 number_l acc = acc"
| "bytes_loop (Suc n) number_l acc = bytes_loop n (drop_bit 8 number_l) (ucast (number_l AND 255) # acc)"

fun number_loop :: "byte list \<Rightarrow> 'a::len word \<Rightarrow> nat \<Rightarrow> 'a word" where
  "number_loop [] result shift = result"
| "number_loop (i # bytes) result shift = number_loop bytes (push_bit shift result OR ucast i) 8"

definition uint256_union_of :: "u256 \<Rightarrow> byte list" where
  "uint256_union_of number_a = bytes_loop 32 number_a []"

definition uint256_number :: "byte list \<Rightarrow> u256" where
  "uint256_number bytes = number_loop bytes 0 0"

definition uint512_union_of :: "u512 \<Rightarrow> byte list" where
  "uint512_union_of number_a = bytes_loop 64 number_a []"

definition uint512_number :: "byte list \<Rightarrow> u512" where
  "uint512_number bytes = number_loop bytes 0 0"

definition uint128_union_of :: "u128 \<Rightarrow> byte list" where
  "uint128_union_of number_a = bytes_loop 16 number_a []"

definition uint128_number :: "byte list \<Rightarrow> u128" where
  "uint128_number bytes = number_loop bytes 0 0"

lemma and_255: "w AND 255 = take_bit 8 (w :: 'a::len word)"
  by (simp add: take_bit_eq_mask mask_eq_exp_minus_1)

lemma bytes_loop_eq: "bytes_loop n w acc = be_bytes n w @ acc"
proof (induction n arbitrary: w acc)
  case (Suc n)
  have "ucast (w AND 255) = (ucast w :: byte)"
    unfolding and_255 by (intro bit_word_eqI) (auto simp: bit_simps)
  with Suc show ?case by (simp add: be_bytes_def)
qed (simp add: be_bytes_def)

lemma of_le_bytes_snoc:
  "of_le_bytes (bs @ [b]) = (of_le_bytes bs OR push_bit (8 * length bs) (ucast b) :: 'a::len word)"
  by (induction bs) (simp_all add: push_bit_or or.assoc add.commute)

lemma number_loop_eq:
  "number_loop bs r 8 = (push_bit (8 * length bs) r OR of_be_bytes bs :: 'a::len word)"
proof (induction bs arbitrary: r)
  case (Cons b bs)
  then show ?case
    by (simp add: of_be_bytes_def of_le_bytes_snoc push_bit_or or.assoc add.commute
        or.commute [of "of_le_bytes (rev bs)"])
qed (simp add: of_be_bytes_def)

lemma number_loop_start: "number_loop bs 0 0 = (of_be_bytes bs :: 'a::len word)"
  by (cases bs) (simp_all add: number_loop_eq of_be_bytes_def of_le_bytes_snoc or.commute)


text \<open>
  A union and its number are the same information: converting a number to bytes and back gives the
  number, converting an array of the right size to a number and back gives the array, for all three
  widths; and the bytes are the big-endian ones the streams use.
\<close>

theorem number_roundtrip:
  assumes "length x = 32" "length y = 64" "length z = 16"
  shows "uint256_number (uint256_union_of a) = a \<and> uint256_union_of (uint256_number x) = x \<and> uint256_union_of a = write_be a \<and>
    uint512_number (uint512_union_of b) = b \<and> uint512_union_of (uint512_number y) = y \<and> uint512_union_of b = write_be b \<and>
    uint128_number (uint128_union_of c) = c \<and> uint128_union_of (uint128_number z) = z \<and> uint128_union_of c = write_be c"
  using assms be_bytes_of_be_bytes [of x, where 'a = 256] be_bytes_of_be_bytes [of y, where 'a = 512]
    be_bytes_of_be_bytes [of z, where 'a = 128]
  by (simp add: uint256_union_of_def uint256_number_def uint512_union_of_def uint512_number_def
      uint128_union_of_def uint128_number_def bytes_loop_eq number_loop_start of_be_bytes_be_bytes write_be_def)

theorem number_roundtrip_witness:
  "uint256_union_of (uint256_number (replicate 31 7 @ [1])) = replicate 31 7 @ [1] \<and>
   uint512_union_of (uint512_number (replicate 64 9)) = replicate 64 9 \<and>
   uint128_union_of (uint128_number (replicate 16 255)) = replicate 16 255"
  using number_roundtrip [of "replicate 31 7 @ [1]" "replicate 64 9" "replicate 16 255" 0 0 0] by simp

section \<open>Accounts as text\<close>

text \<open>
  Lookups in the tables of the anonymous namespace.  A \<^verbatim>\<open>char const *\<close> can be read up to its terminating
  null character.
\<close>

definition c_index :: "string \<Rightarrow> nat \<Rightarrow> char outcome" where
  "c_index s i = (if i < length s then Ret (s ! i) else if i = length s then Ret (char_of (0 :: nat)) else Abort)"

definition base58_reverse :: string where
  "base58_reverse = ''~012345678~~~~~~~9:;<=>?@~ABCDE~FGHIJKLMNOP~~~~~~QRSTUVWXYZ[~'' @ [CHR 0x5C] @ '']^_'' @ [CHR 0x60] @ ''abcdefghi''"

definition account_lookup :: string where
  "account_lookup = ''13456789abcdefghijkmnopqrstuwxyz''"

definition account_reverse :: string where
  "account_reverse = ''~0~1234567~~~~~~~~~~~~~~~~~~~~~~~~~~~~~~~~~~~~~~~89:;<=>?@AB~CDEFGHIJK~LMNO~~~~~''"

definition base58_decode :: "byte \<Rightarrow> byte outcome" where
  "base58_decode v =
     obind (check (48 \<le> v)) (\<lambda>_. obind (check (v \<le> 126)) (\<lambda>_.
     obind (c_index base58_reverse (unat v - 48)) (\<lambda>c. Ret (of_char c - 48))))"

definition account_encode :: "byte \<Rightarrow> char outcome" where
  "account_encode v = obind (check (v < 32)) (\<lambda>_. c_index account_lookup (unat v))"

definition account_decode :: "byte \<Rightarrow> byte outcome" where
  "account_decode v =
     obind (check (48 \<le> v)) (\<lambda>_. obind (check (v \<le> 126)) (\<lambda>_.
     obind (c_index account_reverse (unat v - 48)) (\<lambda>c. Ret (of_char c - 48))))"

text \<open>\<open>encode_account\<close>: the loop pushes the digits, least significant first, and the text is reversed.\<close>

fun encode_account_loop :: "nat \<Rightarrow> u512 \<Rightarrow> string \<Rightarrow> string outcome" where
  "encode_account_loop 0 number_l destination_a = Ret destination_a"
| "encode_account_loop (Suc i) number_l destination_a =
     obind (account_encode (ucast number_l AND 31)) (\<lambda>c.
     encode_account_loop i (drop_bit 5 number_l) (destination_a @ [c]))"

definition encode_account :: "(nat \<Rightarrow> byte list \<Rightarrow> byte list) \<Rightarrow> u256 \<Rightarrow> string outcome" where
  "encode_account blake a =
     (let chk = (of_le_bytes (take 5 (blake 5 (uint256_union_of a))) :: u64);
          number_l = (push_bit 40 (ucast a) OR ucast chk :: u512)
      in obind (encode_account_loop 60 number_l []) (\<lambda>destination_a.
         Ret (rev (destination_a @ ''_brx''))))"

definition to_account :: "(nat \<Rightarrow> byte list \<Rightarrow> byte list) \<Rightarrow> u256 \<Rightarrow> string outcome" where
  "to_account blake a = encode_account blake a"

definition to_account_split :: "(nat \<Rightarrow> byte list \<Rightarrow> byte list) \<Rightarrow> u256 \<Rightarrow> string outcome" where
  "to_account_split blake a =
     obind (to_account blake a) (\<lambda>result.
     obind (check (length result = 64)) (\<lambda>_.
     Ret (take 32 result @ [CHR 0x0A] @ drop 32 result)))"

text \<open>
  The decoders return the error flag and the new value of the object; \<open>old\<close> is its value before.
\<close>

fun decode_v1_loop :: "string \<Rightarrow> u512 \<Rightarrow> u512 option outcome" where
  "decode_v1_loop [] number_l = Ret (Some number_l)"
| "decode_v1_loop (i # is) number_l =
     (let character = (of_char i :: byte) in
      if character < 48 \<or> 128 \<le> character then Ret None
      else obind (base58_decode character) (\<lambda>b.
        if b = 126 then Ret None else decode_v1_loop is (number_l * 58 + ucast b)))"

definition decode_account_v1 ::
    "(nat \<Rightarrow> byte list \<Rightarrow> byte list) \<Rightarrow> u256 \<Rightarrow> string \<Rightarrow> (bool \<times> u256) outcome" where
  "decode_account_v1 blake old source_a =
     (if length source_a \<noteq> 50 then Ret (True, old)
      else obind (decode_v1_loop source_a 0) (\<lambda>r.
        (case r of
           None \<Rightarrow> Ret (True, old)
         | Some number_l \<Rightarrow>
             (let this = (ucast number_l :: u256); chk = (ucast (drop_bit 256 number_l) :: u32) in
              if drop_bit 288 number_l \<noteq> 13 then Ret (True, this)
              else
                (let validation = (of_le_bytes (take 4 (blake 4 (uint256_union_of this))) :: u32) in
                 Ret (chk \<noteq> validation, this))))))"

fun decode_account_loop :: "string \<Rightarrow> u512 \<Rightarrow> u512 option outcome" where
  "decode_account_loop [] number_l = Ret (Some number_l)"
| "decode_account_loop (i # is) number_l =
     (let character = (of_char i :: byte) in
      if character < 48 \<or> 128 \<le> character then Ret None
      else obind (account_decode character) (\<lambda>b.
        if b = 126 then Ret None else decode_account_loop is (push_bit 5 number_l + ucast b)))"

definition decode_account ::
    "(nat \<Rightarrow> byte list \<Rightarrow> byte list) \<Rightarrow> u256 \<Rightarrow> string \<Rightarrow> (bool \<times> u256) outcome" where
  "decode_account blake old source_a =
     (if length source_a = 64 then
        if source_a ! 0 = CHR ''x'' \<and> source_a ! 1 = CHR ''r'' \<and> source_a ! 2 = CHR ''b'' \<and>
           (source_a ! 3 = CHR ''_'' \<or> source_a ! 3 = CHR ''-'')
        then obind (decode_account_loop (drop 4 source_a) 0) (\<lambda>r.
          (case r of
             None \<Rightarrow> Ret (True, old)
           | Some number_l \<Rightarrow>
               (let this = (ucast (drop_bit 40 number_l) :: u256);
                    chk = (ucast number_l AND 0xffffffffff :: u64);
                    validation = (of_le_bytes (take 5 (blake 5 (uint256_union_of this))) :: u64)
                in Ret (chk \<noteq> validation, this))))
        else Ret (True, old)
      else decode_account_v1 blake old source_a)"


definition digit_char :: "byte \<Rightarrow> char" where
  "digit_char d = account_lookup ! unat d"

fun digits :: "nat \<Rightarrow> u512 \<Rightarrow> byte list" where
  "digits 0 n = []"
| "digits (Suc k) n = (ucast n AND 31) # digits k (drop_bit 5 n)"

lemma and_31: "w AND 31 = take_bit 5 (w :: 'a::len word)"
  by (simp add: take_bit_eq_mask mask_eq_exp_minus_1)

lemma and_31_less: "(w :: byte) AND 31 < 32"
  unfolding and_31 by (simp add: word_less_nat_alt take_bit_eq_mod unat_mod_distrib)

lemma account_encode_digit: "d < 32 \<Longrightarrow> account_encode d = Ret (digit_char d)"
  by (simp add: account_encode_def c_index_def digit_char_def account_lookup_def word_less_nat_alt)

text \<open>The tables are inverse to each other.\<close>

lemma account_tables:
  "\<forall>n < 32. of_char (account_lookup ! n) \<ge> (48 :: byte) \<and> of_char (account_lookup ! n) < (127 :: byte) \<and>
     account_decode (of_char (account_lookup ! n)) = Ret (of_nat n)"
  by code_simp

lemma account_decode_digit:
  assumes "d < 32"
  shows "account_decode (of_char (digit_char d)) = Ret d" "48 \<le> (of_char (digit_char d) :: byte)"
    "(of_char (digit_char d) :: byte) < 128"
proof -
  have n: "unat d < 32" using assms by (simp add: word_less_nat_alt)
  from account_tables n have *: "48 \<le> (of_char (digit_char d) :: byte)" "of_char (digit_char d) < (127 :: byte)"
    "account_decode (of_char (digit_char d)) = Ret (of_nat (unat d))" unfolding digit_char_def by blast+
  then show "account_decode (of_char (digit_char d)) = Ret d" "48 \<le> (of_char (digit_char d) :: byte)" by simp_all
  have "(127 :: byte) < 128" by simp
  with *(2) show "(of_char (digit_char d) :: byte) < 128" by (rule less_trans)
qed

lemma encode_account_loop_eq:
  "encode_account_loop k n dest = Ret (dest @ map digit_char (digits k n))"
  by (induction k arbitrary: n dest) (simp_all add: account_encode_digit and_31_less)

lemma decode_loop_digit:
  assumes "d < 32"
  shows "decode_account_loop (digit_char d # cs) n = decode_account_loop cs (push_bit 5 n + ucast d)"
proof -
  have "d \<noteq> 126" using assms by (auto simp: word_less_nat_alt)
  moreover have "\<not> ((of_char (digit_char d) :: byte) < 48 \<or> 128 \<le> (of_char (digit_char d) :: byte))"
    using account_decode_digit(2,3) [OF assms] by (meson linorder_not_less)
  ultimately show ?thesis using account_decode_digit(1) [OF assms] by (simp del: de_Morgan_disj)
qed

lemma push_digit:
  "push_bit 5 (take_bit m (drop_bit 5 n)) + ucast (ucast n AND 31 :: byte) = take_bit (m + 5) (n :: u512)"
proof -
  have "push_bit 5 (take_bit m (drop_bit 5 n)) + ucast (ucast n AND 31 :: byte) =
      push_bit 5 (take_bit m (drop_bit 5 n)) OR ucast (ucast n AND 31 :: byte)"
    unfolding and_31 by (rule disjunctive_add) (auto simp: bit_simps)
  also have "\<dots> = take_bit (m + 5) n"
    unfolding and_31 by (rule bit_word_eqI) (auto simp: bit_simps)
  finally show ?thesis .
qed

lemma decode_digits:
  "decode_account_loop (map digit_char (rev (digits k n)) @ cs) m =
   decode_account_loop cs (push_bit (5 * k) m + take_bit (5 * k) n)"
proof (induction k arbitrary: n m cs)
  case (Suc k)
  show ?case
    by (simp add: Suc.IH decode_loop_digit and_31_less push_bit_add add.assoc push_digit add.commute [of 5]
        del: decode_account_loop.simps)
qed simp


lemma length_digits [simp]: "length (digits k n) = k"
  by (induction k arbitrary: n) simp_all

lemma check_bits: "length bs = 5 \<Longrightarrow> bit (of_le_bytes bs :: u64) k \<Longrightarrow> k < 40"
  using bit_of_le_bytes_less [of bs k, where 'a = 64] by simp

lemma account_number:
  fixes a :: u256 and c :: u64
  assumes c: "\<And>k. bit c k \<Longrightarrow> k < 40"
  defines "n \<equiv> push_bit 40 (ucast a) OR ucast c :: u512"
  shows "take_bit 300 n = n" "ucast (drop_bit 40 n) = a" "ucast n AND 0xffffffffff = c"
proof -
  have m: "(0xffffffffff :: u64) = mask 40" by (simp add: mask_eq_exp_minus_1)
  show "take_bit 300 n = n" unfolding n_def
    by (rule bit_word_eqI) (auto simp: bit_simps dest: c bit_imp_le_length)
  show "ucast (drop_bit 40 n) = a" unfolding n_def
    by (rule bit_word_eqI) (auto simp: bit_simps dest: c)
  show "ucast n AND 0xffffffffff = c" unfolding n_def m
    by (rule bit_word_eqI) (auto simp: bit_simps dest: c)
qed

lemma account_text:
  assumes blake: "\<And>bs. length (blake 5 bs) = 5"
  shows "\<exists>t. encode_account blake a = Ret t \<and> length t = 64 \<and> take 3 t = ''xrb'' \<and>
    decode_account blake old t = Ret (False, a)"
proof -
  define c where "c = (of_le_bytes (take 5 (blake 5 (uint256_union_of a))) :: u64)"
  define n where "n = (push_bit 40 (ucast a) OR ucast c :: u512)"
  define t where "t = ''xrb_'' @ map digit_char (rev (digits 60 n))"
  note N = account_number [of c a, folded n_def]
  have c40: "bit c k \<Longrightarrow> k < 40" for k unfolding c_def by (rule check_bits) (simp_all add: blake)
  have e: "encode_account blake a = Ret t"
    by (simp add: encode_account_def encode_account_loop_eq Let_def c_def [symmetric] n_def [symmetric] t_def rev_map
        del: encode_account_loop.simps digits.simps)
  have l: "length t = 64" by (simp add: t_def)
  have d: "decode_account_loop (drop 4 t) 0 = Ret (Some n)"
    using decode_digits [of 60 n "[]" 0] N(1) [OF c40] by (simp add: t_def del: digits.simps)
  have "decode_account blake old t = Ret (False, a)"
    unfolding decode_account_def d using l N(2,3) [OF c40]
    by (simp add: t_def c_def [symmetric] Let_def del: digits.simps)
  moreover have "take 3 t = ''xrb''" by (simp add: t_def)
  ultimately show ?thesis using e l by blast
qed

text \<open>
  C28: The text of an account reads back as the account: encoding returns 64 characters and decoding them
  succeeds with the same account, whatever the object held before.
\<close>

theorem account_roundtrip:
  assumes blake: "\<And>bs. length (blake 5 bs) = 5"
  shows "\<exists>t. encode_account blake a = Ret t \<and> length t = 64 \<and> decode_account blake old t = Ret (False, a)"
  using account_text [of blake a old] blake by blast

theorem account_roundtrip_witness:
  "\<exists>t. encode_account (\<lambda>n bs. replicate n 7) 12345 = Ret t \<and> length t = 64 \<and>
    decode_account (\<lambda>n bs. replicate n 7) 0 t = Ret (False, 12345)"
  using account_roundtrip [of "\<lambda>n bs. replicate n 7" 12345 0] by simp

lemma decode_account_loop_append:
  "decode_account_loop (xs @ ys) n = obind (decode_account_loop xs n) (\<lambda>r.
     case r of None \<Rightarrow> Ret None | Some m \<Rightarrow> decode_account_loop ys m)"
  by (induction xs arbitrary: n) (auto simp: Let_def obind_assoc intro!: obind_cong)

lemma decode_v: "decode_account_loop (CHR ''v'' # cs) n = decode_account_loop cs (push_bit 5 n + 78)"
proof -
  have "account_decode 118 = Ret 78" by code_simp
  then show ?thesis by simp
qed

text \<open>
  The check for characters outside the alphabet never fires: the letter v, which no account text
  contains, is read as the digit 78, so that every text with a digit of at least 2 followed by the digit
  14 has a second spelling with a v that is decoded in the same way.
\<close>

theorem account_text_with_foreign_letter:
  assumes x: "2 \<le> x" "x < 32" and l: "length xs + length ys = 58"
  shows "CHR ''v'' \<notin> set account_lookup \<and>
    decode_account blake old (''xrb_'' @ xs @ [digit_char (x - 2), CHR ''v''] @ ys) =
    decode_account blake old (''xrb_'' @ xs @ [digit_char x, digit_char 14] @ ys)"
proof -
  have lt: "x - 2 < 32" "(14 :: byte) < 32" using x by (auto simp: word_less_nat_alt word_le_nat_alt unat_sub)
  have "(ucast (x - 2) :: u512) = of_nat (unat (x - 2))" by (simp only: of_nat_unat)
  also have "unat (x - 2) = unat x - 2" using x(1) by (simp add: unat_sub)
  also have "(of_nat (unat x - 2) :: u512) = of_nat (unat x) - 2"
    using x(1) by (subst of_nat_diff) (simp_all add: word_le_nat_alt)
  finally have u: "(ucast (x - 2) :: u512) = ucast x - 2" by (simp only: of_nat_unat)
  have e: "push_bit 5 (push_bit 5 m + ucast (x - 2)) + 78 = push_bit 5 (push_bit 5 m + ucast x) + (14 :: u512)" for m
    unfolding u by (simp add: push_bit_eq_mult algebra_simps)
  have uc: "(ucast (14 :: byte) :: u512) = 14" by simp
  have "decode_account_loop (digit_char (x - 2) # CHR ''v'' # ys) m =
      decode_account_loop (digit_char x # digit_char 14 # ys) m" for m
    by (simp only: decode_loop_digit [OF lt(1)] decode_loop_digit [OF lt(2)] decode_loop_digit [OF x(2)] decode_v uc e)
  then have "decode_account_loop (digit_char (x - 2) # CHR ''v'' # ys) = decode_account_loop (digit_char x # digit_char 14 # ys)"
    by (rule ext)
  then have "decode_account_loop (xs @ [digit_char (x - 2), CHR ''v''] @ ys) 0 =
      decode_account_loop (xs @ [digit_char x, digit_char 14] @ ys) 0"
    unfolding decode_account_loop_append [of xs] by (simp del: decode_account_loop.simps)
  then have "decode_account blake old (''xrb_'' @ xs @ [digit_char (x - 2), CHR ''v''] @ ys) =
    decode_account blake old (''xrb_'' @ xs @ [digit_char x, digit_char 14] @ ys)"
    using l by (simp add: decode_account_def del: decode_account_loop.simps)
  then show ?thesis by (simp add: account_lookup_def)
qed

theorem account_text_with_foreign_letter_witness:
  "decode_account (\<lambda>n bs. replicate n 7) 0 (''xrb_'' @ replicate 58 CHR ''1'' @ [CHR ''1'', CHR ''v'']) =
   decode_account (\<lambda>n bs. replicate n 7) 0 (''xrb_'' @ replicate 58 CHR ''1'' @ [CHR ''4'', CHR ''g''])"
proof -
  have d: "digit_char (2 - 2) = CHR ''1''" "digit_char 2 = CHR ''4''" "digit_char 14 = CHR ''g''"
    by (simp_all add: digit_char_def account_lookup_def)
  have "(2 :: byte) \<le> 2" "(2 :: byte) < 32" "length (replicate 58 CHR ''1'') + length ([] :: string) = 58"
    by simp_all
  from account_text_with_foreign_letter [OF this, of "\<lambda>n bs. replicate n 7" 0]
  show ?thesis unfolding d append_Nil2 by (rule conjunct2)
qed

section \<open>Keys from a seed\<close>

text \<open>The index is hashed as the last four bytes of the 256-bit union made from it.\<close>

definition deterministic_key :: "(nat \<Rightarrow> byte list \<Rightarrow> byte list) \<Rightarrow> u256 \<Rightarrow> u32 \<Rightarrow> u256" where
  "deterministic_key blake seed_a index_a =
     uint256_number (blake 32 (uint256_union_of seed_a @ drop 28 (uint256_union_of (ucast index_a))))"

section \<open>Numerals\<close>

definition hex_digit :: "nat \<Rightarrow> char" where
  "hex_digit n = ''0123456789abcdef'' ! n"

definition hex_digit_value :: "char \<Rightarrow> nat option" where
  "hex_digit_value c =
     (let n = (of_char c :: nat) in
      if 48 \<le> n \<and> n \<le> 57 then Some (n - 48)
      else if 97 \<le> n \<and> n \<le> 102 then Some (n - 87)
      else if 65 \<le> n \<and> n \<le> 70 then Some (n - 55)
      else None)"

text \<open>\<open>numeral_text b n\<close>: the digits of \<open>n\<close> in base \<open>b\<close>, without leading zeros, zero as a single digit.\<close>

function numeral_text :: "nat \<Rightarrow> nat \<Rightarrow> string" where
  "numeral_text b n = (if n < b \<or> b < 2 then [hex_digit n] else numeral_text b (n div b) @ [hex_digit (n mod b)])"
  by pat_completeness auto
termination
  by (relation "measure snd") (auto intro: div_less_dividend)

declare numeral_text.simps [simp del]

definition numeral_value :: "nat \<Rightarrow> string \<Rightarrow> nat" where
  "numeral_value b t = foldl (\<lambda>a c. a * b + the (hex_digit_value c)) 0 t"

definition padded :: "nat \<Rightarrow> string \<Rightarrow> string" where
  "padded w t = replicate (w - length t) CHR ''0'' @ t"

lemma hex_digits: "\<forall>n < 16. hex_digit_value (hex_digit n) = Some n"
  by code_simp

lemma hex_digit_value [simp]: "n < 16 \<Longrightarrow> hex_digit_value (hex_digit n) = Some n"
  using hex_digits by blast

lemma numeral_value_snoc [simp]: "numeral_value b (t @ [c]) = numeral_value b t * b + the (hex_digit_value c)"
  by (simp add: numeral_value_def)

lemma numeral_value_text:
  assumes "2 \<le> b" "b \<le> 16"
  shows "numeral_value b (numeral_text b n) = n"
proof (induction n rule: less_induct)
  case (less n)
  show ?case
  proof (cases "n < b")
    case True
    with assms show ?thesis by (subst numeral_text.simps) (simp add: numeral_value_def)
  next
    case False
    moreover have "n mod b < 16" using assms by (intro less_le_trans [OF mod_less_divisor]) auto
    moreover have "n div b < n" using False assms by (intro div_less_dividend) auto
    ultimately show ?thesis using assms less by (subst numeral_text.simps) simp
  qed
qed

lemma numeral_text_digits:
  assumes "2 \<le> b" "b \<le> 16"
  shows "c \<in> set (numeral_text b n) \<Longrightarrow> \<exists>d < b. c = hex_digit d"
proof (induction n rule: less_induct)
  case (less n)
  have n: "numeral_text b n = (if n < b then [hex_digit n] else numeral_text b (n div b) @ [hex_digit (n mod b)])"
    using assms by (subst numeral_text.simps) simp
  show ?case
  proof (cases "n < b")
    case False
    moreover have "n div b < n" using False assms by (intro div_less_dividend) auto
    moreover have "n mod b < b" using assms by simp
    ultimately show ?thesis using less unfolding n by auto
  qed (use less(2) in \<open>auto simp: n\<close>)
qed

lemma numeral_text_length:
  assumes "2 \<le> b"
  shows "n < b ^ k \<Longrightarrow> 0 < k \<Longrightarrow> length (numeral_text b n) \<le> k"
proof (induction k arbitrary: n)
  case (Suc k)
  show ?case
  proof (cases "n < b")
    case True
    then show ?thesis by (subst numeral_text.simps) simp
  next
    case False
    then have k: "0 < k" using Suc.prems by (cases k) auto
    have "n div b < b ^ k" using Suc.prems(1) assms by (simp add: less_mult_imp_div_less mult.commute)
    from Suc.IH [OF this k] False assms show ?thesis by (subst numeral_text.simps) simp
  qed
qed simp

lemma numeral_text_nonempty [simp]: "numeral_text b n \<noteq> []"
  by (subst numeral_text.simps) simp

lemma numeral_value_replicate: "numeral_value b (replicate k CHR ''0'' @ t) = numeral_value b t"
proof -
  have "hex_digit_value CHR ''0'' = Some 0" by code_simp
  then have "foldl (\<lambda>a c. a * b + the (hex_digit_value c)) 0 (replicate k CHR ''0'') = 0" by (induction k) auto
  then show ?thesis by (simp add: numeral_value_def)
qed

lemma length_padded: "length t \<le> w \<Longrightarrow> length (padded w t) = w"
  by (simp add: padded_def)

lemma numeral_value_padded [simp]: "numeral_value b (padded w t) = numeral_value b t"
  by (simp add: padded_def numeral_value_replicate)

section \<open>Hexadecimal and decimal text\<close>

text \<open>
  Insertion of a number into a string stream, with a field width and the fill character 0, and extraction
  of a number of a given width: it throws, or it leaves a number and tells whether the end of the stream
  was reached.
\<close>

datatype extraction = Throws | Extracts nat bool

record multiprecision =
  put_hex :: "nat \<Rightarrow> nat \<Rightarrow> string"
  get_hex :: "nat \<Rightarrow> string \<Rightarrow> extraction"
  put_dec :: "nat \<Rightarrow> string"
  get_dec :: "nat \<Rightarrow> string \<Rightarrow> extraction"

definition digits_of :: "nat \<Rightarrow> string \<Rightarrow> bool" where
  "digits_of b t \<longleftrightarrow> t \<noteq> [] \<and> list_all (\<lambda>c. case hex_digit_value c of None \<Rightarrow> False | Some d \<Rightarrow> d < b) t"

text \<open>
  Two texts have the same digits when they differ at most in the case of the letters among them.  Inserted
  in hexadecimal, a number is its digits, in upper or in lower case, after the fill characters.  What is
  asked of the extraction of a decimal number is only asked of numerals without a leading zero (a leading
  zero makes the library read the text in base eight).
\<close>

definition same_digits :: "string \<Rightarrow> string \<Rightarrow> bool" where
  "same_digits t u \<longleftrightarrow> map hex_digit_value t = map hex_digit_value u"

definition multiprecision_ok :: "multiprecision \<Rightarrow> bool" where
  "multiprecision_ok mp \<longleftrightarrow>
     (\<forall>w n. same_digits (put_hex mp w n) (padded w (numeral_text 16 n))) \<and> (\<forall>n. put_dec mp n = numeral_text 10 n) \<and>
     (\<forall>w t. digits_of 16 t \<longrightarrow> numeral_value 16 t < 2 ^ w \<longrightarrow> get_hex mp w t = Extracts (numeral_value 16 t) True) \<and>
     (\<forall>w t. digits_of 10 t \<longrightarrow> (hd t = CHR ''0'' \<longrightarrow> length t = 1) \<longrightarrow> numeral_value 10 t < 2 ^ w \<longrightarrow>
        get_dec mp w t = Extracts (numeral_value 10 t) True)"

definition extracted :: "'a::len word \<Rightarrow> extraction \<Rightarrow> bool \<times> 'a word" where
  "extracted old e = (case e of Throws \<Rightarrow> (True, old) | Extracts n eof \<Rightarrow> (\<not> eof, of_nat n))"

definition uint256_encode_hex :: "multiprecision \<Rightarrow> u256 \<Rightarrow> string" where
  "uint256_encode_hex mp a = put_hex mp 64 (unat a)"

definition uint256_decode_hex :: "multiprecision \<Rightarrow> u256 \<Rightarrow> string \<Rightarrow> bool \<times> u256" where
  "uint256_decode_hex mp old text =
     (if text \<noteq> [] \<and> length text \<le> 64 then extracted old (get_hex mp 256 text) else (True, old))"

definition uint256_encode_dec :: "multiprecision \<Rightarrow> u256 \<Rightarrow> string" where
  "uint256_encode_dec mp a = put_dec mp (unat a)"

definition uint256_decode_dec :: "multiprecision \<Rightarrow> u256 \<Rightarrow> string \<Rightarrow> bool \<times> u256" where
  "uint256_decode_dec mp old text =
     (if 78 < length text \<or> (1 < length text \<and> hd text = CHR ''0'') \<or> (0 < length text \<and> hd text = CHR ''-'')
      then (True, old) else extracted old (get_dec mp 256 text))"

definition uint512_encode_hex :: "multiprecision \<Rightarrow> u512 \<Rightarrow> string" where
  "uint512_encode_hex mp a = put_hex mp 128 (unat a)"

definition uint512_decode_hex :: "multiprecision \<Rightarrow> u512 \<Rightarrow> string \<Rightarrow> bool \<times> u512" where
  "uint512_decode_hex mp old text =
     (if 128 < length text then (True, old) else extracted old (get_hex mp 512 text))"

definition uint128_encode_hex :: "multiprecision \<Rightarrow> u128 \<Rightarrow> string" where
  "uint128_encode_hex mp a = put_hex mp 32 (unat a)"

definition uint128_decode_hex :: "multiprecision \<Rightarrow> u128 \<Rightarrow> string \<Rightarrow> bool \<times> u128" where
  "uint128_decode_hex mp old text =
     (if 32 < length text then (True, old) else extracted old (get_hex mp 128 text))"

definition uint128_encode_dec :: "multiprecision \<Rightarrow> u128 \<Rightarrow> string" where
  "uint128_encode_dec mp a = put_dec mp (unat a)"

definition uint128_decode_dec :: "multiprecision \<Rightarrow> u128 \<Rightarrow> string \<Rightarrow> bool \<times> u128" where
  "uint128_decode_dec mp old text =
     (if 39 < length text \<or> (1 < length text \<and> hd text = CHR ''0'') \<or> (0 < length text \<and> hd text = CHR ''-'')
      then (True, old) else extracted old (get_dec mp 128 text))"

lemma digits_of_text:
  assumes "2 \<le> b" "b \<le> 16"
  shows "digits_of b (padded w (numeral_text b n))" "digits_of b (numeral_text b n)"
proof -
  have z: "hex_digit_value CHR ''0'' = Some 0" by code_simp
  have "case hex_digit_value c of None \<Rightarrow> False | Some d \<Rightarrow> d < b" if "c \<in> set (numeral_text b n)" for c
    using numeral_text_digits [OF assms that] assms by auto
  with z assms show "digits_of b (numeral_text b n)" "digits_of b (padded w (numeral_text b n))"
    by (auto simp: digits_of_def list_all_iff padded_def)
qed

lemma hd_numeral_text:
  assumes "2 \<le> b" "b \<le> 16" "0 < n"
  shows "hd (numeral_text b n) \<noteq> CHR ''0''"
  using assms(3)
proof (induction n rule: less_induct)
  case (less n)
  show ?case
  proof (cases "n < b")
    case True
    with assms less.prems have "hex_digit_value (hex_digit n) = Some n" "n \<noteq> 0" by simp_all
    moreover have "hex_digit_value CHR ''0'' = Some 0" by code_simp
    ultimately have "hex_digit n \<noteq> CHR ''0''" by auto
    with True show ?thesis by (subst numeral_text.simps) simp
  next
    case False
    then have "n div b < n" "0 < n div b" using assms by (auto intro: div_less_dividend simp: div_greater_zero_iff)
    with less.IH False assms show ?thesis by (subst numeral_text.simps) simp
  qed
qed

lemma leading_zero:
  assumes "2 \<le> b" "b \<le> 16" "hd (numeral_text b n) = CHR ''0''"
  shows "length (numeral_text b n) = 1"
  using hd_numeral_text [of b n] assms by (cases "n = 0") (auto simp: numeral_text.simps [of b 0])

lemma numeral_value_same: "same_digits t u \<Longrightarrow> numeral_value b t = numeral_value b u"
proof -
  have f: "numeral_value b t = foldl (\<lambda>a d. a * b + the d) 0 (map hex_digit_value t)" for t
    by (simp add: numeral_value_def foldl_map)
  show "same_digits t u \<Longrightarrow> ?thesis" by (simp add: f same_digits_def)
qed

lemma digits_of_same: "same_digits t u \<Longrightarrow> digits_of b t = digits_of b u"
proof -
  have f: "digits_of b t \<longleftrightarrow> map hex_digit_value t \<noteq> [] \<and>
      list_all (\<lambda>v. case v of None \<Rightarrow> False | Some d \<Rightarrow> d < b) (map hex_digit_value t)" for t
    by (simp add: digits_of_def list.pred_map o_def)
  show "same_digits t u \<Longrightarrow> ?thesis" unfolding f by (simp only: same_digits_def)
qed

lemma same_digits_length: "same_digits t u \<Longrightarrow> length t = length u"
  unfolding same_digits_def by (rule map_eq_imp_length_eq)

lemma extract_hex:
  assumes mp: "multiprecision_ok mp"
  shows "extracted old (get_hex mp LENGTH('a) (put_hex mp w (unat (a :: 'a::len word)))) = (False, a)"
proof -
  have same: "same_digits (put_hex mp w (unat a)) (padded w (numeral_text 16 (unat a)))"
    using mp by (simp add: multiprecision_ok_def)
  have "digits_of 16 (put_hex mp w (unat a))" unfolding digits_of_same [OF same] by (rule digits_of_text) simp_all
  moreover have v: "numeral_value 16 (put_hex mp w (unat a)) = unat a"
    unfolding numeral_value_same [OF same] by (simp add: numeral_value_text)
  ultimately have "get_hex mp LENGTH('a) (put_hex mp w (unat a)) = Extracts (unat a) True"
    using mp unsigned_less [of a] by (simp add: multiprecision_ok_def v)
  then show ?thesis by (simp add: extracted_def)
qed

lemma extract_dec:
  assumes mp: "multiprecision_ok mp"
  shows "extracted old (get_dec mp LENGTH('a) (put_dec mp (unat (a :: 'a::len word)))) = (False, a)"
proof -
  have "digits_of 10 (numeral_text 10 (unat a))" by (rule digits_of_text) simp_all
  moreover have "numeral_value 10 (numeral_text 10 (unat a)) < 2 ^ LENGTH('a)" by (simp add: numeral_value_text)
  ultimately have "get_dec mp LENGTH('a) (put_dec mp (unat a)) = Extracts (unat a) True"
    using mp leading_zero [of 10 "unat a"] by (simp add: multiprecision_ok_def numeral_value_text)
  then show ?thesis by (simp add: extracted_def)
qed

lemma hex_length:
  assumes mp: "multiprecision_ok mp" and k: "LENGTH('a) = 4 * k"
  shows "length (put_hex mp k (unat (a :: 'a::len word))) = k"
proof -
  have "unat a < 2 ^ LENGTH('a)" by simp
  also have "\<dots> = 16 ^ k" using k by (simp add: power_mult)
  finally have "length (numeral_text 16 (unat a)) \<le> k"
    using k by (intro numeral_text_length) (auto intro!: Nat.gr0I)
  moreover have "length (put_hex mp k (unat a)) = length (padded k (numeral_text 16 (unat a)))"
    using mp by (intro same_digits_length) (simp add: multiprecision_ok_def)
  ultimately show ?thesis by (simp add: length_padded)
qed

lemma dec_guard:
  assumes mp: "multiprecision_ok mp" and k: "(2 :: nat) ^ LENGTH('a) \<le> 10 ^ k" "0 < k"
  shows "\<not> (k < length (put_dec mp (unat (a :: 'a::len word))) \<or>
    (1 < length (put_dec mp (unat a)) \<and> hd (put_dec mp (unat a)) = CHR ''0'') \<or>
    (0 < length (put_dec mp (unat a)) \<and> hd (put_dec mp (unat a)) = CHR ''-''))"
proof -
  let ?t = "numeral_text 10 (unat a)"
  have "length ?t \<le> k" using k by (intro numeral_text_length) (auto intro: less_le_trans [OF unsigned_less])
  moreover have "hd ?t \<noteq> CHR ''0''" if "1 < length ?t"
  proof (cases "unat a = 0")
    case True
    with that show ?thesis by (subst (asm) numeral_text.simps) simp
  qed (intro hd_numeral_text; simp)
  moreover have "hd ?t \<noteq> CHR ''-''"
  proof
    assume m: "hd ?t = CHR ''-''"
    have "hd ?t \<in> set ?t" by simp
    from numeral_text_digits [OF _ _ this] obtain d where d: "d < 10" "hd ?t = hex_digit d" by auto
    then have "hex_digit_value (hd ?t) = Some d" by simp
    moreover have "hex_digit_value CHR ''-'' = None" by code_simp
    ultimately show False using m by simp
  qed
  ultimately show ?thesis using mp by (auto simp: multiprecision_ok_def)
qed

definition upper_digit :: "char \<Rightarrow> char" where
  "upper_digit c = (case hex_digit_value c of None \<Rightarrow> c | Some d \<Rightarrow> ''0123456789ABCDEF'' ! d)"

text \<open>An instance: letters in upper case, a decimal number with a leading zero refused.\<close>

definition plain_multiprecision :: multiprecision where
  "plain_multiprecision = \<lparr>put_hex = (\<lambda>w n. map upper_digit (padded w (numeral_text 16 n))),
     get_hex = (\<lambda>w t. if digits_of 16 t \<and> numeral_value 16 t < 2 ^ w then Extracts (numeral_value 16 t) True else Throws),
     put_dec = numeral_text 10,
     get_dec = (\<lambda>w t. if digits_of 10 t \<and> (hd t = CHR ''0'' \<longrightarrow> length t = 1) \<and> numeral_value 10 t < 2 ^ w
       then Extracts (numeral_value 10 t) True else Throws)\<rparr>"

lemma upper_digits: "\<forall>d < 16. hex_digit_value (''0123456789ABCDEF'' ! d) = Some d"
  by code_simp

lemma digit_range: "hex_digit_value c = Some d \<Longrightarrow> d < 16"
  by (auto simp: hex_digit_value_def Let_def split: if_splits)

lemma upper_digit_value [simp]: "hex_digit_value (upper_digit c) = hex_digit_value c"
  using upper_digits digit_range [of c] by (simp add: upper_digit_def split: option.split)

lemma plain_multiprecision_ok: "multiprecision_ok plain_multiprecision"
  by (simp add: multiprecision_ok_def plain_multiprecision_def same_digits_def)

lemma hex_decodes:
  assumes mp: "multiprecision_ok mp"
  shows "uint256_decode_hex mp old (uint256_encode_hex mp a) = (False, a)"
    "uint512_decode_hex mp old' (uint512_encode_hex mp b) = (False, b)"
    "uint128_decode_hex mp old'' (uint128_encode_hex mp c) = (False, c)"
  using hex_length [OF mp, of 64, where 'a = 256] hex_length [OF mp, of 128, where 'a = 512]
    hex_length [OF mp, of 32, where 'a = 128] extract_hex [OF mp, where 'a = 256] extract_hex [OF mp, where 'a = 512]
    extract_hex [OF mp, where 'a = 128]
  by (auto simp: uint256_decode_hex_def uint256_encode_hex_def uint512_decode_hex_def uint512_encode_hex_def
      uint128_decode_hex_def uint128_encode_hex_def simp flip: length_greater_0_conv)

text \<open>
  C29: Hashes, signatures and amounts survive their textual forms: the fixed-width hexadecimal text of all
  three widths and the decimal text of 128 and 256 bits are read back as the same number without an error.
  Asked of the multiprecision library: it inserts a number in hexadecimal as its padded digits, with letters
  of either case, and in decimal as its numeral; it extracts hexadecimal digits of either case, and decimal
  numerals without a leading zero, as the number they denote.
\<close>

theorem text_roundtrip:
  assumes mp: "multiprecision_ok mp"
  shows "uint256_decode_hex mp o1 (uint256_encode_hex mp a) = (False, a) \<and>
    uint512_decode_hex mp o2 (uint512_encode_hex mp b) = (False, b) \<and>
    uint128_decode_hex mp o3 (uint128_encode_hex mp c) = (False, c) \<and>
    uint256_decode_dec mp o1 (uint256_encode_dec mp a) = (False, a) \<and>
    uint128_decode_dec mp o3 (uint128_encode_dec mp c) = (False, c)"
proof -
  have "uint256_decode_dec mp o1 (uint256_encode_dec mp a) = (False, a)"
    using dec_guard [OF mp, of 78 a] extract_dec [OF mp, of o1 a]
    unfolding uint256_decode_dec_def uint256_encode_dec_def by simp
  moreover have "uint128_decode_dec mp o3 (uint128_encode_dec mp c) = (False, c)"
    using dec_guard [OF mp, of 39 c] extract_dec [OF mp, of o3 c]
    unfolding uint128_decode_dec_def uint128_encode_dec_def by simp
  ultimately show ?thesis using hex_decodes [OF mp] by blast
qed

theorem text_roundtrip_witness:
  "multiprecision_ok plain_multiprecision \<and>
   uint256_decode_hex plain_multiprecision 0 (uint256_encode_hex plain_multiprecision 48879) = (False, 48879) \<and>
   uint128_decode_dec plain_multiprecision 0 (uint128_encode_dec plain_multiprecision 48879) = (False, 48879)"
  using text_roundtrip [OF plain_multiprecision_ok] plain_multiprecision_ok by blast

section \<open>Work values and actions\<close>

text \<open>
  Extraction of an unsigned number from a standard string stream in hexadecimal mode: white space is
  skipped, then an optional sign, an optional prefix and the digits are taken.  When only white space is
  left, the variable keeps its value (\<open>None\<close>); a number without digits is zero.  The second component
  tells whether the end of the stream was reached.
\<close>

definition is_space :: "char \<Rightarrow> bool" where
  "is_space c \<longleftrightarrow> (let n = (of_char c :: nat) in n = 32 \<or> (9 \<le> n \<and> n \<le> 13))"

definition skip_sign :: "string \<Rightarrow> bool \<times> string" where
  "skip_sign t = (case t of [] \<Rightarrow> (False, t)
     | c # r \<Rightarrow> if c = CHR ''-'' then (True, r) else if c = CHR ''+'' then (False, r) else (False, t))"

definition skip_prefix :: "string \<Rightarrow> string" where
  "skip_prefix t = (case t of c # x # r \<Rightarrow>
     if c = CHR ''0'' \<and> (x = CHR ''x'' \<or> x = CHR ''X'') then r else t | _ \<Rightarrow> t)"

definition std_get_hex :: "string \<Rightarrow> int option \<times> bool" where
  "std_get_hex text =
     (let t = dropWhile is_space text in
      if t = [] then (None, True)
      else let (neg, t) = skip_sign t; t = skip_prefix t;
               ds = takeWhile (\<lambda>c. hex_digit_value c \<noteq> None) t; n = int (numeral_value 16 ds)
           in (Some (if neg then - n else n), dropWhile (\<lambda>c. hex_digit_value c \<noteq> None) t = []))"

definition to_string_hex :: "u64 \<Rightarrow> string" where
  "to_string_hex value_a = padded 16 (numeral_text 16 (unat value_a))"

text \<open>\<open>junk\<close> is what the local \<^verbatim>\<open>number_l\<close> holds before the extraction.\<close>

definition from_string_hex :: "u64 \<Rightarrow> u64 \<Rightarrow> string \<Rightarrow> bool \<times> u64" where
  "from_string_hex junk target_a value_a =
     (if value_a = [] \<or> 16 < length value_a then (True, target_a)
      else let (n, eof) = std_get_hex value_a
           in (\<not> eof, case n of None \<Rightarrow> junk | Some i \<Rightarrow> word_of_int i))"

definition action_encode_hex :: "byte list \<Rightarrow> string" where
  "action_encode_hex bytes = concat (map (\<lambda>b. padded 2 (numeral_text 16 (unat b))) bytes)"

text \<open>\<^verbatim>\<open>action::decode_hex\<close> throws on an odd length and appends to the bytes that are there.\<close>

fun action_decode_loop :: "string \<Rightarrow> byte list \<Rightarrow> byte list" where
  "action_decode_loop (a # b # hex) bytes =
     action_decode_loop hex (bytes @ [case fst (std_get_hex [a, b]) of None \<Rightarrow> 0 | Some i \<Rightarrow> word_of_int i])"
| "action_decode_loop _ bytes = bytes"

definition action_decode_hex :: "byte list \<Rightarrow> string \<Rightarrow> byte list option" where
  "action_decode_hex bytes hex = (if length hex mod 2 \<noteq> 0 then None else Some (action_decode_loop hex bytes))"

lemma hex_digit_not_space: "\<forall>n < 16. \<not> is_space (hex_digit n) \<and> hex_digit n \<noteq> CHR ''-'' \<and> hex_digit n \<noteq> CHR ''+'' \<and>
    hex_digit n \<noteq> CHR ''x'' \<and> hex_digit n \<noteq> CHR ''X''"
  by code_simp

definition hex_text :: "string \<Rightarrow> bool" where
  "hex_text t \<longleftrightarrow> t \<noteq> [] \<and> (\<forall>c \<in> set t. \<exists>n < 16. c = hex_digit n)"

lemma std_get_hex_digits:
  assumes t: "hex_text t"
  shows "std_get_hex t = (Some (int (numeral_value 16 t)), True)"
proof -
  note N = hex_digit_not_space [rule_format]
  from t have all: "\<And>c. c \<in> set t \<Longrightarrow> \<not> is_space c \<and> c \<noteq> CHR ''-'' \<and> c \<noteq> CHR ''+'' \<and> c \<noteq> CHR ''x'' \<and> c \<noteq> CHR ''X'' \<and>
      hex_digit_value c \<noteq> None"
    unfolding hex_text_def using N hex_digits by (metis option.distinct(1))
  have sp: "dropWhile is_space t = t" using all t by (cases t) (auto simp: hex_text_def)
  have sg: "skip_sign t = (False, t)" using all by (auto simp: skip_sign_def split: list.split)
  have px: "skip_prefix t = t" using all by (auto simp: skip_prefix_def split: list.split)
  have "takeWhile (\<lambda>c. hex_digit_value c \<noteq> None) t = t" "dropWhile (\<lambda>c. hex_digit_value c \<noteq> None) t = []"
    using all by (auto simp: takeWhile_eq_all_conv dropWhile_eq_Nil_conv)
  moreover have "t \<noteq> []" using t by (simp add: hex_text_def)
  ultimately show ?thesis by (simp only: std_get_hex_def sp sg px Let_def prod.case if_False refl)
qed

lemma hex_text_padded: "hex_text (padded w (numeral_text 16 n))"
proof -
  have z: "\<exists>k < 16. CHR ''0'' = hex_digit k" by (rule exI [of _ 0]) code_simp
  have "\<exists>k < 16. c = hex_digit k" if "c \<in> set (numeral_text 16 n)" for c
    using numeral_text_digits [OF _ _ that] by simp
  with z show ?thesis by (auto simp: hex_text_def padded_def)
qed

lemma work_text_decodes: "from_string_hex junk old (to_string_hex w) = (False, w)"
proof -
  have "length (numeral_text 16 (unat w)) \<le> 16" using unsigned_less [of w] by (intro numeral_text_length) simp_all
  then have "length (to_string_hex w) = 16" by (simp add: to_string_hex_def length_padded)
  moreover have "to_string_hex w \<noteq> []" using calculation by auto
  ultimately show ?thesis
    using std_get_hex_digits [OF hex_text_padded, of 16 "unat w"]
    by (simp add: from_string_hex_def to_string_hex_def numeral_value_text)
qed

lemma action_loop_append:
  "action_decode_loop (action_encode_hex bs) acc = acc @ bs"
proof (induction bs arbitrary: acc)
  case (Cons b bs)
  have "length (numeral_text 16 (unat b)) \<le> 2" using unsigned_less [of b] by (intro numeral_text_length) simp_all
  then have "length (padded 2 (numeral_text 16 (unat b))) = 2" by (simp add: length_padded)
  then obtain x y where xy: "padded 2 (numeral_text 16 (unat b)) = [x, y]" by (auto simp: length_Suc_conv numeral_2_eq_2)
  have "std_get_hex [x, y] = (Some (uint b), True)"
    using std_get_hex_digits [OF hex_text_padded, of 2 "unat b"] by (simp add: xy numeral_value_text [of 16, simplified] flip: xy)
  with Cons show ?case by (simp add: action_encode_hex_def xy)
qed (simp add: action_encode_hex_def)

lemma action_decodes: "action_decode_hex bytes (action_encode_hex bs) = Some (bytes @ bs)"
proof -
  have "length (padded 2 (numeral_text 16 (unat (b :: byte)))) = 2" for b
    using unsigned_less [of b] by (intro length_padded numeral_text_length) simp_all
  then have "length (action_encode_hex bs) mod 2 = 0" by (induction bs) (auto simp: action_encode_hex_def)
  then show ?thesis using action_loop_append by (simp add: action_decode_hex_def)
qed

text \<open>
  Work values and actions survive their textual forms: the 16 digits of a work value and the two digits
  per byte of an action are read back as the same value; the bytes of an action are appended to those the
  object holds.
\<close>

theorem work_and_action_roundtrip:
  "from_string_hex junk old (to_string_hex w) = (False, w) \<and>
   action_decode_hex bytes (action_encode_hex bs) = Some (bytes @ bs)"
  using work_text_decodes action_decodes by blast

text \<open>
  A work value needs no digits: a lone sign is read as zero, and white space is accepted while the value
  stays what the uninitialised local variable happens to hold.
\<close>

theorem work_text_without_digits:
  "from_string_hex junk old ''-'' = (False, 0) \<and> from_string_hex junk old '' '' = (False, junk)"
proof -
  have "std_get_hex ''-'' = (Some 0, True)" "std_get_hex '' '' = (None, True)" by code_simp+
  then show ?thesis by (simp add: from_string_hex_def)
qed

section \<open>Balances for people\<close>

text \<open>
  \<open>format_frac\<close>, \<open>format_dec\<close> and \<open>format_balance\<close>.  A stream is the text inserted so far.  The groupings
  of the locale are the bytes of its string; a string can be read up to its terminating zero, and the
  separator NUL stands for no separator.  A division by zero throws.  \<open>largest_pow10\<close> is the loop that finds the leading digit; its
  fuel is the number of digits a 256-bit number can have.
\<close>

function format_frac_loop :: "multiprecision \<Rightarrow> string \<Rightarrow> u128 \<Rightarrow> u128 \<Rightarrow> int \<Rightarrow> string outcome" where
  "format_frac_loop mp stream reduce rem precision =
     (if 1 < reduce \<and> 0 < rem \<and> 0 < precision then
        let reduce = reduce div 10 in
        obind (check (reduce \<noteq> 0)) (\<lambda>_.
        let val = rem div reduce
        in format_frac_loop mp (stream @ put_dec mp (unat val)) reduce (rem - val * reduce) (precision - 1))
      else Ret stream)"
  by pat_completeness auto
termination
  by (relation "measure (\<lambda>(_, _, _, _, p). nat p)") auto

declare format_frac_loop.simps [simp del]

definition format_frac :: "multiprecision \<Rightarrow> string \<Rightarrow> u128 \<Rightarrow> u128 \<Rightarrow> int \<Rightarrow> string outcome" where
  "format_frac mp stream value scale precision = format_frac_loop mp stream scale value precision"

fun largest_pow10 :: "nat \<Rightarrow> u128 \<Rightarrow> u256 \<Rightarrow> nat \<Rightarrow> (u256 \<times> nat) outcome" where
  "largest_pow10 0 value largestPow10 dec_count = Diverge"
| "largest_pow10 (Suc n) value largestPow10 dec_count =
     (let next = largestPow10 * 10 in
      if ucast value < next then Ret (largestPow10, dec_count)
      else largest_pow10 n value next (dec_count + 1))"

definition string_at :: "int list \<Rightarrow> int \<Rightarrow> int outcome" where
  "string_at s i =
     (if 0 \<le> i \<and> i < int (length s) then Ret (s ! nat i) else if i = int (length s) then Ret 0 else Abort)"

text \<open>The digits that a separator follows, from the last digit on.\<close>

fun emit_groups :: "nat \<Rightarrow> int list \<Rightarrow> int \<Rightarrow> int \<Rightarrow> bool list outcome" where
  "emit_groups 0 groupings group_index group_count = Ret []"
| "emit_groups (Suc i) groupings group_index group_count =
     (let group_count = group_count + 1 in
      obind (string_at groupings group_index) (\<lambda>g.
      if group_count > g
      then obind (emit_groups i groupings (min (group_index + 1) (int (length groupings) - 1)) 1) (\<lambda>es. Ret (True # es))
      else obind (emit_groups i groupings group_index group_count) (\<lambda>es. Ret (False # es))))"

function format_dec_loop :: "multiprecision \<Rightarrow> string \<Rightarrow> u128 \<Rightarrow> u128 \<Rightarrow> nat \<Rightarrow> char \<Rightarrow> bool list \<Rightarrow> string" where
  "format_dec_loop mp stream reduce rem dec_count group_sep emit_group =
     (if 0 < reduce then
        let val = rem div reduce; rem = rem - val * reduce; stream = stream @ put_dec mp (unat val);
            dec_count = dec_count - 1;
            stream = (if group_sep \<noteq> CHR 0x00 \<and> emit_group ! dec_count \<and> 1 < reduce then stream @ [group_sep] else stream)
        in format_dec_loop mp stream (reduce div 10) rem dec_count group_sep emit_group
      else stream)"
  by pat_completeness auto
termination
proof (relation "measure (\<lambda>(_, _, r, _). unat r)")
qed (auto simp: word_less_nat_alt unat_div_distrib)

declare format_dec_loop.simps [simp del]

definition format_dec :: "multiprecision \<Rightarrow> string \<Rightarrow> u128 \<Rightarrow> char \<Rightarrow> int list \<Rightarrow> string outcome" where
  "format_dec mp stream value group_sep groupings =
     obind (largest_pow10 78 value 1 1) (\<lambda>(largestPow10, dec_count).
       if 39 < dec_count then Ret stream
       else obind (if group_sep \<noteq> CHR 0x00 then emit_groups dec_count groupings 0 0 else Ret []) (\<lambda>emit_group.
         Ret (format_dec_loop mp stream (ucast largestPow10) value dec_count group_sep emit_group)))"

definition format_balance ::
    "multiprecision \<Rightarrow> u128 \<Rightarrow> u128 \<Rightarrow> int \<Rightarrow> bool \<Rightarrow> char \<Rightarrow> char \<Rightarrow> int list \<Rightarrow> string outcome" where
  "format_balance mp balance scale precision group_digits thousands_sep decimal_point grouping =
     obind (check (scale \<noteq> 0)) (\<lambda>_.
     (let int_part = balance div scale; frac_part = balance mod scale;
          prec_scale = ((\<lambda>s. s div 10) ^^ nat precision) scale
      in if int_part = 0 \<and> 0 < frac_part
         then obind (check (prec_scale \<noteq> 0)) (\<lambda>_.
           if frac_part div prec_scale = 0
           then Ret (''< '' @ (if 0 < precision then ''0'' @ [decimal_point] @ replicate (nat precision - 1) CHR ''0'' else [])
                  @ ''1'')
           else obind (format_dec mp [] int_part (if group_digits \<and> grouping \<noteq> [] then thousands_sep else CHR 0x00) grouping)
             (\<lambda>stream. if 0 < precision \<and> 0 < frac_part
                then format_frac mp (stream @ [decimal_point]) frac_part scale precision else Ret stream))
         else obind (format_dec mp [] int_part (if group_digits \<and> grouping \<noteq> [] then thousands_sep else CHR 0x00) grouping)
           (\<lambda>stream. if 0 < precision \<and> 0 < frac_part
              then format_frac mp (stream @ [decimal_point]) frac_part scale precision else Ret stream)))"

fun fixed_digits :: "nat \<Rightarrow> nat \<Rightarrow> string" where
  "fixed_digits 0 n = [hex_digit n]"
| "fixed_digits (Suc k) n = hex_digit (n div 10 ^ Suc k) # fixed_digits k (n mod 10 ^ Suc k)"

text \<open>
  The reference: the last \<open>g\<close> digits are set off by the separator, and what is before them is grouped by
  the sizes that follow, the last of which is used again and again.
\<close>

function grouped :: "char \<Rightarrow> int list \<Rightarrow> string \<Rightarrow> string" where
  "grouped sep [] t = t"
| "grouped sep (g # gs) t =
     (if g \<le> 0 \<or> length t \<le> nat g then t
      else grouped sep (if gs = [] then [g] else gs) (take (length t - nat g) t) @ sep # drop (length t - nat g) t)"
  by pat_completeness auto
termination
  by (relation "measure (\<lambda>(_, _, t). length t)") auto

lemma fixed_digits_snoc: "fixed_digits (Suc k) n = fixed_digits k (n div 10) @ [hex_digit (n mod 10)]"
proof (induction k arbitrary: n)
  case (Suc k)
  have "n mod (10 * m) div 10 = n div 10 mod m" for m :: nat by (simp add: mod_mult2_eq)
  then have "n mod 10 ^ Suc (Suc k) div 10 = n div 10 mod 10 ^ Suc k" by (simp only: power_Suc)
  moreover have "n mod 10 ^ Suc (Suc k) mod 10 = n mod 10" by (rule mod_mod_cancel) simp
  moreover have "n div 10 ^ Suc (Suc k) = n div 10 div 10 ^ Suc k" by (simp only: power_Suc div_mult2_eq)
  ultimately show ?case using Suc.IH [of "n mod 10 ^ Suc (Suc k)"] by (subst fixed_digits.simps(2)) simp
qed simp

lemma numeral_text_fixed:
  "10 ^ k \<le> n \<or> k = 0 \<Longrightarrow> n < 10 ^ Suc k \<Longrightarrow> numeral_text 10 n = fixed_digits k n"
proof (induction k arbitrary: n)
  case (Suc k)
  have "10 ^ k \<le> n div 10" "n div 10 < 10 ^ Suc k"
    using Suc.prems by (simp_all add: less_eq_div_iff_mult_less_eq div_less_iff_less_mult mult.commute)
  moreover have "10 \<le> n" using Suc.prems(1) by (auto intro: order_trans [OF _ Suc.prems(1) [simplified]])
  ultimately show ?case using Suc.IH [of "n div 10"] unfolding fixed_digits_snoc
    by (subst numeral_text.simps) simp
qed (subst numeral_text.simps, simp)


lemma unat_pow10_256: "i \<le> 39 \<Longrightarrow> unat ((10 :: u256) ^ i) = 10 ^ i"
proof -
  assume "i \<le> 39"
  then have "(10 :: nat) ^ i \<le> 10 ^ 39" by (intro power_increasing) auto
  also have "\<dots> < 2 ^ 256" by simp
  finally have "(10 :: nat) ^ i < 2 ^ 256" .
  moreover have "(10 :: u256) ^ i = of_nat (10 ^ i)" by simp
  ultimately show ?thesis by (simp only: unat_of_nat) (simp add: take_bit_nat_eq_self)
qed

lemma largest_pow10_returns:
  assumes v: "unat value < 10 ^ Suc k" "10 ^ k \<le> unat value \<or> k = 0" and k: "k \<le> 38"
  shows "j \<le> k \<Longrightarrow> k - j < n \<Longrightarrow> largest_pow10 n value (10 ^ j) (Suc j) = Ret (10 ^ k, Suc k)"
proof (induction n arbitrary: j)
  case (Suc n)
  note p = unat_pow10_256
  have u: "unat (ucast value :: u256) = unat value" by (simp add: unsigned_ucast_eq take_bit_nat_eq_self_iff
        order_less_trans [OF unsigned_less])
  have lt: "(ucast value < (10 :: u256) ^ j * 10) \<longleftrightarrow> unat value < 10 ^ Suc j"
    using p [of "Suc j"] Suc.prems k u by (simp add: word_less_nat_alt mult.commute)
  show ?case
  proof (cases "j = k")
    case True
    then show ?thesis using lt v by simp
  next
    case False
    then have "Suc j \<le> k" using Suc.prems by simp
    then have "10 ^ Suc j \<le> (10 :: nat) ^ k" by (intro power_increasing) auto
    then have "\<not> unat value < 10 ^ Suc j" using v(2) \<open>Suc j \<le> k\<close> by auto
    then show ?thesis using lt Suc.IH [of "Suc j"] Suc.prems \<open>Suc j \<le> k\<close> by (simp add: mult.commute)
  qed
qed simp

lemma decimal_length: "\<exists>k \<le> 38. unat (value :: u128) < 10 ^ Suc k \<and> (10 ^ k \<le> unat value \<or> k = 0)"
proof -
  have "unat value < 2 ^ 128" using unsigned_less [of "value"] by simp
  also have "(2 :: nat) ^ 128 \<le> 10 ^ Suc 38" by simp
  finally have ex: "unat value < 10 ^ Suc 38" .
  define k where "k = (LEAST k. unat value < 10 ^ Suc k)"
  have "unat value < 10 ^ Suc k" unfolding k_def by (rule LeastI [of "\<lambda>k. unat value < 10 ^ Suc k", OF ex])
  moreover have "k \<le> 38" unfolding k_def by (rule Least_le [of "\<lambda>k. unat value < 10 ^ Suc k", OF ex])
  moreover have "10 ^ k \<le> unat value \<or> k = 0"
  proof (cases k)
    case (Suc j)
    have "\<not> unat value < 10 ^ Suc j" using Suc not_less_Least [of j "\<lambda>k. unat value < 10 ^ Suc k"] by (simp add: k_def)
    with Suc show ?thesis by simp
  qed simp
  ultimately show ?thesis by blast
qed

lemma put_digit: "multiprecision_ok mp \<Longrightarrow> d < 10 \<Longrightarrow> put_dec mp d = [hex_digit d]"
  by (simp add: multiprecision_ok_def numeral_text.simps)


lemma unat_pow10: "k \<le> 38 \<Longrightarrow> unat ((10 :: u128) ^ k) = 10 ^ k"
proof -
  assume "k \<le> 38"
  then have "(10 :: nat) ^ k \<le> 10 ^ 38" by (intro power_increasing) auto
  also have "\<dots> < 2 ^ 128" by simp
  finally have "(10 :: nat) ^ k < 2 ^ 128" .
  moreover have "(10 :: u128) ^ k = of_nat (10 ^ k)" by simp
  ultimately show ?thesis by (simp only: unat_of_nat) (simp add: take_bit_nat_eq_self)
qed

lemma pow10_div: "Suc k \<le> 38 \<Longrightarrow> (10 :: u128) ^ Suc k div 10 = 10 ^ k"
  using unat_pow10 [of "Suc k"] unat_pow10 [of k]
  by (simp add: word_unat_eq_iff unat_div_distrib del: power_Suc) simp

text \<open>The digits with the separator after the marked ones, the last digit apart; marks count from the last digit.\<close>

fun separated :: "char \<Rightarrow> bool list \<Rightarrow> string \<Rightarrow> string" where
  "separated sep es [] = []"
| "separated sep es (c # cs) =
     c # (if sep \<noteq> CHR 0x00 \<and> cs \<noteq> [] \<and> es ! length cs then sep # separated sep es cs else separated sep es cs)"

lemma length_fixed_digits [simp]: "length (fixed_digits k n) = Suc k"
  by (induction k arbitrary: n) auto

lemma format_dec_loop_digits:
  assumes mp: "multiprecision_ok mp"
  shows "k \<le> 38 \<Longrightarrow> unat rem < 10 ^ Suc k \<Longrightarrow>
    format_dec_loop mp stream (10 ^ k) rem (Suc k) sep es = stream @ separated sep es (fixed_digits k (unat rem))"
proof (induction k arbitrary: rem stream)
  case 0
  then have "put_dec mp (unat rem) = [hex_digit (unat rem)]" by (simp add: put_digit [OF mp])
  moreover have "(1 :: u128) div 10 = 0" by (simp add: word_unat_eq_iff unat_div_distrib)
  moreover have "(0 :: u128) < 1" "\<not> (1 :: u128) < 1" "\<not> (0 :: u128) < 0" by simp_all
  ultimately show ?case using 0
    by (subst format_dec_loop.simps) (simp add: Let_def format_dec_loop.simps [of _ _ 0])
next
  case (Suc k)
  note p = unat_pow10 [OF Suc.prems(1)]
  have pos: "0 < (10 :: u128) ^ Suc k" "1 < (10 :: u128) ^ Suc k"
    using p one_less_power [of "10 :: nat" "Suc k"] by (simp_all add: word_less_nat_alt del: power_Suc)
  have v: "unat (rem div 10 ^ Suc k) = unat rem div 10 ^ Suc k" using p by (simp add: unat_div_distrib del: power_Suc)
  have v10: "unat rem div 10 ^ Suc k < 10" using Suc.prems(2) by (simp add: div_less_iff_less_mult)
  have m: "rem - rem div 10 ^ Suc k * 10 ^ Suc k = rem mod 10 ^ Suc k" by (rule minus_div_mult_eq_mod)
  have mm: "unat (rem mod 10 ^ Suc k) = unat rem mod 10 ^ Suc k" using p by (simp add: unat_mod_distrib del: power_Suc)
  have d: "put_dec mp (unat (rem div 10 ^ Suc k)) = [hex_digit (unat rem div 10 ^ Suc k)]"
    unfolding v by (rule put_digit [OF mp v10])
  have IH: "format_dec_loop mp st (10 ^ k) (rem mod 10 ^ Suc k) (Suc k) sep es =
      st @ separated sep es (fixed_digits k (unat rem mod 10 ^ Suc k))" for st
    using Suc.IH [of "rem mod 10 ^ Suc k" st] Suc.prems(1) unfolding mm by simp
  have ne: "fixed_digits k n \<noteq> []" for n by (simp flip: length_greater_0_conv)
  show ?case
    by (subst format_dec_loop.simps)
      (use pos ne in \<open>simp add: Let_def m d IH pow10_div [OF Suc.prems(1)] del: power_Suc\<close>)
qed

lemma ucast_pow10: "k \<le> 38 \<Longrightarrow> ucast ((10 :: u256) ^ k) = (10 :: u128) ^ k"
proof -
  assume k: "k \<le> 38"
  have "unat ((10 :: u128) ^ k) < 2 ^ 128" using unsigned_less [of "(10 :: u128) ^ k"] by simp
  with k unat_pow10 [OF k] show ?thesis
    by (simp add: word_unat_eq_iff unsigned_ucast_eq unat_pow10_256 take_bit_nat_eq_self)
qed

text \<open>The same two texts read from the last digit on.\<close>

function grouped_rev :: "char \<Rightarrow> int list \<Rightarrow> string \<Rightarrow> string" where
  "grouped_rev sep [] r = r"
| "grouped_rev sep (g # gs) r =
     (if g \<le> 0 \<or> length r \<le> nat g then r
      else take (nat g) r @ sep # grouped_rev sep (if gs = [] then [g] else gs) (drop (nat g) r))"
  by pat_completeness auto
termination
  by (relation "measure (\<lambda>(_, _, t). length t)") auto

declare grouped_rev.simps(2) [simp del]

fun separated_rev :: "char \<Rightarrow> bool list \<Rightarrow> string \<Rightarrow> string" where
  "separated_rev sep (e # es) (c # cs) = (if e then [sep, c] else [c]) @ separated_rev sep es cs"
| "separated_rev sep _ _ = []"

lemma rev_grouped: "rev (grouped sep gs t) = grouped_rev sep gs (rev t)"
  by (induction sep gs t rule: grouped.induct) (simp_all add: grouped_rev.simps rev_take rev_drop)

lemma separated_rev_append:
  "length es = length r \<Longrightarrow> separated_rev sep (es @ es') (r @ r') = separated_rev sep es r @ separated_rev sep es' r'"
  by (induction es r rule: list_induct2) auto

lemma rev_separated:
  "length es = length t \<Longrightarrow> \<not> hd es \<Longrightarrow> sep \<noteq> CHR 0x00 \<Longrightarrow> rev (separated sep es t) = separated_rev sep es (rev t)"
proof (induction t arbitrary: es)
  case (Cons c t)
  then obtain es' e where es: "es = es' @ [e]" "length es' = length t"
    by (metis length_Suc_conv_rev length_Cons)
  have eq: "separated sep (es' @ [e]) t = separated sep es' t" for e
  proof -
    have "length u \<le> length es' \<Longrightarrow> separated sep (es' @ [e]) u = separated sep es' u" for u
      by (induction u) (auto simp: nth_append)
    then show ?thesis using es by simp
  qed
  have "\<not> hd es' \<or> t = []" using Cons.prems es by (cases es') auto
  then have "rev (separated sep es' t) = separated_rev sep es' (rev t)"
    using Cons.IH [of es'] Cons.prems es by (cases "t = []") auto
  moreover have "t = [] \<Longrightarrow> \<not> e" using Cons.prems es by auto
  ultimately show ?case
    using es Cons.prems by (auto simp: eq separated_rev_append nth_append)
qed simp

lemma emit_groups_spec:
  assumes pos: "\<forall>g \<in> set gs. 0 < g"
  shows "i < length gs \<Longrightarrow> 0 \<le> c \<Longrightarrow> c \<le> gs ! i \<Longrightarrow> \<exists>es. emit_groups (length r) gs (int i) c = Ret es \<and> length es = length r \<and>
    (c < gs ! i \<longrightarrow> r \<noteq> [] \<longrightarrow> \<not> hd es) \<and>
    separated_rev sep es r = (let m = nat (gs ! i - c) in take m r @
      (if length r \<le> m then [] else sep # grouped_rev sep (drop (min (i + 1) (length gs - 1)) gs) (drop m r)))"
proof (induction r arbitrary: i c)
  case (Cons d r)
  have at: "string_at gs (int i) = Ret (gs ! i)" using Cons.prems by (simp add: string_at_def)
  let ?n = "min (i + 1) (length gs - 1)"
  have n: "min (int i + 1) (int (length gs) - 1) = int ?n" "?n < length gs" using Cons.prems by auto
  show ?case
  proof (cases "c + 1 > gs ! i")
    case True
    then have c: "c = gs ! i" using Cons.prems by simp
    have g: "0 < gs ! ?n" using pos n(2) by simp
    obtain es where es: "emit_groups (length r) gs (int ?n) 1 = Ret es" "length es = length r"
      "separated_rev sep es r = (let m = nat (gs ! ?n - 1) in take m r @
        (if length r \<le> m then [] else sep # grouped_rev sep (drop (min (?n + 1) (length gs - 1)) gs) (drop m r)))"
      using Cons.IH [OF n(2), of 1] g by auto
    have dr: "drop ?n gs = gs ! ?n # drop (Suc ?n) gs" using n(2) by (rule Cons_nth_drop_Suc [symmetric])
    have nx: "(if drop (Suc ?n) gs = [] then [gs ! ?n] else drop (Suc ?n) gs) = drop (min (?n + 1) (length gs - 1)) gs"
    proof (cases "Suc ?n < length gs")
      case False
      then have "min (?n + 1) (length gs - 1) = ?n" "drop (Suc ?n) gs = []" using n(2) by auto
      then show ?thesis using dr by simp
    next
      case True
      then have "min (?n + 1) (length gs - 1) = Suc ?n" by linarith
      then show ?thesis using True by simp
    qed
    have sn: "nat (gs ! ?n) = Suc (nat (gs ! ?n - 1))" using g by simp
    have "d # separated_rev sep es r = grouped_rev sep (drop ?n gs) (d # r)"
      unfolding dr grouped_rev.simps(2) nx sn es(3) Let_def using g by simp
    then show ?thesis using True c es(1,2) by (simp add: at n)
  next
    case False
    then obtain es where es: "emit_groups (length r) gs (int i) (c + 1) = Ret es" "length es = length r"
      "separated_rev sep es r = (let m = nat (gs ! i - (c + 1)) in take m r @
        (if length r \<le> m then [] else sep # grouped_rev sep (drop ?n gs) (drop m r)))"
      using Cons.IH [OF Cons.prems(1), of "c + 1"] Cons.prems by auto
    have "nat (gs ! i - c) = Suc (nat (gs ! i - (c + 1)))" using False by simp
    then show ?thesis using False es by (simp add: at Let_def)
  qed
qed simp

lemma emit_groups_grouped:
  assumes gs: "gs \<noteq> []" "\<forall>g \<in> set gs. 0 < g" and sep: "sep \<noteq> CHR 0x00" and t: "t \<noteq> []"
  shows "\<exists>es. emit_groups (length t) gs 0 0 = Ret es \<and> separated sep es t = grouped sep gs t"
proof -
  obtain g gs' where g: "gs = g # gs'" "0 < g" using gs by (cases gs) auto
  have nx: "(if gs' = [] then [g] else gs') = drop (min 1 (length gs - 1)) gs" using g by (cases gs') auto
  obtain es where es: "emit_groups (length t) gs 0 0 = Ret es" "length es = length t" "\<not> hd es"
    "separated_rev sep es (rev t) = take (nat g) (rev t) @
      (if length t \<le> nat g then [] else sep # grouped_rev sep (drop (min 1 (length gs - 1)) gs) (drop (nat g) (rev t)))"
    using emit_groups_spec [OF gs(2), of 0 0 "rev t" sep] gs t g by (auto simp: Let_def)
  have "rev (separated sep es t) = rev (grouped sep gs t)"
    unfolding rev_separated [OF es(2,3) sep] rev_grouped es(4) using g
    by (simp add: g(1) grouped_rev.simps(2) nx [unfolded g(1)])
  then show ?thesis using es(1) by simp
qed

lemma separated_none [simp]: "separated CHR 0x00 es t = t"
  by (induction t) auto

lemma format_dec_emit:
  "\<exists>k. numeral_text 10 (unat value) = fixed_digits k (unat value) \<and> (10 \<le> value \<longrightarrow> 0 < k) \<and>
    (multiprecision_ok mp \<longrightarrow> format_dec mp stream value sep groupings =
      obind (if sep \<noteq> CHR 0x00 then emit_groups (Suc k) groupings 0 0 else Ret []) (\<lambda>es.
        Ret (stream @ separated sep es (fixed_digits k (unat value)))))"
proof -
  obtain k where k: "k \<le> 38" "unat value < 10 ^ Suc k" "10 ^ k \<le> unat value \<or> k = 0" using decimal_length by blast
  have "largest_pow10 78 value 1 1 = Ret (10 ^ k, Suc k)"
    using largest_pow10_returns [OF k(2,3,1), of 0 78] k(1) by simp
  then have "multiprecision_ok mp \<longrightarrow> format_dec mp stream value sep groupings =
      obind (if sep \<noteq> CHR 0x00 then emit_groups (Suc k) groupings 0 0 else Ret []) (\<lambda>es.
        Ret (stream @ separated sep es (fixed_digits k (unat value))))"
    using k(1) by (simp add: format_dec_def ucast_pow10 format_dec_loop_digits [OF _ k(1,2)]
        del: largest_pow10.simps emit_groups.simps)
  moreover have "10 \<le> value \<longrightarrow> 0 < k" using k(2) by (cases k) (auto simp: word_le_nat_alt)
  ultimately show ?thesis using numeral_text_fixed [OF k(3,2)] by blast
qed

lemma format_dec_text:
  assumes mp: "multiprecision_ok mp" and gs: "sep \<noteq> CHR 0x00 \<longrightarrow> groupings \<noteq> [] \<and> (\<forall>g \<in> set groupings. 0 < g)"
  shows "format_dec mp stream value sep groupings =
    Ret (stream @ (if sep = CHR 0x00 then numeral_text 10 (unat value) else grouped sep groupings (numeral_text 10 (unat value))))"
proof -
  obtain k where t: "numeral_text 10 (unat value) = fixed_digits k (unat value)"
    and f: "format_dec mp stream value sep groupings =
      obind (if sep \<noteq> CHR 0x00 then emit_groups (Suc k) groupings 0 0 else Ret []) (\<lambda>es.
        Ret (stream @ separated sep es (fixed_digits k (unat value))))"
    using format_dec_emit mp by blast
  show ?thesis
  proof (cases "sep = CHR 0x00")
    case True
    show ?thesis unfolding f t using True by simp
  next
    case False
    then obtain es where "emit_groups (Suc k) groupings 0 0 = Ret es"
      "separated sep es (fixed_digits k (unat value)) = grouped sep groupings (fixed_digits k (unat value))"
      using emit_groups_grouped [of groupings sep "fixed_digits k (unat value)"] gs by (auto simp flip: length_greater_0_conv)
    with False show ?thesis unfolding f t by simp
  qed
qed

lemma format_dec_no_sizes:
  assumes mp: "multiprecision_ok mp" and sep: "sep \<noteq> CHR 0x00" and v: "10 \<le> value"
  shows "format_dec mp stream value sep [] = Abort"
proof -
  obtain k where "0 < k" and f: "format_dec mp stream value sep [] =
      obind (emit_groups (Suc k) [] 0 0) (\<lambda>es. Ret (stream @ separated sep es (fixed_digits k (unat value))))"
    using format_dec_emit [of "value" mp stream sep "[]"] mp sep v by auto
  then obtain j where "k = Suc j" by (cases k) auto
  then show ?thesis by (simp add: f string_at_def)
qed

text \<open>
  C30: The decimal rendering of an amount ends and is the amount in groups: the loop that looks for the
  leading digit finds it, the branch for more than 39 digits is never taken, and what is inserted into the
  stream is the decimal numeral of the value, from the last digit on cut into groups of the sizes the
  locale gives (the last size repeated) with the separator between any two groups and nowhere else.  This is
  shown for a separator with at least one size, all of them positive; without a separator the text is the
  numeral itself; and with a separator but no size the code reads before the start of the string, which is
  undefined, as soon as there are two digits (\<open>format_balance\<close> never asks for that).  The multiprecision
  library is only asked to insert a decimal digit as itself (\<open>multiprecision_ok\<close>).
\<close>

theorem format_dec_is_decimal:
  assumes mp: "multiprecision_ok mp"
  shows "(sep \<noteq> CHR 0x00 \<longrightarrow> groupings \<noteq> [] \<and> (\<forall>g \<in> set groupings. 0 < g) \<longrightarrow>
      format_dec mp stream value sep groupings = Ret (stream @ grouped sep groupings (numeral_text 10 (unat value)))) \<and>
    format_dec mp stream value CHR 0x00 groupings = Ret (stream @ numeral_text 10 (unat value)) \<and>
    (sep \<noteq> CHR 0x00 \<longrightarrow> 10 \<le> value \<longrightarrow> format_dec mp stream value sep [] = Abort)"
  using format_dec_text [OF mp, of sep groupings stream "value"] format_dec_text [OF mp, of "CHR 0x00" groupings stream "value"]
    format_dec_no_sizes [OF mp, of sep "value" stream] by simp

theorem format_dec_is_decimal_witness:
  "format_dec plain_multiprecision ''= '' 1234567 CHR '','' [3] = Ret ''= 1,234,567'' \<and>
   format_dec plain_multiprecision [] 1234567 CHR '','' [3, 2] = Ret ''12,34,567'' \<and>
   format_dec plain_multiprecision [] 1234567 CHR 0x00 [3, 2] = Ret ''1234567'' \<and>
   format_dec plain_multiprecision [] 1234567 CHR '','' [] = Abort"
proof -
  have "numeral_text 10 (unat (1234567 :: u128)) = ''1234567''"
    "grouped CHR '','' [3] ''1234567'' = ''1,234,567''" "grouped CHR '','' [3, 2] ''1234567'' = ''12,34,567''"
    by (simp_all add: numeral_text.simps hex_digit_def)
  moreover have "(10 :: u128) \<le> 1234567" by simp
  ultimately show ?thesis
    using format_dec_is_decimal [OF plain_multiprecision_ok, of "CHR '',''" "[3]" "''= ''" 1234567]
      format_dec_is_decimal [OF plain_multiprecision_ok, of "CHR '',''" "[3, 2]" "[]" 1234567] by simp
qed

lemma format_frac_returns:
  "k \<le> 38 \<Longrightarrow> \<exists>t. format_frac_loop mp stream (10 ^ k) rem precision = Ret t"
proof (induction k arbitrary: stream rem precision)
  case 0
  have "\<not> (1 :: u128) < 1" by simp
  then show ?case by (subst format_frac_loop.simps) simp
next
  case (Suc k)
  have "(10 :: u128) ^ k \<noteq> 0" using unat_pow10 [of k] Suc.prems by (metis Suc_leD power_not_zero unat_0 zero_neq_numeral)
  with Suc.IH Suc.prems show ?case
    by (subst format_frac_loop.simps) (simp add: Let_def pow10_div [OF Suc.prems] del: power_Suc)
qed

lemma scale_down: "s \<le> 38 \<Longrightarrow> p \<le> s \<Longrightarrow> ((\<lambda>x. x div 10) ^^ p) ((10 :: u128) ^ s) = 10 ^ (s - p)"
proof (induction p)
  case (Suc p)
  then have "Suc (s - Suc p) = s - p" by simp
  with Suc pow10_div [of "s - Suc p"] show ?case by simp
qed simp

text \<open>
  Formatting a balance in a unit of the program (a power of ten) with no more decimals than the unit has
  never divides by zero: it returns a text.
\<close>

theorem format_balance_returns:
  assumes mp: "multiprecision_ok mp" and s: "s \<le> 38" "precision \<le> int s"
    and gr: "\<forall>g \<in> set grouping. 0 < g"
  shows "\<exists>t. format_balance mp balance (10 ^ s) precision group_digits thousands_sep decimal_point grouping = Ret t"
proof -
  have nz: "(10 :: u128) ^ k \<noteq> 0" if "k \<le> 38" for k
    using unat_pow10 [OF that] by (metis power_not_zero unat_0 zero_neq_numeral)
  let ?sep = "if group_digits \<and> grouping \<noteq> [] then thousands_sep else CHR 0x00"
  have d: "\<exists>t. format_dec mp [] v ?sep grouping = Ret t" for v
    using format_dec_text [OF mp, of ?sep grouping "[]" v] gr by auto
  have f: "\<exists>t. format_frac mp st fr (10 ^ s) precision = Ret t" for st fr
    using format_frac_returns [OF s(1)] by (simp add: format_frac_def)
  have p: "((\<lambda>s. s div 10) ^^ nat precision) ((10 :: u128) ^ s) = 10 ^ (s - nat precision)"
    using s by (intro scale_down) auto
  have tail: "\<exists>t. obind (format_dec mp [] v ?sep grouping)
      (\<lambda>stream. if c then format_frac mp (stream @ [decimal_point]) fr (10 ^ s) precision else Ret stream) = Ret t" for v c fr
  proof -
    obtain x where "format_dec mp [] v ?sep grouping = Ret x" using d by blast
    with f show ?thesis by (cases c) auto
  qed
  show ?thesis
    unfolding format_balance_def p Let_def using nz s tail by (simp add: check_def)
qed

theorem format_balance_returns_witness:
  "\<exists>t. format_balance plain_multiprecision 5 (10 ^ 24) 2 True CHR '','' CHR ''.'' [3] = Ret t"
  by (intro format_balance_returns [OF plain_multiprecision_ok]) simp_all

end
