(* ===== verification/Block_Json.thy ===== *)
theory Block_Json
  imports Blocks Numbers
begin

text \<open>
  The JSON form of blocks.  A property tree of the block classes has one level: it is an association list
  from keys to strings.  \<^verbatim>\<open>get\<close> of a missing key throws, which the callers turn into an error.  The text of a
  tree is the business of Boost: \<open>write_json\<close> is an argument.

  A reader returns \<open>Ret None\<close> for an error and \<open>Abort\<close> for a failed assertion.  The fields of a new object
  are not initialised; a reader that succeeds sets all of them.
\<close>

section \<open>Property trees\<close>

type_synonym ptree = "(string \<times> string) list"

record text_env =
  env_mp :: multiprecision
  env_blake :: "nat \<Rightarrow> byte list \<Rightarrow> byte list"
  env_junk :: u64

definition tree_get :: "ptree \<Rightarrow> string \<Rightarrow> string option outcome" where
  "tree_get t k = Ret (map_of t k)"

definition attempt :: "'a option outcome \<Rightarrow> ('a \<Rightarrow> 'b option outcome) \<Rightarrow> 'b option outcome" where
  "attempt m f = obind m (\<lambda>r. case r of None \<Rightarrow> Ret None | Some x \<Rightarrow> f x)"

definition accepted :: "bool \<times> 'a \<Rightarrow> 'a option" where
  "accepted r = (if fst r then None else Some (snd r))"

lemma attempt_simps [simp]: "attempt (Ret (Some x)) f = f x" "attempt (Ret None) f = Ret None" "attempt Abort f = Abort"
  by (simp_all add: attempt_def)

lemma accepted_simps [simp]: "accepted (False, x) = Some x" "accepted (True, x) = None"
  by (simp_all add: accepted_def)

definition get_hex256 :: "text_env \<Rightarrow> string \<Rightarrow> u256 option outcome" where
  "get_hex256 E t = Ret (accepted (uint256_decode_hex (env_mp E) 0 t))"

definition get_hex512 :: "text_env \<Rightarrow> string \<Rightarrow> u512 option outcome" where
  "get_hex512 E t = Ret (accepted (uint512_decode_hex (env_mp E) 0 t))"

definition get_hex128 :: "text_env \<Rightarrow> string \<Rightarrow> u128 option outcome" where
  "get_hex128 E t = Ret (accepted (uint128_decode_hex (env_mp E) 0 t))"

definition get_account :: "text_env \<Rightarrow> string \<Rightarrow> u256 option outcome" where
  "get_account E t = obind (decode_account (env_blake E) 0 t) (\<lambda>r. Ret (accepted r))"

definition get_work :: "text_env \<Rightarrow> string \<Rightarrow> u64 option outcome" where
  "get_work E t = Ret (accepted (from_string_hex (env_junk E) 0 t))"

section \<open>Writing\<close>

definition send_block_tree :: "text_env \<Rightarrow> send_hashables \<Rightarrow> u512 \<Rightarrow> u64 \<Rightarrow> ptree outcome" where
  "send_block_tree E h sig work =
     obind (to_account (env_blake E) (send_destination h)) (\<lambda>destination.
     Ret [(''type'', ''send''), (''previous'', uint256_encode_hex (env_mp E) (send_previous h)),
       (''destination'', destination), (''balance'', uint128_encode_hex (env_mp E) (send_balance h)),
       (''work'', to_string_hex work), (''signature'', uint512_encode_hex (env_mp E) sig)])"

definition send_block_v2_tree :: "text_env \<Rightarrow> send_hashables_v2 \<Rightarrow> u512 \<Rightarrow> u64 \<Rightarrow> ptree outcome" where
  "send_block_v2_tree E h sig work =
     obind (to_account (env_blake E) (send_v2_destination h)) (\<lambda>destination.
     Ret [(''type'', ''send_v2''), (''previous'', uint256_encode_hex (env_mp E) (send_v2_previous h)),
       (''destination'', destination), (''action'', action_encode_hex (send_v2_action h)),
       (''work'', to_string_hex work), (''signature'', uint512_encode_hex (env_mp E) sig)])"

definition open_block_tree :: "text_env \<Rightarrow> open_hashables \<Rightarrow> u512 \<Rightarrow> u64 \<Rightarrow> ptree outcome" where
  "open_block_tree E h sig work =
     obind (to_account (env_blake E) (open_representative h)) (\<lambda>rep.
     obind (to_account (env_blake E) (open_account h)) (\<lambda>account.
     Ret [(''type'', ''open''), (''source'', uint256_encode_hex (env_mp E) (open_source h)),
       (''representative'', rep), (''account'', account),
       (''work'', to_string_hex work), (''signature'', uint512_encode_hex (env_mp E) sig)]))"

definition change_block_tree :: "text_env \<Rightarrow> change_hashables \<Rightarrow> u512 \<Rightarrow> u64 \<Rightarrow> ptree outcome" where
  "change_block_tree E h sig work =
     obind (to_account (env_blake E) (change_representative h)) (\<lambda>rep.
     Ret [(''type'', ''change''), (''previous'', uint256_encode_hex (env_mp E) (change_previous h)),
       (''representative'', rep),
       (''work'', to_string_hex work), (''signature'', uint512_encode_hex (env_mp E) sig)])"

definition receive_block_tree :: "text_env \<Rightarrow> receive_hashables \<Rightarrow> u512 \<Rightarrow> u64 \<Rightarrow> ptree outcome" where
  "receive_block_tree E h sig work =
     Ret [(''type'', ''receive''), (''previous'', uint256_encode_hex (env_mp E) (receive_previous h)),
       (''source'', uint256_encode_hex (env_mp E) (receive_source h)),
       (''work'', to_string_hex work), (''signature'', uint512_encode_hex (env_mp E) sig)]"

fun block_tree :: "text_env \<Rightarrow> block \<Rightarrow> ptree outcome" where
  "block_tree E (Send h sig w) = send_block_tree E h sig w"
| "block_tree E (Send_v2 h sig w) = send_block_v2_tree E h sig w"
| "block_tree E (Open h sig w) = open_block_tree E h sig w"
| "block_tree E (Change h sig w) = change_block_tree E h sig w"
| "block_tree E (Receive h sig w) = receive_block_tree E h sig w"

definition to_json :: "text_env \<Rightarrow> (ptree \<Rightarrow> string) \<Rightarrow> block \<Rightarrow> string outcome" where
  "to_json E write_json b = obind (block_tree E b) (\<lambda>t. Ret (write_json t))"

section \<open>Reading: the constructors\<close>

definition send_hashables_json :: "text_env \<Rightarrow> ptree \<Rightarrow> send_hashables option outcome" where
  "send_hashables_json E t =
     attempt (tree_get t ''previous'') (\<lambda>previous_l.
     attempt (tree_get t ''destination'') (\<lambda>destination_l.
     attempt (tree_get t ''balance'') (\<lambda>balance_l.
     attempt (get_hex256 E previous_l) (\<lambda>p.
     attempt (get_account E destination_l) (\<lambda>d.
     attempt (get_hex128 E balance_l) (\<lambda>b.
     Ret (Some \<lparr>send_previous = p, send_destination = d, send_balance = b\<rparr>)))))))"

definition send_block_json :: "text_env \<Rightarrow> ptree \<Rightarrow> block option outcome" where
  "send_block_json E t =
     attempt (send_hashables_json E t) (\<lambda>h.
     attempt (tree_get t ''signature'') (\<lambda>signature_l.
     attempt (tree_get t ''work'') (\<lambda>work_l.
     attempt (get_hex512 E signature_l) (\<lambda>sig.
     attempt (get_work E work_l) (\<lambda>w. Ret (Some (Send h sig w)))))))"

definition send_hashables_v2_json :: "text_env \<Rightarrow> ptree \<Rightarrow> send_hashables_v2 option outcome" where
  "send_hashables_v2_json E t =
     attempt (tree_get t ''previous'') (\<lambda>previous_l.
     attempt (tree_get t ''destination'') (\<lambda>destination_l.
     attempt (tree_get t ''action'') (\<lambda>action_l.
     attempt (get_hex256 E previous_l) (\<lambda>p.
     attempt (get_account E destination_l) (\<lambda>d.
     attempt (Ret (action_decode_hex [] action_l)) (\<lambda>a.
     Ret (Some \<lparr>send_v2_previous = p, send_v2_destination = d, send_v2_action = a\<rparr>)))))))"

definition send_block_v2_json :: "text_env \<Rightarrow> ptree \<Rightarrow> block option outcome" where
  "send_block_v2_json E t =
     attempt (send_hashables_v2_json E t) (\<lambda>h.
     attempt (tree_get t ''signature'') (\<lambda>signature_l.
     attempt (tree_get t ''work'') (\<lambda>work_l.
     attempt (get_hex512 E signature_l) (\<lambda>sig.
     attempt (get_work E work_l) (\<lambda>w. Ret (Some (Send_v2 h sig w)))))))"

definition open_hashables_json :: "text_env \<Rightarrow> ptree \<Rightarrow> open_hashables option outcome" where
  "open_hashables_json E t =
     attempt (tree_get t ''source'') (\<lambda>source_l.
     attempt (tree_get t ''representative'') (\<lambda>representative_l.
     attempt (tree_get t ''account'') (\<lambda>account_l.
     attempt (get_hex256 E source_l) (\<lambda>src.
     attempt (get_account E representative_l) (\<lambda>r.
     attempt (get_account E account_l) (\<lambda>a.
     Ret (Some \<lparr>open_source = src, open_representative = r, open_account = a\<rparr>)))))))"

definition open_block_json :: "text_env \<Rightarrow> ptree \<Rightarrow> block option outcome" where
  "open_block_json E t =
     attempt (open_hashables_json E t) (\<lambda>h.
     attempt (tree_get t ''work'') (\<lambda>work_l.
     attempt (tree_get t ''signature'') (\<lambda>signature_l.
     attempt (get_work E work_l) (\<lambda>w.
     attempt (get_hex512 E signature_l) (\<lambda>sig. Ret (Some (Open h sig w)))))))"

definition change_hashables_json :: "text_env \<Rightarrow> ptree \<Rightarrow> change_hashables option outcome" where
  "change_hashables_json E t =
     attempt (tree_get t ''previous'') (\<lambda>previous_l.
     attempt (tree_get t ''representative'') (\<lambda>representative_l.
     attempt (get_hex256 E previous_l) (\<lambda>p.
     attempt (get_account E representative_l) (\<lambda>r.
     Ret (Some \<lparr>change_previous = p, change_representative = r\<rparr>)))))"

definition change_block_json :: "text_env \<Rightarrow> ptree \<Rightarrow> block option outcome" where
  "change_block_json E t =
     attempt (change_hashables_json E t) (\<lambda>h.
     attempt (tree_get t ''work'') (\<lambda>work_l.
     attempt (tree_get t ''signature'') (\<lambda>signature_l.
     attempt (get_work E work_l) (\<lambda>w.
     attempt (get_hex512 E signature_l) (\<lambda>sig. Ret (Some (Change h sig w)))))))"

definition receive_hashables_json :: "text_env \<Rightarrow> ptree \<Rightarrow> receive_hashables option outcome" where
  "receive_hashables_json E t =
     attempt (tree_get t ''previous'') (\<lambda>previous_l.
     attempt (tree_get t ''source'') (\<lambda>source_l.
     attempt (get_hex256 E previous_l) (\<lambda>p.
     attempt (get_hex256 E source_l) (\<lambda>src.
     Ret (Some \<lparr>receive_previous = p, receive_source = src\<rparr>)))))"

definition receive_block_json :: "text_env \<Rightarrow> ptree \<Rightarrow> block option outcome" where
  "receive_block_json E t =
     attempt (receive_hashables_json E t) (\<lambda>h.
     attempt (tree_get t ''signature'') (\<lambda>signature_l.
     attempt (tree_get t ''work'') (\<lambda>work_l.
     attempt (get_hex512 E signature_l) (\<lambda>sig.
     attempt (get_work E work_l) (\<lambda>w. Ret (Some (Receive h sig w)))))))"

definition deserialize_block_json :: "text_env \<Rightarrow> ptree \<Rightarrow> block option outcome" where
  "deserialize_block_json E t =
     attempt (tree_get t ''type'') (\<lambda>type.
       if type = ''receive'' then receive_block_json E t
       else if type = ''send'' then send_block_json E t
       else if type = ''send_v2'' then send_block_v2_json E t
       else if type = ''open'' then open_block_json E t
       else if type = ''change'' then change_block_json E t
       else Ret None)"


section \<open>Reading: the methods\<close>

text \<open>
  The \<^verbatim>\<open>deserialize_json\<close> methods assert the type, and those of open and change blocks read the accounts as
  hexadecimal numbers.
\<close>

definition check_type :: "ptree \<Rightarrow> string \<Rightarrow> unit option outcome" where
  "check_type t name = attempt (tree_get t ''type'') (\<lambda>x. if x = name then Ret (Some ()) else Abort)"

definition send_block_deserialize_json :: "text_env \<Rightarrow> ptree \<Rightarrow> block option outcome" where
  "send_block_deserialize_json E t =
     attempt (check_type t ''send'') (\<lambda>_.
     attempt (tree_get t ''previous'') (\<lambda>previous_l.
     attempt (tree_get t ''destination'') (\<lambda>destination_l.
     attempt (tree_get t ''balance'') (\<lambda>balance_l.
     attempt (tree_get t ''work'') (\<lambda>work_l.
     attempt (tree_get t ''signature'') (\<lambda>signature_l.
     attempt (get_hex256 E previous_l) (\<lambda>p.
     attempt (get_account E destination_l) (\<lambda>d.
     attempt (get_hex128 E balance_l) (\<lambda>b.
     attempt (get_work E work_l) (\<lambda>w.
     attempt (get_hex512 E signature_l) (\<lambda>sig.
     Ret (Some (Send \<lparr>send_previous = p, send_destination = d, send_balance = b\<rparr> sig w)))))))))))))"

definition send_block_v2_deserialize_json :: "text_env \<Rightarrow> byte list \<Rightarrow> ptree \<Rightarrow> block option outcome" where
  "send_block_v2_deserialize_json E act t =
     attempt (check_type t ''send'') (\<lambda>_.
     attempt (tree_get t ''previous'') (\<lambda>previous_l.
     attempt (tree_get t ''destination'') (\<lambda>destination_l.
     attempt (tree_get t ''action'') (\<lambda>action_l.
     attempt (tree_get t ''work'') (\<lambda>work_l.
     attempt (tree_get t ''signature'') (\<lambda>signature_l.
     attempt (get_hex256 E previous_l) (\<lambda>p.
     attempt (get_account E destination_l) (\<lambda>d.
     attempt (Ret (action_decode_hex act action_l)) (\<lambda>a.
     attempt (get_work E work_l) (\<lambda>w.
     attempt (get_hex512 E signature_l) (\<lambda>sig.
     Ret (Some (Send_v2 \<lparr>send_v2_previous = p, send_v2_destination = d, send_v2_action = a\<rparr> sig w)))))))))))))"

definition open_block_deserialize_json :: "text_env \<Rightarrow> ptree \<Rightarrow> block option outcome" where
  "open_block_deserialize_json E t =
     attempt (check_type t ''open'') (\<lambda>_.
     attempt (tree_get t ''source'') (\<lambda>source_l.
     attempt (tree_get t ''representative'') (\<lambda>representative_l.
     attempt (tree_get t ''account'') (\<lambda>account_l.
     attempt (tree_get t ''work'') (\<lambda>work_l.
     attempt (tree_get t ''signature'') (\<lambda>signature_l.
     attempt (get_hex256 E source_l) (\<lambda>src.
     attempt (get_hex256 E representative_l) (\<lambda>r.
     attempt (get_hex256 E account_l) (\<lambda>a.
     attempt (get_work E work_l) (\<lambda>w.
     attempt (get_hex512 E signature_l) (\<lambda>sig.
     Ret (Some (Open \<lparr>open_source = src, open_representative = r, open_account = a\<rparr> sig w)))))))))))))"

definition change_block_deserialize_json :: "text_env \<Rightarrow> ptree \<Rightarrow> block option outcome" where
  "change_block_deserialize_json E t =
     attempt (check_type t ''change'') (\<lambda>_.
     attempt (tree_get t ''previous'') (\<lambda>previous_l.
     attempt (tree_get t ''representative'') (\<lambda>representative_l.
     attempt (tree_get t ''work'') (\<lambda>work_l.
     attempt (tree_get t ''signature'') (\<lambda>signature_l.
     attempt (get_hex256 E previous_l) (\<lambda>p.
     attempt (get_hex256 E representative_l) (\<lambda>r.
     attempt (get_work E work_l) (\<lambda>w.
     attempt (get_hex512 E signature_l) (\<lambda>sig.
     Ret (Some (Change \<lparr>change_previous = p, change_representative = r\<rparr> sig w)))))))))))"

definition receive_block_deserialize_json :: "text_env \<Rightarrow> ptree \<Rightarrow> block option outcome" where
  "receive_block_deserialize_json E t =
     attempt (check_type t ''receive'') (\<lambda>_.
     attempt (tree_get t ''previous'') (\<lambda>previous_l.
     attempt (tree_get t ''source'') (\<lambda>source_l.
     attempt (tree_get t ''work'') (\<lambda>work_l.
     attempt (tree_get t ''signature'') (\<lambda>signature_l.
     attempt (get_hex256 E previous_l) (\<lambda>p.
     attempt (get_hex256 E source_l) (\<lambda>src.
     attempt (get_work E work_l) (\<lambda>w.
     attempt (get_hex512 E signature_l) (\<lambda>sig.
     Ret (Some (Receive \<lparr>receive_previous = p, receive_source = src\<rparr> sig w)))))))))))"

section \<open>Round trips\<close>

definition text_env_ok :: "text_env \<Rightarrow> bool" where
  "text_env_ok E \<longleftrightarrow> multiprecision_ok (env_mp E) \<and> (\<forall>bs. length (env_blake E 5 bs) = 5)"

lemma env_hex [simp]:
  assumes "text_env_ok E"
  shows "get_hex256 E (uint256_encode_hex (env_mp E) a) = Ret (Some a)"
    "get_hex512 E (uint512_encode_hex (env_mp E) b) = Ret (Some b)"
    "get_hex128 E (uint128_encode_hex (env_mp E) c) = Ret (Some c)"
    "get_work E (to_string_hex w) = Ret (Some w)"
  using assms hex_decodes [of "env_mp E"] work_text_decodes
  by (simp_all add: get_hex256_def get_hex512_def get_hex128_def get_work_def text_env_ok_def)

lemma env_account:
  assumes "text_env_ok E"
  obtains t where "to_account (env_blake E) a = Ret t" "get_account E t = Ret (Some a)" "length t = 64"
    "take 3 t = ''xrb''"
  using account_text [of "env_blake E" a 0] assms
  by (auto simp: text_env_ok_def to_account_def get_account_def)

text \<open>
  C27: A block survives its JSON form: the tree a block is written to is read back, by the function that picks
  the class from the type, as the same block.  Asked of the environment: the multiprecision library inserts and
  extracts numbers as \<open>multiprecision_ok\<close> says (hexadecimal letters of either case), and BLAKE2b gives a checksum
  of the five bytes it is asked for.
\<close>

theorem json_roundtrip:
  assumes E: "text_env_ok E"
  shows "\<exists>t. block_tree E b = Ret t \<and> deserialize_block_json E t = Ret (Some b)"
proof (cases b)
  case (Send h sig w)
  obtain t where "to_account (env_blake E) (send_destination h) = Ret t" "get_account E t = Ret (Some (send_destination h))"
    by (rule env_account [OF E])
  with Send E show ?thesis
    by (simp add: send_block_tree_def deserialize_block_json_def tree_get_def send_block_json_def send_hashables_json_def)
next
  case (Send_v2 h sig w)
  obtain t where "to_account (env_blake E) (send_v2_destination h) = Ret t"
    "get_account E t = Ret (Some (send_v2_destination h))" by (rule env_account [OF E])
  with Send_v2 E show ?thesis
    by (simp add: send_block_v2_tree_def deserialize_block_json_def tree_get_def send_block_v2_json_def
        send_hashables_v2_json_def action_decodes)
next
  case (Open h sig w)
  obtain t where t: "to_account (env_blake E) (open_representative h) = Ret t"
    "get_account E t = Ret (Some (open_representative h))" by (rule env_account [OF E])
  obtain u where "to_account (env_blake E) (open_account h) = Ret u" "get_account E u = Ret (Some (open_account h))"
    by (rule env_account [OF E])
  with t Open E show ?thesis
    by (simp add: open_block_tree_def deserialize_block_json_def tree_get_def open_block_json_def open_hashables_json_def)
next
  case (Change h sig w)
  obtain t where "to_account (env_blake E) (change_representative h) = Ret t"
    "get_account E t = Ret (Some (change_representative h))" by (rule env_account [OF E])
  with Change E show ?thesis
    by (simp add: change_block_tree_def deserialize_block_json_def tree_get_def change_block_json_def
        change_hashables_json_def)
next
  case (Receive h sig w)
  with E show ?thesis
    by (simp add: receive_block_tree_def deserialize_block_json_def tree_get_def receive_block_json_def
        receive_hashables_json_def)
qed

definition stops_at_r :: "multiprecision \<Rightarrow> bool" where
  "stops_at_r mp \<longleftrightarrow> (\<forall>w t n. CHR ''r'' \<in> set t \<longrightarrow> get_hex mp w t \<noteq> Extracts n True)"

definition plain_env :: text_env where
  "plain_env = \<lparr>env_mp = plain_multiprecision, env_blake = (\<lambda>n bs. replicate n 7), env_junk = 3\<rparr>"

lemma plain_env_ok: "text_env_ok plain_env"
  by (simp add: text_env_ok_def plain_env_def plain_multiprecision_ok)

theorem json_roundtrip_witness:
  "\<exists>t. block_tree plain_env (Send \<lparr>send_previous = 5, send_destination = 6, send_balance = 7\<rparr> 8 9) = Ret t \<and>
    deserialize_block_json plain_env t = Ret (Some (Send \<lparr>send_previous = 5, send_destination = 6, send_balance = 7\<rparr> 8 9))"
  by (rule json_roundtrip [OF plain_env_ok])

text \<open>
  C37: Of the methods that read a tree, those of send and receive blocks read back the block that the tree was
  written from, and no other does: the method of open and change blocks reports an error on every tree
  such a block is written to, because it reads accounts as hexadecimal numbers, and that of send_v2 blocks
  fails its assertion on the type.  The environment is asked the same as for the round trip, and that the
  extraction of a hexadecimal number stops at the character r (\<open>stops_at_r\<close>).
\<close>

theorem deserialize_json_methods:
  assumes E: "text_env_ok E" and r: "stops_at_r (env_mp E)" and t: "block_tree E b = Ret t"
  shows "case b of
      Send _ _ _ \<Rightarrow> send_block_deserialize_json E t = Ret (Some b)
    | Receive _ _ _ \<Rightarrow> receive_block_deserialize_json E t = Ret (Some b)
    | Open _ _ _ \<Rightarrow> open_block_deserialize_json E t = Ret None
    | Change _ _ _ \<Rightarrow> change_block_deserialize_json E t = Ret None
    | Send_v2 _ _ _ \<Rightarrow> send_block_v2_deserialize_json E act t = Abort"
proof -
  have bad: "get_hex256 E u = Ret None" if "take 3 u = ''xrb''" for u
  proof -
    have "CHR ''r'' \<in> set (take 3 u)" using that by simp
    then have "CHR ''r'' \<in> set u" by (rule in_set_takeD)
    with r have "\<forall>n. get_hex (env_mp E) 256 u \<noteq> Extracts n True" by (simp add: stops_at_r_def)
    then show ?thesis
      by (auto simp: get_hex256_def uint256_decode_hex_def extracted_def accepted_def split: extraction.split)
  qed
  show ?thesis
  proof (cases b)
    case (Send h sig w)
    obtain u where "to_account (env_blake E) (send_destination h) = Ret u" "get_account E u = Ret (Some (send_destination h))"
      by (rule env_account [OF E])
    with Send E t show ?thesis
      by (auto simp: send_block_tree_def send_block_deserialize_json_def check_type_def tree_get_def)
  next
    case (Send_v2 h sig w)
    obtain u where "to_account (env_blake E) (send_v2_destination h) = Ret u" by (rule env_account [OF E])
    with Send_v2 t show ?thesis
      by (auto simp: send_block_v2_tree_def send_block_v2_deserialize_json_def check_type_def tree_get_def)
  next
    case (Open h sig w)
    obtain u where u: "to_account (env_blake E) (open_representative h) = Ret u" "take 3 u = ''xrb''"
      by (rule env_account [OF E])
    obtain x where "to_account (env_blake E) (open_account h) = Ret x" by (rule env_account [OF E])
    with u Open E t bad show ?thesis
      by (auto simp: open_block_tree_def open_block_deserialize_json_def check_type_def tree_get_def)
  next
    case (Change h sig w)
    obtain u where "to_account (env_blake E) (change_representative h) = Ret u" "take 3 u = ''xrb''"
      by (rule env_account [OF E])
    with Change E t bad show ?thesis
      by (auto simp: change_block_tree_def change_block_deserialize_json_def check_type_def tree_get_def)
  next
    case (Receive h sig w)
    with E t show ?thesis
      by (auto simp: receive_block_tree_def receive_block_deserialize_json_def check_type_def tree_get_def)
  qed
qed

theorem deserialize_json_methods_witness:
  "\<exists>t. block_tree plain_env (Change \<lparr>change_previous = 5, change_representative = 6\<rparr> 8 9) = Ret t \<and>
    change_block_deserialize_json plain_env t = Ret None"
proof -
  let ?b = "Change \<lparr>change_previous = 5, change_representative = 6\<rparr> 8 9"
  obtain u where "to_account (env_blake plain_env) 6 = Ret u" by (rule env_account [OF plain_env_ok])
  then obtain t where t: "block_tree plain_env ?b = Ret t" by (simp add: change_block_tree_def)
  have v: "hex_digit_value CHR ''r'' = None" by code_simp
  have "stops_at_r (env_mp plain_env)"
    using v by (auto simp: stops_at_r_def plain_env_def plain_multiprecision_def digits_of_def list_all_iff)
  from deserialize_json_methods [OF plain_env_ok this t] t show ?thesis by simp
qed

end
