(* ===== verification/Blake2b.thy ===== *)
theory Blake2b
  imports Codec
begin

text \<open>
  The hash function, \<^verbatim>\<open>blake2/blake2b-ref.c\<close> with the helpers of \<^verbatim>\<open>blake2/blake2-impl.h\<close>: the streaming
  interface \<^verbatim>\<open>blake2b_init\<close>, \<^verbatim>\<open>blake2b_update\<close>, \<^verbatim>\<open>blake2b_final\<close> and the one-shot \<^verbatim>\<open>blake2b\<close>.

  The state has the fields of \<^verbatim>\<open>blake2b_state\<close>; an array is a list of its length.  A function that returns
  an error code returns it first, then the new state and the bytes it stores through the output pointer.
  Sizes are natural numbers.  The pointers passed by the program are never null; a null pointer is an
  argument that is \<open>None\<close> where the function checks for it.

  The reference definition \<open>blake2b_spec\<close> hashes a complete message: it cuts it into blocks of 128 bytes and
  keeps the last one, which may be full, for the final compression; the counter is a natural number.
\<close>

section \<open>State and constants\<close>

record blake2b_state =
  bh :: "u64 list"
  bt0 :: u64
  bt1 :: u64
  bf0 :: u64
  bf1 :: u64
  buf :: "byte list"
  buflen :: nat
  outlen :: nat
  last_node :: byte

record blake2b_param =
  digest_length :: byte
  key_length :: byte
  fanout :: byte
  depth :: byte
  leaf_length :: u32
  node_offset :: u32
  xof_length :: u32
  node_depth :: byte
  inner_length :: byte
  param_reserved :: "byte list"
  param_salt :: "byte list"
  param_personal :: "byte list"

definition blake2b_IV :: "u64 list" where
  "blake2b_IV =
    [0x6a09e667f3bcc908, 0xbb67ae8584caa73b, 0x3c6ef372fe94f82b, 0xa54ff53a5f1d36f1,
     0x510e527fade682d1, 0x9b05688c2b3e6c1f, 0x1f83d9abfb41bd6b, 0x5be0cd19137e2179]"

definition blake2b_sigma :: "nat list list" where
  "blake2b_sigma =
    [[ 0,  1,  2,  3,  4,  5,  6,  7,  8,  9, 10, 11, 12, 13, 14, 15],
     [14, 10,  4,  8,  9, 15, 13,  6,  1, 12,  0,  2, 11,  7,  5,  3],
     [11,  8, 12,  0,  5,  2, 15, 13, 10, 14,  3,  6,  7,  1,  9,  4],
     [ 7,  9,  3,  1, 13, 12, 11, 14,  2,  6,  5, 10,  4,  0, 15,  8],
     [ 9,  0,  5,  7,  2,  4, 10, 15, 14,  1, 11, 12,  6,  8,  3, 13],
     [ 2, 12,  6, 10,  0, 11,  8,  3,  4, 13,  7,  5, 15, 14,  1,  9],
     [12,  5,  1, 15, 14, 13,  4, 10,  0,  7,  6,  3,  9,  2,  8, 11],
     [13, 11,  7, 14, 12,  1,  3,  9,  5,  0, 15,  4,  8,  6,  2, 10],
     [ 6, 15, 14,  9, 11,  3,  0,  8, 12,  2, 13,  7,  1,  4, 10,  5],
     [10,  2,  8,  4,  7,  6,  1,  5, 15, 11,  9, 14,  3, 12, 13,  0],
     [ 0,  1,  2,  3,  4,  5,  6,  7,  8,  9, 10, 11, 12, 13, 14, 15],
     [14, 10,  4,  8,  9, 15, 13,  6,  1, 12,  0,  2, 11,  7,  5,  3]]"

definition load64 :: "byte list \<Rightarrow> u64" where
  "load64 p = of_le_bytes (take 8 p)"

definition store64 :: "u64 \<Rightarrow> byte list" where
  "store64 w = le_bytes 8 w"

definition rotr64 :: "u64 \<Rightarrow> nat \<Rightarrow> u64" where
  "rotr64 w c = drop_bit c w OR push_bit (64 - c) w"

section \<open>Compression\<close>

definition mix_G :: "u64 list \<Rightarrow> nat \<Rightarrow> nat \<Rightarrow> nat \<Rightarrow> nat \<Rightarrow> nat \<Rightarrow> nat \<Rightarrow> u64 list \<Rightarrow> u64 list" where
  "mix_G m r i a b c d v =
    (let v = v[a := v ! a + v ! b + m ! (blake2b_sigma ! r ! (2 * i + 0))];
         v = v[d := rotr64 (v ! d XOR v ! a) 32];
         v = v[c := v ! c + v ! d];
         v = v[b := rotr64 (v ! b XOR v ! c) 24];
         v = v[a := v ! a + v ! b + m ! (blake2b_sigma ! r ! (2 * i + 1))];
         v = v[d := rotr64 (v ! d XOR v ! a) 16];
         v = v[c := v ! c + v ! d];
         v = v[b := rotr64 (v ! b XOR v ! c) 63]
     in v)"

definition ROUND :: "u64 list \<Rightarrow> nat \<Rightarrow> u64 list \<Rightarrow> u64 list" where
  "ROUND m r v =
    (let v = mix_G m r 0 0 4  8 12 v;
         v = mix_G m r 1 1 5  9 13 v;
         v = mix_G m r 2 2 6 10 14 v;
         v = mix_G m r 3 3 7 11 15 v;
         v = mix_G m r 4 0 5 10 15 v;
         v = mix_G m r 5 1 6 11 12 v;
         v = mix_G m r 6 2 7  8 13 v;
         v = mix_G m r 7 3 4  9 14 v
     in v)"

definition blake2b_compress :: "blake2b_state \<Rightarrow> byte list \<Rightarrow> blake2b_state" where
  "blake2b_compress S block =
    (let m = map (\<lambda>i. load64 (drop (i * 8) block)) [0..<16];
         v = bh S @ take 4 blake2b_IV @
           [blake2b_IV ! 4 XOR bt0 S, blake2b_IV ! 5 XOR bt1 S, blake2b_IV ! 6 XOR bf0 S, blake2b_IV ! 7 XOR bf1 S];
         v = fold (ROUND m) [0..<12] v
     in S\<lparr>bh := map (\<lambda>i. bh S ! i XOR v ! i XOR v ! (i + 8)) [0..<8]\<rparr>)"

section \<open>Streaming interface\<close>

definition blake2b_set_lastnode :: "blake2b_state \<Rightarrow> blake2b_state" where
  "blake2b_set_lastnode S = S\<lparr>bf1 := - 1\<rparr>"

definition blake2b_is_lastblock :: "blake2b_state \<Rightarrow> bool" where
  "blake2b_is_lastblock S \<longleftrightarrow> bf0 S \<noteq> 0"

definition blake2b_set_lastblock :: "blake2b_state \<Rightarrow> blake2b_state" where
  "blake2b_set_lastblock S = (let S = if last_node S \<noteq> 0 then blake2b_set_lastnode S else S in S\<lparr>bf0 := - 1\<rparr>)"

definition blake2b_increment_counter :: "blake2b_state \<Rightarrow> u64 \<Rightarrow> blake2b_state" where
  "blake2b_increment_counter S inc =
    (let S = S\<lparr>bt0 := bt0 S + inc\<rparr> in S\<lparr>bt1 := bt1 S + (if bt0 S < inc then 1 else 0)\<rparr>)"

definition blake2b_init0 :: blake2b_state where
  "blake2b_init0 = \<lparr>bh = blake2b_IV, bt0 = 0, bt1 = 0, bf0 = 0, bf1 = 0, buf = replicate 128 0, buflen = 0,
     outlen = 0, last_node = 0\<rparr>"

definition param_bytes :: "blake2b_param \<Rightarrow> byte list" where
  "param_bytes P = [digest_length P, key_length P, fanout P, depth P] @ write_le (leaf_length P) @
     write_le (node_offset P) @ write_le (xof_length P) @ [node_depth P, inner_length P] @ param_reserved P @
     param_salt P @ param_personal P"

definition blake2b_init_param :: "blake2b_param \<Rightarrow> blake2b_state" where
  "blake2b_init_param P =
    (let p = param_bytes P; S = blake2b_init0;
         S = S\<lparr>bh := map (\<lambda>i. bh S ! i XOR load64 (drop (8 * i) p)) [0..<8]\<rparr>
     in S\<lparr>outlen := unat (digest_length P)\<rparr>)"

definition sequential_param :: "nat \<Rightarrow> nat \<Rightarrow> blake2b_param" where
  "sequential_param n k = \<lparr>digest_length = of_nat n, key_length = of_nat k, fanout = 1, depth = 1, leaf_length = 0,
     node_offset = 0, xof_length = 0, node_depth = 0, inner_length = 0, param_reserved = replicate 14 0,
     param_salt = replicate 16 0, param_personal = replicate 16 0\<rparr>"

definition blake2b_init :: "blake2b_state \<Rightarrow> nat \<Rightarrow> int \<times> blake2b_state" where
  "blake2b_init S n = (if n = 0 \<or> 64 < n then (-1, S) else (0, blake2b_init_param (sequential_param n 0)))"

definition memcpy_at :: "nat \<Rightarrow> byte list \<Rightarrow> byte list \<Rightarrow> byte list" where
  "memcpy_at k xs b = take k b @ xs @ drop (k + length xs) b"

function blake2b_update_loop :: "blake2b_state \<Rightarrow> byte list \<Rightarrow> blake2b_state \<times> byte list" where
  "blake2b_update_loop S ins =
    (if length ins > 128
     then blake2b_update_loop (blake2b_compress (blake2b_increment_counter S 128) (take 128 ins)) (drop 128 ins)
     else (S, ins))"
  by auto
termination by (relation "measure (\<lambda>(S, ins). length ins)") auto

definition blake2b_update :: "blake2b_state \<Rightarrow> byte list \<Rightarrow> blake2b_state" where
  "blake2b_update S ins =
    (if length ins > 0 then
       (let left = buflen S; fill = 128 - left;
            (S, ins) =
              (if length ins > fill then
                 (let S = S\<lparr>buflen := 0, buf := memcpy_at left (take fill ins) (buf S)\<rparr>;
                      S = blake2b_increment_counter S 128;
                      S = blake2b_compress S (buf S)
                  in blake2b_update_loop S (drop fill ins))
               else (S, ins))
        in S\<lparr>buf := memcpy_at (buflen S) ins (buf S), buflen := buflen S + length ins\<rparr>)
     else S)"

definition blake2b_final :: "blake2b_state \<Rightarrow> nat \<Rightarrow> int \<times> blake2b_state \<times> byte list" where
  "blake2b_final S n =
    (if n < outlen S then (-1, S, [])
     else if blake2b_is_lastblock S then (-1, S, [])
     else
       (let S = blake2b_increment_counter S (of_nat (buflen S));
            S = blake2b_set_lastblock S;
            S = S\<lparr>buf := memcpy_at (buflen S) (replicate (128 - buflen S) 0) (buf S)\<rparr>;
            S = blake2b_compress S (buf S);
            buffer = concat (map store64 (bh S))
        in (0, S, take (outlen S) buffer)))"

definition blake2b_init_key :: "blake2b_state \<Rightarrow> nat \<Rightarrow> byte list option \<Rightarrow> int \<times> blake2b_state" where
  "blake2b_init_key S n key =
    (if n = 0 \<or> 64 < n then (-1, S)
     else case key of
       None \<Rightarrow> (-1, S)
     | Some k \<Rightarrow>
         if length k = 0 \<or> length k > 64 then (-1, S)
         else (0, blake2b_update (blake2b_init_param (sequential_param n (length k)))
           (memcpy_at 0 k (replicate 128 0))))"

text \<open>
  The one-shot function, with the message, the key and their lengths given separately as the caller passes
  them; \<open>uninitialised\<close> is what the local state holds before it is set.
\<close>

definition blake2b_hash :: "blake2b_state \<Rightarrow> nat \<Rightarrow> byte list \<Rightarrow> byte list option \<Rightarrow> int \<times> byte list" where
  "blake2b_hash uninitialised n ins key =
    (if n = 0 \<or> n > 64 then (-1, [])
     else if (case key of None \<Rightarrow> False | Some k \<Rightarrow> length k > 64) then (-1, [])
     else
       (let (e, S) = (case key of
            Some k \<Rightarrow> if length k > 0 then blake2b_init_key uninitialised n key else blake2b_init uninitialised n
          | None \<Rightarrow> blake2b_init uninitialised n)
        in if e < 0 then (-1, [])
           else (0, snd (snd (blake2b_final (blake2b_update S ins) n)))))"

section \<open>Reference definition\<close>

definition compress_at :: "u64 list \<Rightarrow> byte list \<Rightarrow> nat \<Rightarrow> bool \<Rightarrow> u64 list" where
  "compress_at hs block n final =
    bh (blake2b_compress \<lparr>bh = hs, bt0 = of_nat n, bt1 = of_nat (n div 2 ^ 64), bf0 = (if final then - 1 else 0),
      bf1 = 0, buf = [], buflen = 0, outlen = 0, last_node = 0\<rparr> block)"

function absorb :: "u64 list \<Rightarrow> nat \<Rightarrow> byte list \<Rightarrow> u64 list \<times> nat \<times> byte list" where
  "absorb hs n m =
    (if length m > 128 then absorb (compress_at hs (take 128 m) (n + 128) False) (n + 128) (drop 128 m)
     else (hs, n, m))"
  by auto
termination by (relation "measure (\<lambda>(hs, n, m). length m)") auto

definition blake2b_spec :: "nat \<Rightarrow> byte list \<Rightarrow> byte list \<Rightarrow> byte list" where
  "blake2b_spec n key m =
    (let m = (if key = [] then m else key @ replicate (128 - length key) 0 @ m);
         (hs, k, r) = absorb (bh (blake2b_init_param (sequential_param n (length key)))) 0 m
     in take n (concat (map store64 (compress_at hs (r @ replicate (128 - length r) 0) (k + length r) True))))"

section \<open>Streaming is hashing the concatenation\<close>

declare absorb.simps [simp del] blake2b_update_loop.simps [simp del]

text \<open>
  \<open>absorbed S hs m\<close>: the state \<open>S\<close> is one that started with the chaining value \<open>hs\<close> and has been given the
  message \<open>m\<close>.
\<close>

definition counter :: "blake2b_state \<Rightarrow> nat \<Rightarrow> bool" where
  "counter S n \<longleftrightarrow> bt0 S = of_nat n \<and> bt1 S = of_nat (n div 2 ^ 64)"

definition absorbed :: "blake2b_state \<Rightarrow> u64 list \<Rightarrow> byte list \<Rightarrow> bool" where
  "absorbed S hs m \<longleftrightarrow> bf0 S = 0 \<and> bf1 S = 0 \<and> last_node S = 0 \<and> length (buf S) = 128 \<and> buflen S \<le> 128 \<and>
    (\<exists>n. absorb hs 0 m = (bh S, n, take (buflen S) (buf S)) \<and> counter S n)"

lemma absorb_append:
  "absorb hs n m = (hs', n', r) \<Longrightarrow> absorb hs n (m @ x) = absorb hs' n' (r @ x)"
proof (induction hs n m rule: absorb.induct)
  case (1 hs n m)
  show ?case
  proof (cases "length m > 128")
    case True
    then have "absorb (compress_at hs (take 128 m) (n + 128) False) (n + 128) (drop 128 m) = (hs', n', r)"
      using 1(2) by (simp add: absorb.simps [of hs n m])
    with 1(1) [OF True] True show ?thesis by (simp add: absorb.simps [of hs n "m @ x"])
  next
    case False
    with 1(2) show ?thesis by (simp add: absorb.simps [of hs n m])
  qed
qed

lemma carry_nat:
  assumes "inc < (M :: nat)"
  shows "(n + inc) div M = n div M + (if (n + inc) mod M < inc then 1 else 0)"
proof -
  define q r where "q = n div M" and "r = n mod M"
  have n: "n = q * M + r" and r: "r < M" using assms by (simp_all add: q_def r_def)
  have d: "(n + inc) div M = q + (r + inc) div M" and m: "(n + inc) mod M = (r + inc) mod M"
    using assms by (simp_all add: n add.assoc)
  show ?thesis
  proof (cases "r + inc < M")
    case True
    then show ?thesis unfolding d m q_def [symmetric] by simp
  next
    case False
    then have "(r + inc) div M = 1" "(r + inc) mod M = r + inc - M"
      using r assms by (simp_all add: div_nat_eqI mod_if)
    then show ?thesis using r False unfolding d m q_def [symmetric] by simp
  qed
qed

lemma carry:
  assumes "inc < 2 ^ 64"
  shows "(of_nat ((n + inc) div 2 ^ 64) :: u64) =
    of_nat (n div 2 ^ 64) + (if (of_nat (n + inc) :: u64) < of_nat inc then 1 else 0)"
proof -
  have u: "unat (of_nat k :: u64) = k mod 2 ^ 64" for k by (simp only: unat_of_nat take_bit_eq_mod len_num1 len_num0 len_bit0 len_bit1) simp
  have "(of_nat (n + inc) :: u64) < of_nat inc \<longleftrightarrow> (n + inc) mod 2 ^ 64 < inc"
    unfolding word_less_nat_alt u using assms by (simp only: mod_less)
  then show ?thesis unfolding carry_nat [OF assms, of n] by (simp only: of_nat_add split: if_split) simp
qed

lemma counter_increment:
  assumes "counter S n" "k < 2 ^ 64"
  shows "counter (blake2b_increment_counter S (of_nat k)) (n + k)"
  using assms(1) carry [OF assms(2), of n]
  by (simp add: counter_def blake2b_increment_counter_def Let_def)

lemma increment_counter_other [simp]:
  "bh (blake2b_increment_counter S k) = bh S" "bf0 (blake2b_increment_counter S k) = bf0 S"
  "bf1 (blake2b_increment_counter S k) = bf1 S" "buf (blake2b_increment_counter S k) = buf S"
  "buflen (blake2b_increment_counter S k) = buflen S" "outlen (blake2b_increment_counter S k) = outlen S"
  "last_node (blake2b_increment_counter S k) = last_node S"
  by (simp_all add: blake2b_increment_counter_def Let_def)

lemma compress_other [simp]:
  "bt0 (blake2b_compress S b) = bt0 S" "bt1 (blake2b_compress S b) = bt1 S" "bf0 (blake2b_compress S b) = bf0 S"
  "bf1 (blake2b_compress S b) = bf1 S" "buf (blake2b_compress S b) = buf S" "buflen (blake2b_compress S b) = buflen S"
  "outlen (blake2b_compress S b) = outlen S" "last_node (blake2b_compress S b) = last_node S"
  by (simp_all add: blake2b_compress_def Let_def)

lemma counter_compress [simp]: "counter (blake2b_compress S b) n \<longleftrightarrow> counter S n"
  by (simp add: counter_def)

lemma bh_compress:
  assumes "counter S n" "bf0 S = (if final then - 1 else 0)" "bf1 S = 0"
  shows "bh (blake2b_compress S b) = compress_at (bh S) b n final"
  using assms by (simp add: compress_at_def blake2b_compress_def Let_def counter_def)

definition same_frame :: "blake2b_state \<Rightarrow> blake2b_state \<Rightarrow> bool" where
  "same_frame S T \<longleftrightarrow> bf0 T = bf0 S \<and> bf1 T = bf1 S \<and> buf T = buf S \<and> buflen T = buflen S \<and> outlen T = outlen S \<and>
    last_node T = last_node S"

lemma update_loop:
  assumes "counter S n" "bf0 S = 0" "bf1 S = 0"
  shows "\<exists>T r n'. blake2b_update_loop S ins = (T, r) \<and> absorb (bh S) n ins = (bh T, n', r) \<and> counter T n' \<and>
    same_frame S T \<and> length r \<le> 128"
  using assms
proof (induction S ins arbitrary: n rule: blake2b_update_loop.induct)
  case (1 S ins)
  show ?case
  proof (cases "length ins > 128")
    case True
    let ?U = "blake2b_increment_counter S 128"
    let ?T = "blake2b_compress ?U (take 128 ins)"
    have c: "counter ?U (n + 128)" using counter_increment [OF 1(2), of 128] by simp
    have h: "bh ?T = compress_at (bh S) (take 128 ins) (n + 128) False"
      using bh_compress [OF c, of False] 1(3,4) by simp
    from 1(1) [OF True, of "n + 128"] c 1(3,4) h True show ?thesis
      by (simp add: blake2b_update_loop.simps [of S ins] absorb.simps [of "bh S" n ins] same_frame_def)
  next
    case False
    with 1(2) show ?thesis
      by (simp add: blake2b_update_loop.simps [of S ins] absorb.simps [of "bh S" n ins] same_frame_def)
  qed
qed

lemma length_memcpy_at: "k + length xs \<le> length b \<Longrightarrow> length (memcpy_at k xs b) = length b"
  by (simp add: memcpy_at_def)

lemma take_memcpy_at: "k + length xs \<le> length b \<Longrightarrow> take (k + length xs) (memcpy_at k xs b) = take k b @ xs"
  by (simp add: memcpy_at_def)

lemma update_absorbed:
  assumes a: "absorbed S hs m"
  shows "absorbed (blake2b_update S x) hs (m @ x) \<and> outlen (blake2b_update S x) = outlen S"
proof -
  obtain n where n: "absorb hs 0 m = (bh S, n, take (buflen S) (buf S))" "counter S n"
    and f: "bf0 S = 0" "bf1 S = 0" "last_node S = 0" "length (buf S) = 128" "buflen S \<le> 128"
    using a by (auto simp: absorbed_def)
  let ?r = "take (buflen S) (buf S)"
  have ax: "absorb hs 0 (m @ x) = absorb (bh S) n (?r @ x)" by (rule absorb_append [OF n(1)])
  consider "x = []" | "x \<noteq> []" "length x \<le> 128 - buflen S" | "length x > 128 - buflen S" by fastforce
  then show ?thesis
  proof cases
    case 1
    with a show ?thesis by (simp add: blake2b_update_def)
  next
    case 2
    then have l: "buflen S + length x \<le> length (buf S)" using f by simp
    have "absorb (bh S) n (?r @ x) = (bh S, n, ?r @ x)" using l f by (subst absorb.simps) simp
    with 2 l f n ax show ?thesis
      by (simp add: blake2b_update_def absorbed_def take_memcpy_at length_memcpy_at counter_def Let_def)
  next
    case 3
    let ?fill = "128 - buflen S"
    let ?b = "memcpy_at (buflen S) (take ?fill x) (buf S)"
    let ?S = "S\<lparr>buflen := 0, buf := ?b\<rparr>"
    let ?U = "blake2b_increment_counter ?S 128"
    let ?T = "blake2b_compress ?U ?b"
    have b: "?b = ?r @ take ?fill x" "length ?b = 128"
      using 3 f take_memcpy_at [of "buflen S" "take ?fill x" "buf S"] length_memcpy_at [of "buflen S" "take ?fill x" "buf S"]
      by simp_all
    have c: "counter ?U (n + 128)" using counter_increment [of ?S n 128] n(2) by (simp add: counter_def)
    have h: "bh ?T = compress_at (bh S) ?b (n + 128) False" using bh_compress [OF c, of False ?b] f by simp
    have one: "absorb (bh S) n (?r @ x) = absorb (bh ?T) (n + 128) (drop ?fill x)"
    proof -
      have "128 < length (?r @ x)" using 3 f by simp
      moreover have "take 128 (?r @ x) = ?b" "drop 128 (?r @ x) = drop ?fill x" using f b by simp_all
      ultimately show ?thesis using h by (subst absorb.simps) simp
    qed
    obtain T r k where T: "blake2b_update_loop ?T (drop ?fill x) = (T, r)" "absorb (bh ?T) (n + 128) (drop ?fill x) = (bh T, k, r)"
      "counter T k" "same_frame ?T T" "length r \<le> 128"
      using update_loop [of ?T "n + 128" "drop ?fill x"] c f by auto
    have "blake2b_update S x = T\<lparr>buf := memcpy_at (buflen T) r (buf T), buflen := buflen T + length r\<rparr>"
      using 3 T(1) by (auto simp: blake2b_update_def Let_def)
    then show ?thesis using ax one T f b take_memcpy_at [of 0 r "buf T"] length_memcpy_at [of 0 r "buf T"]
      by (simp add: absorbed_def same_frame_def counter_def)
  qed
qed

lemma updates_absorbed:
  "absorbed S hs m \<Longrightarrow> absorbed (fold (\<lambda>x S. blake2b_update S x) xs S) hs (m @ concat xs) \<and>
    outlen (fold (\<lambda>x S. blake2b_update S x) xs S) = outlen S"
proof (induction xs arbitrary: S m)
  case (Cons x xs)
  from update_absorbed [OF Cons.prems, of x] Cons.IH [of "blake2b_update S x" "m @ x"] show ?case by simp
qed simp

lemma final_absorbed:
  assumes a: "absorbed S hs m" and o: "outlen S \<le> n"
  shows "\<exists>T. blake2b_final S n = (0, T, take (outlen S) (concat (map store64
    (case absorb hs 0 m of (hs, k, r) \<Rightarrow> compress_at hs (r @ replicate (128 - length r) 0) (k + length r) True)))) \<and>
    blake2b_is_lastblock T \<and> outlen T = outlen S"
proof -
  obtain k where k: "absorb hs 0 m = (bh S, k, take (buflen S) (buf S))" "counter S k"
    and f: "bf0 S = 0" "bf1 S = 0" "last_node S = 0" "length (buf S) = 128" "buflen S \<le> 128"
    using a by (auto simp: absorbed_def)
  let ?pad = "replicate (128 - buflen S) 0"
  let ?b = "memcpy_at (buflen S) ?pad (buf S)"
  let ?U = "blake2b_increment_counter S (of_nat (buflen S))"
  let ?T = "?U\<lparr>bf0 := - 1, buf := ?b\<rparr>"
  have c: "counter ?U (k + buflen S)" using counter_increment [OF k(2), of "buflen S"] f by simp
  then have c': "counter ?T (k + buflen S)" by (simp add: counter_def)
  have h: "bh (blake2b_compress ?T ?b) = compress_at (bh S) ?b (k + buflen S) True"
    using bh_compress [OF c', of True ?b] f by simp
  have b: "?b = take (buflen S) (buf S) @ ?pad" using f by (simp add: memcpy_at_def)
  have "blake2b_final S n = (0, blake2b_compress ?T ?b, take (outlen S) (concat (map store64 (bh (blake2b_compress ?T ?b)))))"
    using f o by (simp add: blake2b_final_def blake2b_is_lastblock_def blake2b_set_lastblock_def Let_def)
  then show ?thesis using h b k(1) f by (simp add: blake2b_is_lastblock_def)
qed

lemma init_absorbed:
  assumes "0 < n" "n \<le> 64"
  shows "absorbed (blake2b_init_param (sequential_param n k)) (bh (blake2b_init_param (sequential_param n k))) []"
    "outlen (blake2b_init_param (sequential_param n k)) = n"
proof -
  show "absorbed (blake2b_init_param (sequential_param n k)) (bh (blake2b_init_param (sequential_param n k))) []"
    by (simp add: absorbed_def blake2b_init_param_def blake2b_init0_def Let_def counter_def absorb.simps)
  have "unat (of_nat n :: byte) = n" using assms by (simp add: unat_of_nat take_bit_nat_eq_self)
  then show "outlen (blake2b_init_param (sequential_param n k)) = n"
    by (simp add: blake2b_init_param_def sequential_param_def Let_def)
qed

lemma spec_of_absorbed:
  assumes "0 < n" "n \<le> 64" "absorbed S (bh (blake2b_init_param (sequential_param n (length key))))
    (if key = [] then m else key @ replicate (128 - length key) 0 @ m)" "outlen S = n"
  shows "\<exists>T. blake2b_final S n = (0, T, blake2b_spec n key m) \<and> blake2b_is_lastblock T \<and> outlen T = n"
  using final_absorbed [OF assms(3), of n] assms(4)
  by (cases "key = []") (auto simp: blake2b_spec_def Let_def split: prod.split prod.split_asm)

lemma length_blake2b_spec:
  assumes "n \<le> 64"
  shows "length (blake2b_spec n key m) = n"
proof -
  have "length (concat (map store64 (compress_at hs b k f))) = 64" for hs b k f
    by (simp add: compress_at_def blake2b_compress_def store64_def Let_def length_concat comp_def sum_list_triv)
  with assms show ?thesis by (simp add: blake2b_spec_def Let_def split: prod.split)
qed

text \<open>
  How the program uses the interface: the status of \<^verbatim>\<open>blake2b_init\<close> and \<^verbatim>\<open>blake2b_final\<close> is asserted to be zero
  and the digest is as long as the result.
\<close>

definition digest :: "blake2b_state \<Rightarrow> nat \<Rightarrow> byte list list \<Rightarrow> byte list outcome" where
  "digest U n xs =
    (let (status, S) = blake2b_init U n in
     obind (check (status = 0)) (\<lambda>_.
     let (status, T, out) = blake2b_final (fold (\<lambda>x S. blake2b_update S x) xs S) n in
     obind (check (status = 0)) (\<lambda>_. Ret out)))"

lemma digest_eq:
  assumes n: "0 < n" "n \<le> 64"
  shows "digest U n xs = Ret (blake2b_spec n [] (concat xs))"
proof -
  let ?S = "blake2b_init_param (sequential_param n 0)"
  have "absorbed (fold (\<lambda>x S. blake2b_update S x) xs ?S) (bh ?S) ([] @ concat xs)"
    "outlen (fold (\<lambda>x S. blake2b_update S x) xs ?S) = n"
    using updates_absorbed [of ?S "bh ?S" "[]" xs] init_absorbed [OF n, of 0] by simp_all
  with spec_of_absorbed [OF n, of "fold (\<lambda>x S. blake2b_update S x) xs ?S" "[]" "concat xs"] n show ?thesis
    by (auto simp: digest_def blake2b_init_def)
qed

text \<open>
  C13: The streaming interface hashes the concatenation of what it is given: after \<^verbatim>\<open>blake2b_init\<close> with a valid
  digest length and any sequence of calls of \<^verbatim>\<open>blake2b_update\<close>, \<^verbatim>\<open>blake2b_final\<close> stores the digest of the
  concatenated bytes according to the reference definition, however the bytes were cut, and a second
  \<^verbatim>\<open>blake2b_final\<close> is refused.
\<close>

theorem blake2b_streams:
  assumes n: "0 < n" "n \<le> 64" and init: "blake2b_init U n = (e, S)"
  shows "e = 0 \<and> (\<exists>T. blake2b_final (fold (\<lambda>x S. blake2b_update S x) xs S) n = (0, T, blake2b_spec n [] (concat xs)) \<and>
    blake2b_final T n = (-1, T, []))"
proof -
  have S: "e = 0" "S = blake2b_init_param (sequential_param n 0)" using init n by (auto simp: blake2b_init_def)
  let ?T = "fold (\<lambda>x S. blake2b_update S x) xs S"
  have "absorbed ?T (bh S) ([] @ concat xs)" "outlen ?T = n"
    using updates_absorbed [of S "bh S" "[]" xs] init_absorbed [OF n, of 0] S(2) by simp_all
  with spec_of_absorbed [OF n, of ?T "[]" "concat xs"] S(2)
  obtain T where "blake2b_final ?T n = (0, T, blake2b_spec n [] (concat xs))" "blake2b_is_lastblock T" "outlen T = n"
    by auto
  with S(1) show ?thesis by (auto simp: blake2b_final_def)
qed

theorem blake2b_streams_witness:
  "\<exists>T. blake2b_final (blake2b_update (blake2b_update (snd (blake2b_init blake2b_init0 32)) [1, 2]) [3]) 32 =
    (0, T, blake2b_spec 32 [] [1, 2, 3]) \<and> blake2b_final T 32 = (-1, T, [])"
proof -
  have i: "blake2b_init blake2b_init0 32 = (0, snd (blake2b_init blake2b_init0 32))" by (simp add: blake2b_init_def)
  from blake2b_streams [OF _ _ i, of "[[1, 2], [3]]"] show ?thesis by simp
qed

text \<open>
  The one-shot function agrees with the reference definition for every message, digest length and key,
  and refuses a digest length outside 1 to 64 or a key of more than 64 bytes.
\<close>

theorem blake2b_one_shot:
  "blake2b_hash U n m key =
    (if 0 < n \<and> n \<le> 64 \<and> length (case key of None \<Rightarrow> [] | Some k \<Rightarrow> k) \<le> 64
     then (0, blake2b_spec n (case key of None \<Rightarrow> [] | Some k \<Rightarrow> k) m) else (-1, []))"
proof (cases "0 < n \<and> n \<le> 64")
  case True
  then have n: "0 < n" "n \<le> 64" by simp_all
  let ?I = "\<lambda>k. blake2b_init_param (sequential_param n k)"
  have plain: "snd (snd (blake2b_final (blake2b_update (?I 0) m) n)) = blake2b_spec n [] m"
  proof -
    have "absorbed (blake2b_update (?I 0) m) (bh (?I 0)) m" "outlen (blake2b_update (?I 0) m) = n"
      using update_absorbed [OF init_absorbed(1) [OF n, of 0], of m] init_absorbed(2) [OF n, of 0] by simp_all
    with spec_of_absorbed [OF n, of "blake2b_update (?I 0) m" "[]" m] show ?thesis by auto
  qed
  have keyed: "snd (snd (blake2b_final (blake2b_update (blake2b_update (?I (length k)) (memcpy_at 0 k (replicate 128 0))) m) n)) =
    blake2b_spec n k m" if "k \<noteq> []" "length k \<le> 64" for k
  proof -
    let ?b = "memcpy_at 0 k (replicate 128 0)" and ?i = "?I (length k)"
    have b: "?b = k @ replicate (128 - length k) 0" using that by (simp add: memcpy_at_def)
    have one: "absorbed (blake2b_update ?i ?b) (bh ?i) ?b" "outlen (blake2b_update ?i ?b) = n"
      using update_absorbed [OF init_absorbed(1) [OF n, of "length k"], of ?b] init_absorbed(2) [OF n, of "length k"] by simp_all
    have "absorbed (blake2b_update (blake2b_update ?i ?b) m) (bh ?i) (?b @ m)" "outlen (blake2b_update (blake2b_update ?i ?b) m) = n"
      using update_absorbed [OF one(1), of m] one(2) by simp_all
    with spec_of_absorbed [OF n, of "blake2b_update (blake2b_update ?i ?b) m" k m] that b show ?thesis by auto
  qed
  show ?thesis
    using n plain keyed by (auto simp: blake2b_hash_def blake2b_init_def blake2b_init_key_def split: option.split)
qed (auto simp: blake2b_hash_def)

end
