(* ===== verification/Block_Hash.thy ===== *)
theory Block_Hash
  imports Blocks Numbers Blake2b
begin

text \<open>
  What the hash of a block tells about the block.  The other theories take the hash function as an argument;
  \<open>blake2b_fun\<close>, the function that the streaming interface of \<open>Blake2b\<close> computes, is the one they are used with.
\<close>

definition blake2b_fun :: "nat \<Rightarrow> byte list \<Rightarrow> byte list" where
  "blake2b_fun n m = blake2b_spec n [] m"

lemma write_be_inj:
  fixes x y :: "'a::len word"
  assumes "LENGTH('a) = 8 * n"
  shows "write_be x @ r = write_be y @ t \<longleftrightarrow> x = y \<and> r = t" "write_be x = write_be y \<longleftrightarrow> x = y"
  using codec.ser_inj_append [OF codec_be [OF assms] TrueI TrueI] codec.ser_inj [OF codec_be [OF assms] TrueI TrueI]
  by blast+

lemmas write_be_injs = write_be_inj [where 'a = 256 and n = 32, simplified] write_be_inj [where 'a = 128 and n = 16, simplified]

text \<open>
  C32: The hashed bytes determine the fields of a block of a given class, so that a signature covers all of
  them.  They do not determine the class: a receive block and a change block with the same two fields have
  the same hash, and so have a send block and the send_v2 block whose action is the 16 bytes of the balance.
\<close>

theorem hashed_fields:
  "(type_of_block b = type_of_block c \<longrightarrow> hash_input b = hash_input c \<longrightarrow>
      c = block_work_set (block_work c) (signature_set (block_signature c) b)) \<and>
   block_hash blake (Receive \<lparr>receive_previous = p, receive_source = x\<rparr> s w) =
     block_hash blake (Change \<lparr>change_previous = p, change_representative = x\<rparr> s w) \<and>
   block_hash blake (Send \<lparr>send_previous = p, send_destination = x, send_balance = m\<rparr> s w) =
     block_hash blake (Send_v2 \<lparr>send_v2_previous = p, send_v2_destination = x, send_v2_action = write_be m\<rparr> s w)"
proof (intro conjI impI)
  assume "type_of_block b = type_of_block c" "hash_input b = hash_input c"
  then show "c = block_work_set (block_work c) (signature_set (block_signature c) b)"
    by (cases b; cases c) (auto simp: write_be_injs intro: send_hashables.equality send_hashables_v2.equality
        open_hashables.equality change_hashables.equality receive_hashables.equality)
qed (simp_all add: block_hash_def)

theorem hashed_fields_witness:
  "(let b = Change \<lparr>change_previous = 3, change_representative = 4\<rparr> 1 2; c = Change \<lparr>change_previous = 3, change_representative = 4\<rparr> 5 6
    in c = block_work_set (block_work c) (signature_set (block_signature c) b))"
  using conjunct1 [OF hashed_fields, of "Change \<lparr>change_previous = 3, change_representative = 4\<rparr> 1 2"
    "Change \<lparr>change_previous = 3, change_representative = 4\<rparr> 5 6"] by simp

text \<open>With the hash function of the sources every account has a text that reads back as the account.\<close>

lemma account_text_with_blake2b:
  "\<exists>t. encode_account blake2b_fun a = Ret t \<and> length t = 64 \<and> decode_account blake2b_fun old t = Ret (False, a)"
proof -
  have "length (blake2b_fun 5 bs) = 5" for bs by (simp add: blake2b_fun_def length_blake2b_spec)
  from account_text [of blake2b_fun, OF this] show ?thesis by blast
qed

end
