(* ===== verification/Work.thy ===== *)
theory Work
  imports Blocks "HOL-Library.Multiset"
begin

text \<open>
  Proof of work, \<^verbatim>\<open>rai/lib/work.cpp\<close>: the value of a nonce for a root, its validation, and the pool of threads
  that searches for nonces.

  The pool is a state machine.  The shared state is that of \<^verbatim>\<open>rai::work_pool\<close>; each thread has the program
  counter of \<^verbatim>\<open>work_pool::loop\<close> and its local variables.  A step is what one thread does between two points
  at which other threads can see a difference: a section under the mutex, one reading of the atomic ticket, or
  one attempt on the stack.  A thread that waits for the condition variable has a state of its own: it goes on
  when it is notified, or for no reason at all, which the language allows.  A callback is an identifier; calling it is recorded in \<open>answered\<close>.  The random
  generator, which is seeded from the random pool of the system, may give any value; so may the device that is
  asked first, from a set of possible results.  A failed assertion is
  recorded in \<open>failed\<close>.
\<close>

section \<open>Value and validation of work\<close>

datatype rai_networks = Rai_test_network | Rai_beta_network | Rai_live_network

definition publish_threshold :: "rai_networks \<Rightarrow> u64" where
  "publish_threshold net = (if net = Rai_test_network then 0xff00000000000000 else 0xffffffc000000000)"

definition work_value :: "(nat \<Rightarrow> byte list \<Rightarrow> byte list) \<Rightarrow> u256 \<Rightarrow> u64 \<Rightarrow> u64" where
  "work_value blake root_a work_a = of_le_bytes (blake 8 (write_le work_a @ write_be root_a))"

text \<open>\<^verbatim>\<open>work_validate\<close> is true when the work is \<^emph>\<open>not\<close> sufficient.\<close>

definition work_validate :: "rai_networks \<Rightarrow> (nat \<Rightarrow> byte list \<Rightarrow> byte list) \<Rightarrow> u256 \<Rightarrow> u64 \<Rightarrow> bool" where
  "work_validate net blake root_a work_a \<longleftrightarrow> work_value blake root_a work_a < publish_threshold net"

definition work_validate_block :: "rai_networks \<Rightarrow> (nat \<Rightarrow> byte list \<Rightarrow> byte list) \<Rightarrow> block \<Rightarrow> bool" where
  "work_validate_block net blake b \<longleftrightarrow> work_validate net blake (root b) (block_work b)"

section \<open>The pool\<close>

record request =
  request_root :: u256
  callback :: nat

text \<open>
  The points of \<^verbatim>\<open>work_pool::loop\<close>: the head of the outer loop (which holds the mutex), the search with the local
  variables \<^verbatim>\<open>current_l\<close>, \<^verbatim>\<open>ticket_l\<close>, \<^verbatim>\<open>iteration\<close>, \<^verbatim>\<open>work\<close> and \<^verbatim>\<open>output\<close>, the section after the search, the
  wait for a request, and the end of the thread.
\<close>

datatype worker =
    Loop_head
  | Searching request "32 word" nat u64 u64
  | Deciding request "32 word" u64 u64
  | Waiting
  | Exited

record work_pool =
  ticket :: "32 word"
  stopped :: bool
  pending_work :: "request list"
  workers :: "worker list"
  answered :: "(request \<times> u64 option) list"
  requested :: "request list"
  failed :: bool

definition worker_count :: "rai_networks \<Rightarrow> nat \<Rightarrow> nat \<Rightarrow> nat" where
  "worker_count net max_threads hardware_concurrency =
     (if net = Rai_test_network then 1 else max 1 (min max_threads hardware_concurrency))"

definition work_pool_init :: "rai_networks \<Rightarrow> nat \<Rightarrow> nat \<Rightarrow> work_pool" where
  "work_pool_init net max_threads hardware_concurrency =
     \<lparr>ticket = 0, stopped = False, pending_work = [],
      workers = replicate (worker_count net max_threads hardware_concurrency) Loop_head,
      answered = [], requested = [], failed = False\<rparr>"

definition pool_cancel :: "u256 \<Rightarrow> work_pool \<Rightarrow> work_pool" where
  "pool_cancel root_a p =
     (let p = (case pending_work p of
          [] \<Rightarrow> p
        | r # _ \<Rightarrow> if request_root r = root_a then p\<lparr>ticket := ticket p + 1\<rparr> else p)
      in p\<lparr>answered := answered p @ map (\<lambda>r. (r, None)) (filter (\<lambda>r. request_root r = root_a) (pending_work p)),
           pending_work := filter (\<lambda>r. request_root r \<noteq> root_a) (pending_work p)\<rparr>)"

text \<open>\<^verbatim>\<open>producer_condition.notify_all\<close>: every thread that waits goes back to the head of its loop.\<close>

definition notify_all :: "work_pool \<Rightarrow> work_pool" where
  "notify_all p = p\<lparr>workers := map (\<lambda>w. if w = Waiting then Loop_head else w) (workers p)\<rparr>"

definition pool_stop :: "work_pool \<Rightarrow> work_pool" where
  "pool_stop p = notify_all (p\<lparr>stopped := True\<rparr>)"

text \<open>
  \<open>result\<close> is what the device gives: \<open>None\<close> when there is no device or it finds nothing.  \<open>requested\<close> only
  records the call.
\<close>

definition pool_generate :: "u64 option \<Rightarrow> request \<Rightarrow> work_pool \<Rightarrow> work_pool outcome" where
  "pool_generate result r p =
     obind (check (request_root r \<noteq> 0)) (\<lambda>_.
     let p = p\<lparr>requested := requested p @ [r]\<rparr> in
     (case result of
        None \<Rightarrow> Ret (notify_all (p\<lparr>pending_work := pending_work p @ [r]\<rparr>))
      | Some w \<Rightarrow> Ret (p\<lparr>answered := answered p @ [(r, Some w)]\<rparr>)))"

definition loop_head :: "work_pool \<Rightarrow> worker" where
  "loop_head p =
     (if \<not> stopped p \<or> pending_work p \<noteq> [] then
        case pending_work p of
          [] \<Rightarrow> Waiting
        | r # _ \<Rightarrow> Searching r (ticket p) 0 0 0
      else Exited)"

definition outer_check :: "rai_networks \<Rightarrow> work_pool \<Rightarrow> request \<Rightarrow> 32 word \<Rightarrow> u64 \<Rightarrow> u64 \<Rightarrow> worker" where
  "outer_check net p r t work output =
     (if ticket p = t \<and> output < publish_threshold net then Searching r t 256 work output
      else Deciding r t work output)"

definition attempt_work :: "rai_networks \<Rightarrow> (nat \<Rightarrow> byte list \<Rightarrow> byte list) \<Rightarrow> request \<Rightarrow> 32 word \<Rightarrow> nat \<Rightarrow> u64 \<Rightarrow> u64 \<Rightarrow> u64 \<Rightarrow> worker" where
  "attempt_work net blake r t iteration random work output =
     (if output < publish_threshold net
      then Searching r t (iteration - 1) random (work_value blake (request_root r) random)
      else Searching r t 0 work output)"

definition decide_work :: "rai_networks \<Rightarrow> (nat \<Rightarrow> byte list \<Rightarrow> byte list) \<Rightarrow> request \<Rightarrow> 32 word \<Rightarrow> u64 \<Rightarrow> u64 \<Rightarrow> work_pool \<Rightarrow> work_pool" where
  "decide_work net blake r t work output p =
     (if ticket p = t then
        if publish_threshold net \<le> output \<and> work_value blake (request_root r) work = output \<and> pending_work p \<noteq> []
        then p\<lparr>ticket := ticket p + 1, answered := answered p @ [(r, Some work)], pending_work := tl (pending_work p)\<rparr>
        else p\<lparr>failed := True\<rparr>
      else p)"

inductive pool_step :: "rai_networks \<Rightarrow> (nat \<Rightarrow> byte list \<Rightarrow> byte list) \<Rightarrow> (u256 \<Rightarrow> u64 option set) \<Rightarrow> work_pool \<Rightarrow> work_pool \<Rightarrow> bool"
  for net blake opencl where
  Generate: "result \<in> opencl (request_root r) \<Longrightarrow> pool_generate result r p = Ret q \<Longrightarrow> pool_step net blake opencl p q"
| Cancel: "pool_step net blake opencl p (pool_cancel root_a p)"
| Stop: "pool_step net blake opencl p (pool_stop p)"
| Head: "i < length (workers p) \<Longrightarrow> workers p ! i = Loop_head \<Longrightarrow>
    pool_step net blake opencl p (p\<lparr>workers := (workers p)[i := loop_head p]\<rparr>)"
| Wake: "i < length (workers p) \<Longrightarrow> workers p ! i = Waiting \<Longrightarrow>
    pool_step net blake opencl p (p\<lparr>workers := (workers p)[i := Loop_head]\<rparr>)"
| Check: "i < length (workers p) \<Longrightarrow> workers p ! i = Searching r t 0 work output \<Longrightarrow>
    pool_step net blake opencl p (p\<lparr>workers := (workers p)[i := outer_check net p r t work output]\<rparr>)"
| Attempt: "i < length (workers p) \<Longrightarrow> workers p ! i = Searching r t iteration work output \<Longrightarrow> 0 < iteration \<Longrightarrow>
    pool_step net blake opencl p (p\<lparr>workers := (workers p)[i := attempt_work net blake r t iteration random work output]\<rparr>)"
| Decide: "i < length (workers p) \<Longrightarrow> workers p ! i = Deciding r t work output \<Longrightarrow>
    pool_step net blake opencl p ((decide_work net blake r t work output p)\<lparr>workers := (workers p)[i := Loop_head]\<rparr>)"

inductive_cases pool_stepE: "pool_step net blake opencl p q"

section \<open>The invariant of the pool\<close>

text \<open>
  The ticket counts the events \<open>e\<close> that make a search pointless, modulo \<open>2 ^ 32\<close>.  As long as there were fewer
  than \<open>2 ^ 32\<close> of them, a thread whose ticket is the current one works on the first request.
\<close>

definition worker_ok :: "rai_networks \<Rightarrow> (nat \<Rightarrow> byte list \<Rightarrow> byte list) \<Rightarrow> nat \<Rightarrow> request list \<Rightarrow> worker \<Rightarrow> bool" where
  "worker_ok net blake e rs w =
     (case w of
        Searching r t _ work output \<Rightarrow>
          (\<exists>k\<le>e. t = of_nat k \<and> (k = e \<longrightarrow> rs \<noteq> [] \<and> hd rs = r)) \<and>
          (publish_threshold net \<le> output \<longrightarrow> work_value blake (request_root r) work = output)
      | Deciding r t work output \<Rightarrow>
          (\<exists>k\<le>e. t = of_nat k \<and> (k = e \<longrightarrow> rs \<noteq> [] \<and> hd rs = r \<and> publish_threshold net \<le> output)) \<and>
          (publish_threshold net \<le> output \<longrightarrow> work_value blake (request_root r) work = output)
      | _ \<Rightarrow> True)"

definition answers_ok :: "rai_networks \<Rightarrow> (nat \<Rightarrow> byte list \<Rightarrow> byte list) \<Rightarrow> work_pool \<Rightarrow> bool" where
  "answers_ok net blake p \<longleftrightarrow> \<not> failed p \<and>
     mset (requested p) = mset (pending_work p) + mset (map fst (answered p)) \<and>
     (\<forall>r w. (r, Some w) \<in> set (answered p) \<longrightarrow> \<not> work_validate net blake (request_root r) w)"

definition pool_inv :: "rai_networks \<Rightarrow> (nat \<Rightarrow> byte list \<Rightarrow> byte list) \<Rightarrow> nat \<Rightarrow> work_pool \<Rightarrow> bool" where
  "pool_inv net blake n p \<longleftrightarrow> answers_ok net blake p \<and>
     (\<exists>e\<le>n. ticket p = of_nat e \<and> (\<forall>w\<in>set (workers p). worker_ok net blake e (pending_work p) w))"

lemma pool_invE:
  assumes "pool_inv net blake n p"
  obtains e where "e \<le> n" "ticket p = of_nat e" "\<And>w. w \<in> set (workers p) \<Longrightarrow> worker_ok net blake e (pending_work p) w"
    "answers_ok net blake p"
  using assms by (auto simp: pool_inv_def)

lemma pool_invI:
  "answers_ok net blake p \<Longrightarrow> e \<le> n \<Longrightarrow> ticket p = of_nat e \<Longrightarrow>
    (\<And>w. w \<in> set (workers p) \<Longrightarrow> worker_ok net blake e (pending_work p) w) \<Longrightarrow> pool_inv net blake n p"
  by (auto simp: pool_inv_def)

lemma of_nat_ticket:
  assumes "i < 2 ^ 32" "j < 2 ^ 32"
  shows "(of_nat i :: 32 word) = of_nat j \<longleftrightarrow> i = j"
proof -
  have "unat (of_nat k :: 32 word) = k" if "k < 2 ^ 32" for k
    using that by (simp add: unat_of_nat take_bit_nat_eq_self)
  with assms show ?thesis by metis
qed

text \<open>A worker stays right when a request is added at the end, and when the ticket moves on.\<close>

lemma worker_ok_append: "worker_ok net blake e rs w \<Longrightarrow> worker_ok net blake e (rs @ [r]) w"
  by (auto simp: worker_ok_def split: worker.splits)

lemma worker_ok_Suc: "worker_ok net blake e rs w \<Longrightarrow> worker_ok net blake (Suc e) rs' w"
  by (auto simp: worker_ok_def split: worker.splits) (metis Suc_n_not_le_n le_Suc_eq)+

lemma worker_ok_front: "worker_ok net blake e rs w \<Longrightarrow> (rs = [] \<or> rs' \<noteq> [] \<and> hd rs' = hd rs) \<Longrightarrow> worker_ok net blake e rs' w"
  by (auto simp: worker_ok_def split: worker.splits)

lemma update_workers:
  assumes "pool_inv net blake n p" "\<And>e. e \<le> n \<Longrightarrow> ticket p = of_nat e \<Longrightarrow> worker_ok net blake e (pending_work p) w"
  shows "pool_inv net blake n (p\<lparr>workers := (workers p)[i := w]\<rparr>)"
proof -
  obtain e where e: "e \<le> n" "ticket p = of_nat e" "\<And>w. w \<in> set (workers p) \<Longrightarrow> worker_ok net blake e (pending_work p) w"
    "answers_ok net blake p" using assms(1) by (rule pool_invE) blast
  show ?thesis
  proof (rule pool_invI [OF _ e(1)])
    fix v assume "v \<in> set (workers (p\<lparr>workers := (workers p)[i := w]\<rparr>))"
    then have "v = w \<or> v \<in> set (workers p)" using set_update_subset_insert [of "workers p" i w] by auto
    with e(3) assms(2) [OF e(1,2)] show "worker_ok net blake e (pending_work (p\<lparr>workers := (workers p)[i := w]\<rparr>)) v" by auto
  qed (use e in \<open>auto simp: answers_ok_def\<close>)
qed

lemma worker_at: "pool_inv net blake n p \<Longrightarrow> i < length (workers p) \<Longrightarrow> n < 2 ^ 32 \<Longrightarrow> e \<le> n \<Longrightarrow> ticket p = of_nat e \<Longrightarrow>
    worker_ok net blake e (pending_work p) (workers p ! i)"
proof -
  assume a: "pool_inv net blake n p" "i < length (workers p)" "n < 2 ^ 32" "e \<le> n" "ticket p = of_nat e"
  obtain d where d: "d \<le> n" "ticket p = of_nat d" "\<And>w. w \<in> set (workers p) \<Longrightarrow> worker_ok net blake d (pending_work p) w"
    using a(1) by (rule pool_invE) blast
  have "d = e" using of_nat_ticket [of d e] a d by simp
  with d(3) a(2) show ?thesis by simp
qed

lemma threshold_positive: "0 < publish_threshold net"
  by (simp add: publish_threshold_def)

lemma notify_all_simps [simp]:
  "ticket (notify_all p) = ticket p" "stopped (notify_all p) = stopped p" "pending_work (notify_all p) = pending_work p"
  "answered (notify_all p) = answered p" "requested (notify_all p) = requested p" "failed (notify_all p) = failed p"
  "length (workers (notify_all p)) = length (workers p)" "Waiting \<notin> set (workers (notify_all p))"
  "Exited \<in> set (workers (notify_all p)) \<longleftrightarrow> Exited \<in> set (workers p)"
  by (auto simp: notify_all_def image_iff)

lemma notify_all_inv: "pool_inv net blake n p \<Longrightarrow> pool_inv net blake n (notify_all p)"
  unfolding pool_inv_def by (auto simp: answers_ok_def notify_all_def worker_ok_def [of _ _ _ _ Loop_head])

lemma generate_inv:
  assumes inv: "pool_inv net blake n p" and g: "pool_generate result r p = Ret q"
    and cl: "\<And>w. result = Some w \<Longrightarrow> \<not> work_validate net blake (request_root r) w"
  shows "pool_inv net blake n q"
proof -
  obtain e where e: "e \<le> n" "ticket p = of_nat e" "\<And>w. w \<in> set (workers p) \<Longrightarrow> worker_ok net blake e (pending_work p) w"
    "answers_ok net blake p" using inv by (rule pool_invE) blast
  show ?thesis
  proof (cases result)
    case None
    with g have q: "q = notify_all (p\<lparr>requested := requested p @ [r], pending_work := pending_work p @ [r]\<rparr>)"
      by (auto simp: pool_generate_def obind_eq_Ret)
    have "pool_inv net blake n (p\<lparr>requested := requested p @ [r], pending_work := pending_work p @ [r]\<rparr>)"
      by (rule pool_invI [OF _ e(1)]) (use e in \<open>auto simp: answers_ok_def intro: worker_ok_append\<close>)
    then show ?thesis unfolding q by (rule notify_all_inv)
  next
    case (Some w)
    with g have q: "q = p\<lparr>requested := requested p @ [r], answered := answered p @ [(r, Some w)]\<rparr>"
      by (auto simp: pool_generate_def obind_eq_Ret)
    show ?thesis by (rule pool_invI [OF _ e(1)]) (use e q cl [OF Some] in \<open>auto simp: answers_ok_def\<close>)
  qed
qed

lemma cancel_inv:
  assumes inv: "pool_inv net blake n p"
  shows "pool_inv net blake (Suc n) (pool_cancel root_a p)"
proof -
  obtain e where e: "e \<le> n" "ticket p = of_nat e" "\<And>w. w \<in> set (workers p) \<Longrightarrow> worker_ok net blake e (pending_work p) w"
    "answers_ok net blake p" using inv by (rule pool_invE) blast
  let ?q = "pool_cancel root_a p"
  have q: "failed ?q = failed p" "requested ?q = requested p" "workers ?q = workers p"
    "pending_work ?q = filter (\<lambda>r. request_root r \<noteq> root_a) (pending_work p)"
    "answered ?q = answered p @ map (\<lambda>r. (r, None)) (filter (\<lambda>r. request_root r = root_a) (pending_work p))"
    by (simp_all add: pool_cancel_def Let_def split: list.split)
  have a: "answers_ok net blake ?q"
    using e(4) multiset_partition [of "mset (pending_work p)" "\<lambda>r. request_root r \<noteq> root_a"]
    by (auto simp: answers_ok_def q comp_def mset_filter)
  show ?thesis
  proof (cases "pending_work p \<noteq> [] \<and> request_root (hd (pending_work p)) = root_a")
    case True
    then have "ticket ?q = of_nat (Suc e)" using e(2) by (cases "pending_work p") (auto simp: pool_cancel_def Let_def)
    then show ?thesis by (intro pool_invI [OF a, of "Suc e"]) (use e q in \<open>auto intro: worker_ok_Suc\<close>)
  next
    case False
    then have "ticket ?q = of_nat e" using e(2) by (cases "pending_work p") (auto simp: pool_cancel_def Let_def)
    moreover have "pending_work p = [] \<or> pending_work ?q \<noteq> [] \<and> hd (pending_work ?q) = hd (pending_work p)"
      using False by (cases "pending_work p") (auto simp: q)
    ultimately show ?thesis by (intro pool_invI [OF a, of e]) (use e q in \<open>auto intro: worker_ok_front\<close>)
  qed
qed

lemma decide_inv:
  assumes inv: "pool_inv net blake n p" and n: "n < 2 ^ 32"
    and i: "i < length (workers p)" "workers p ! i = Deciding r t work output"
  shows "pool_inv net blake (Suc n) ((decide_work net blake r t work output p)\<lparr>workers := (workers p)[i := Loop_head]\<rparr>)"
proof -
  obtain e where e: "e \<le> n" "ticket p = of_nat e" "\<And>w. w \<in> set (workers p) \<Longrightarrow> worker_ok net blake e (pending_work p) w"
    "answers_ok net blake p" using inv by (rule pool_invE) blast
  have w: "worker_ok net blake e (pending_work p) (Deciding r t work output)" using e(3) i nth_mem by metis
  have ws: "v = Loop_head \<or> v \<in> set (workers p)" if "v \<in> set ((workers p)[i := Loop_head])" for v
    using that set_update_subset_insert [of "workers p" i Loop_head] by auto
  show ?thesis
  proof (cases "ticket p = t")
    case True
    obtain k where k: "k \<le> e" "t = of_nat k" "k = e \<longrightarrow> pending_work p \<noteq> [] \<and> hd (pending_work p) = r \<and> publish_threshold net \<le> output"
      and v: "publish_threshold net \<le> output \<longrightarrow> work_value blake (request_root r) work = output"
      using w unfolding worker_ok_def worker.case by blast
    have "k = e" using True e(1,2) n k of_nat_ticket [of k e] by simp
    with k v have f: "pending_work p \<noteq> []" "hd (pending_work p) = r" "publish_threshold net \<le> output"
      "work_value blake (request_root r) work = output" by simp_all
    then obtain rs where rs: "pending_work p = r # rs" by (cases "pending_work p") auto
    have q: "decide_work net blake r t work output p = p\<lparr>ticket := ticket p + 1, answered := answered p @ [(r, Some work)],
        pending_work := rs\<rparr>"
      using True f rs by (simp add: decide_work_def)
    show ?thesis unfolding q
    proof (rule pool_invI [of _ _ _ "Suc e"])
      fix v assume "v \<in> set (workers (p\<lparr>ticket := ticket p + 1, answered := answered p @ [(r, Some work)],
        pending_work := rs, workers := (workers p)[i := Loop_head]\<rparr>))"
      then show "worker_ok net blake (Suc e) (pending_work (p\<lparr>ticket := ticket p + 1, answered := answered p @ [(r, Some work)],
        pending_work := rs, workers := (workers p)[i := Loop_head]\<rparr>)) v"
        using ws [of v] worker_ok_Suc [OF e(3), of v rs] by (auto simp: worker_ok_def [of _ _ _ _ Loop_head])
    qed (use e(1,2,4) rs f(3,4) in \<open>auto simp: answers_ok_def work_validate_def\<close>)
  next
    case False
    then have q: "decide_work net blake r t work output p = p" by (simp add: decide_work_def)
    have "worker_ok net blake e (pending_work p) Loop_head" by (simp add: worker_ok_def)
    then show ?thesis unfolding q
      by (intro pool_invI [of _ _ _ e]) (use e ws in \<open>auto simp: answers_ok_def\<close>)
  qed
qed

lemma step_inv:
  assumes s: "pool_step net blake opencl p q" and inv: "pool_inv net blake n p" and n: "n < 2 ^ 32"
    and cl: "\<And>root_a w. Some w \<in> opencl root_a \<Longrightarrow> \<not> work_validate net blake root_a w"
  shows "pool_inv net blake (Suc n) q"
proof -
  have up: "pool_inv net blake n x \<Longrightarrow> pool_inv net blake (Suc n) x" for x by (auto simp: pool_inv_def intro: le_SucI)
  from s show ?thesis
  proof (cases rule: pool_step.cases)
    case (Generate result r)
    then show ?thesis using up generate_inv [OF inv Generate(2)] cl by blast
  next
    case (Cancel root_a)
    then show ?thesis using cancel_inv [OF inv] by simp
  next
    case Stop
    have "pool_inv net blake n (p\<lparr>stopped := True\<rparr>)" using inv by (auto simp: pool_inv_def answers_ok_def)
    then show ?thesis using Stop up notify_all_inv by (auto simp: pool_stop_def)
  next
    case (Head i)
    have "worker_ok net blake e (pending_work p) (loop_head p)" if "ticket p = of_nat e" for e
      using that threshold_positive [of net] by (auto simp: loop_head_def worker_ok_def split: list.split)
    then show ?thesis using Head up update_workers [OF inv, of "loop_head p" i] by blast
  next
    case (Wake i)
    have "worker_ok net blake e (pending_work p) Loop_head" for e by (simp add: worker_ok_def)
    then show ?thesis using Wake up update_workers [OF inv, of Loop_head i] by blast
  next
    case (Check i r t work out)
    have "worker_ok net blake e (pending_work p) (outer_check net p r t work out)" if "e \<le> n" "ticket p = of_nat e" for e
      using worker_at [OF inv Check(2) n that] Check(3) that(2) by (auto simp: outer_check_def worker_ok_def not_less)
    then show ?thesis using Check up update_workers [OF inv, of "outer_check net p r t work out" i] by blast
  next
    case (Attempt i r t iteration work out random)
    have "worker_ok net blake e (pending_work p) (attempt_work net blake r t iteration random work out)"
      if "e \<le> n" "ticket p = of_nat e" for e
      using worker_at [OF inv Attempt(2) n that] Attempt(3) by (auto simp: attempt_work_def worker_ok_def)
    then show ?thesis
      using Attempt up update_workers [OF inv, of "attempt_work net blake r t iteration random work out" i] by blast
  next
    case (Decide i r t work out)
    then show ?thesis using decide_inv [OF inv n Decide(2,3)] by simp
  qed
qed

lemma init_inv: "pool_inv net blake 0 (work_pool_init net m hw)"
  by (rule pool_invI [of _ _ _ 0]) (auto simp: answers_ok_def work_pool_init_def worker_ok_def)

lemma steps_inv:
  assumes cl: "\<And>root_a w. Some w \<in> opencl root_a \<Longrightarrow> \<not> work_validate net blake root_a w"
  shows "(pool_step net blake opencl ^^ n) (work_pool_init net m hw) p \<Longrightarrow> n < 2 ^ 32 \<Longrightarrow> pool_inv net blake n p"
proof (induction n arbitrary: p)
  case 0
  then show ?case using init_inv [of net blake m hw] by simp
next
  case (Suc n)
  then obtain q where "(pool_step net blake opencl ^^ n) (work_pool_init net m hw) q" "pool_step net blake opencl q p" by auto
  with Suc step_inv [OF _ _ _ cl, where p = q and q = p and n = n] show ?case by auto
qed

section \<open>No thread is left behind\<close>

text \<open>
  A thread only waits while nothing is to be done: no request is pending and the pool is not stopped.  Before
  a stop no thread ends.
\<close>

definition threads_ok :: "nat \<Rightarrow> work_pool \<Rightarrow> bool" where
  "threads_ok k p \<longleftrightarrow> length (workers p) = k \<and> (pending_work p \<noteq> [] \<or> stopped p \<longrightarrow> Waiting \<notin> set (workers p)) \<and>
     (\<not> stopped p \<longrightarrow> Exited \<notin> set (workers p))"

lemma threads_update:
  "threads_ok k p \<Longrightarrow> (w = Waiting \<longrightarrow> pending_work p = [] \<and> \<not> stopped p) \<Longrightarrow> (w = Exited \<longrightarrow> stopped p) \<Longrightarrow>
    threads_ok k (p\<lparr>workers := (workers p)[i := w]\<rparr>)"
  using set_update_subset_insert [of "workers p" i w] by (auto simp: threads_ok_def)

lemma threads_step:
  assumes "pool_step net blake opencl p q" "threads_ok k p"
  shows "threads_ok k q"
  using assms(1)
proof (cases rule: pool_step.cases)
  case (Generate result r)
  then show ?thesis using assms(2) by (cases result) (auto simp: pool_generate_def Let_def obind_eq_Ret threads_ok_def)
next
  case (Cancel root_a)
  then show ?thesis using assms(2) by (auto simp: pool_cancel_def Let_def threads_ok_def split: list.split)
next
  case Stop
  then show ?thesis using assms(2) by (simp add: pool_stop_def threads_ok_def)
next
  case (Head i)
  show ?thesis unfolding Head(1)
    by (rule threads_update [OF assms(2)]) (simp_all add: loop_head_def split: list.split)
next
  case (Wake i)
  show ?thesis unfolding Wake(1) by (rule threads_update [OF assms(2)]) simp_all
next
  case (Check i r t work out)
  show ?thesis unfolding Check(1) by (rule threads_update [OF assms(2)]) (simp_all add: outer_check_def)
next
  case (Attempt i r t iteration work out random)
  show ?thesis unfolding Attempt(1) by (rule threads_update [OF assms(2)]) (simp_all add: attempt_work_def)
next
  case (Decide i r t work out)
  have "threads_ok k (p\<lparr>workers := (workers p)[i := Loop_head]\<rparr>)" by (rule threads_update [OF assms(2)]) simp_all
  then show ?thesis using Decide by (auto simp: decide_work_def threads_ok_def)
qed

lemma threads_init: "threads_ok (worker_count net m hw) (work_pool_init net m hw)"
  by (simp add: threads_ok_def work_pool_init_def)

lemma threads_steps:
  "(pool_step net blake opencl ^^ n) (work_pool_init net m hw) p \<Longrightarrow> threads_ok (worker_count net m hw) p"
proof (induction n arbitrary: p)
  case 0
  then show ?case using threads_init [of net m hw] by simp
next
  case (Suc n)
  then show ?case using threads_step by (auto elim!: relpowp_Suc_E)
qed

text \<open>The steps of one thread, the others standing still.\<close>

definition thread_at :: "work_pool \<Rightarrow> nat \<Rightarrow> worker \<Rightarrow> work_pool" where
  "thread_at p i w = p\<lparr>workers := (workers p)[i := w]\<rparr>"

definition answer_first :: "u64 \<Rightarrow> work_pool \<Rightarrow> work_pool" where
  "answer_first v p = p\<lparr>ticket := ticket p + 1, answered := answered p @ [(hd (pending_work p), Some v)],
     pending_work := tl (pending_work p)\<rparr>"

lemma thread_at_same [simp]: "thread_at p i (workers p ! i) = p"
  by (simp add: thread_at_def)

lemma thread_at_again [simp]: "thread_at (thread_at p i w) i v = thread_at p i v"
  by (simp add: thread_at_def)

lemma thread_at_fields [simp]:
  "ticket (thread_at p i w) = ticket p" "pending_work (thread_at p i w) = pending_work p" "stopped (thread_at p i w) = stopped p"
  "answered (thread_at p i w) = answered p" "length (workers (thread_at p i w)) = length (workers p)"
  by (simp_all add: thread_at_def)

lemma thread_steps:
  assumes i: "i < length (workers p)"
  shows "pool_step net blake opencl (thread_at p i Loop_head) (thread_at p i (loop_head p))"
    "pool_step net blake opencl (thread_at p i (Searching r t 0 work out)) (thread_at p i (outer_check net p r t work out))"
    "0 < k \<Longrightarrow> pool_step net blake opencl (thread_at p i (Searching r t k work out))
      (thread_at p i (attempt_work net blake r t k random work out))"
    "pool_step net blake opencl (thread_at p i (Deciding r t work out))
      (thread_at (decide_work net blake r t work out p) i Loop_head)"
proof -
  have at: "i < length (workers (thread_at p i w))" "workers (thread_at p i w) ! i = w" for w
    using i by (simp_all add: thread_at_def)
  have eq: "loop_head (thread_at p i w) = loop_head p" "outer_check net (thread_at p i w) = outer_check net p" for w
    by (simp_all add: loop_head_def outer_check_def fun_eq_iff split: list.split)
  show "pool_step net blake opencl (thread_at p i Loop_head) (thread_at p i (loop_head p))"
    using Head [OF at, of net blake opencl] by (simp add: eq flip: thread_at_def)
  show "pool_step net blake opencl (thread_at p i (Searching r t 0 work out)) (thread_at p i (outer_check net p r t work out))"
    using Check [OF at, of net blake opencl] by (simp add: eq flip: thread_at_def)
  show "pool_step net blake opencl (thread_at p i (Searching r t k work out))
      (thread_at p i (attempt_work net blake r t k random work out))" if "0 < k"
    using Attempt [OF at that, where net = net and blake = blake and opencl = opencl and random = random] by (simp flip: thread_at_def)
  have "(decide_work net blake r t work out (thread_at p i w))\<lparr>workers := (workers (thread_at p i w))[i := v]\<rparr> =
      thread_at (decide_work net blake r t work out p) i v" for w v
    by (simp add: decide_work_def thread_at_def)
  then show "pool_step net blake opencl (thread_at p i (Deciding r t work out))
      (thread_at (decide_work net blake r t work out p) i Loop_head)"
    using Decide [OF at, of net blake opencl r t work out] by (simp only:)
qed

lemma decide_answers:
  assumes "ticket p = t" "pending_work p = r # rs" "publish_threshold net \<le> out" "work_value blake (request_root r) work = out"
  shows "decide_work net blake r t work out p = answer_first work p"
  using assms by (simp add: decide_work_def answer_first_def)

text \<open>A search that has become pointless comes back to the head of the loop.\<close>

lemma stale_search:
  assumes i: "i < length (workers p)" and t: "ticket p \<noteq> t"
  shows "(pool_step net blake opencl)\<^sup>*\<^sup>* (thread_at p i (Deciding r t work out)) (thread_at p i Loop_head)"
    "(pool_step net blake opencl)\<^sup>*\<^sup>* (thread_at p i (Searching r t k work out)) (thread_at p i Loop_head)"
proof -
  show d: "(pool_step net blake opencl)\<^sup>*\<^sup>* (thread_at p i (Deciding r t work out)) (thread_at p i Loop_head)" for work out
    using thread_steps(4) [OF i, of net blake opencl r t work out] t by (auto simp: decide_work_def)
  show "(pool_step net blake opencl)\<^sup>*\<^sup>* (thread_at p i (Searching r t k work out)) (thread_at p i Loop_head)"
  proof (induction k arbitrary: work out rule: less_induct)
    case (less k)
    show ?case
    proof (cases k)
      case 0
      have "outer_check net p r t work out = Deciding r t work out" using t by (simp add: outer_check_def)
      then show ?thesis
        using thread_steps(2) [OF i, of net blake opencl r t work out] d unfolding 0
        by (auto intro: converse_rtranclp_into_rtranclp)
    next
      case (Suc j)
      obtain j' work' out' where "j' < k" "attempt_work net blake r t k 0 work out = Searching r t j' work' out'"
        using Suc by (cases "out < publish_threshold net") (auto simp: attempt_work_def)
      then show ?thesis
        using thread_steps(3) [OF i, of k net blake opencl r t work out 0] less.IH [of j' work' out'] Suc
        by (auto intro: converse_rtranclp_into_rtranclp)
    qed
  qed
qed

text \<open>A search for the first request that has found something hands it in; one that has not can still find the given work.\<close>

lemma found_search:
  assumes i: "i < length (workers p)" and p: "pending_work p = r # rs"
    and out: "publish_threshold net \<le> out" "work_value blake (request_root r) work = out"
  shows "(pool_step net blake opencl)\<^sup>*\<^sup>* (thread_at p i (Searching r (ticket p) k work out)) (thread_at (answer_first work p) i Loop_head)"
proof -
  have 1: "(pool_step net blake opencl)\<^sup>*\<^sup>* (thread_at p i (Searching r (ticket p) k work out))
      (thread_at p i (Searching r (ticket p) 0 work out))"
    using thread_steps(3) [OF i, of k net blake opencl r "ticket p" work out 0] out(1)
    by (cases k) (auto simp: attempt_work_def not_less [symmetric])
  have 2: "pool_step net blake opencl (thread_at p i (Searching r (ticket p) 0 work out))
      (thread_at p i (Deciding r (ticket p) work out))"
    using thread_steps(2) [OF i, of net blake opencl r "ticket p" work out] out(1) by (auto simp: outer_check_def not_less [symmetric])
  have 3: "pool_step net blake opencl (thread_at p i (Deciding r (ticket p) work out)) (thread_at (answer_first work p) i Loop_head)"
    using thread_steps(4) [OF i, of net blake opencl r "ticket p" work out] decide_answers [OF refl p out] by simp
  from 1 2 3 show ?thesis by (meson rtranclp.rtrancl_into_rtrancl)
qed

lemma current_search:
  assumes i: "i < length (workers p)" and p: "pending_work p = r # rs" and w: "\<not> work_validate net blake (request_root r) w"
    and out: "out < publish_threshold net"
  shows "(pool_step net blake opencl)\<^sup>*\<^sup>* (thread_at p i (Searching r (ticket p) k work out)) (thread_at (answer_first w p) i Loop_head)"
proof -
  let ?out = "work_value blake (request_root r) w"
  have s: "publish_threshold net \<le> ?out" using w by (simp add: work_validate_def not_less)
  have a: "(pool_step net blake opencl)\<^sup>*\<^sup>* (thread_at p i (Searching r (ticket p) k work out)) (thread_at (answer_first w p) i Loop_head)"
    if "0 < k" for k
    using thread_steps(3) [OF i that, of net blake opencl r "ticket p" work out w] found_search [OF i p s refl] out
    by (auto simp: attempt_work_def intro: converse_rtranclp_into_rtranclp)
  show ?thesis
  proof (cases k)
    case 0
    then show ?thesis using thread_steps(2) [OF i, of net blake opencl r "ticket p" work out] a [of 256] out
      by (auto simp: outer_check_def intro: converse_rtranclp_into_rtranclp)
  qed (simp add: a)
qed

lemma head_answers:
  assumes i: "i < length (workers p)" and p: "pending_work p = r # rs" and w: "\<not> work_validate net blake (request_root r) w"
  shows "(pool_step net blake opencl)\<^sup>*\<^sup>* (thread_at p i Loop_head) (thread_at (answer_first w p) i Loop_head)"
  using thread_steps(1) [OF i, of net blake opencl] current_search [OF i p w, of 0 opencl 0 0] threshold_positive [of net]
  by (auto simp: loop_head_def p intro: converse_rtranclp_into_rtranclp)

lemma thread_answers:
  assumes i: "i < length (workers p)" and p: "pending_work p = r # rs" and w: "\<not> work_validate net blake (request_root r) w"
    and inv: "pool_inv net blake n p" "n < 2 ^ 32" and run: "workers p ! i \<noteq> Waiting" "workers p ! i \<noteq> Exited"
  shows "\<exists>v. (pool_step net blake opencl)\<^sup>*\<^sup>* p (thread_at (answer_first v p) i Loop_head)"
proof -
  obtain e where e: "e \<le> n" "ticket p = of_nat e" "worker_ok net blake e (pending_work p) (workers p ! i)"
    using inv(1) i by (meson nth_mem pool_invE)
  have cur: "k = e" if "k \<le> e" "ticket p = of_nat k" for k using of_nat_ticket [of k e] that e inv(2) by simp
  let ?goal = "\<exists>v. (pool_step net blake opencl)\<^sup>*\<^sup>* (thread_at p i (workers p ! i)) (thread_at (answer_first v p) i Loop_head)"
  note head = head_answers [OF i p w, of opencl]
  have "?goal"
  proof (cases "workers p ! i")
    case Loop_head
    then show ?thesis using head by auto
  next
    case (Searching r' t k work out)
    show ?thesis
    proof (cases "ticket p = t")
      case True
      with cur e(3) Searching p have f: "r' = r" "publish_threshold net \<le> out \<longrightarrow> work_value blake (request_root r) work = out"
        by (auto simp: worker_ok_def)
      show ?thesis
      proof (cases "out < publish_threshold net")
        case True
        then show ?thesis using current_search [OF i p w, of out opencl k work] Searching \<open>ticket p = t\<close> f(1) by auto
      next
        case False
        then show ?thesis using found_search [OF i p, of net out blake work opencl k] Searching \<open>ticket p = t\<close> f by (auto simp: not_less)
      qed
    next
      case False
      then show ?thesis unfolding Searching using stale_search(2) [OF i False, of net blake opencl r' k work out] head
        by (blast intro: rtranclp_trans)
    qed
  next
    case (Deciding r' t work out)
    show ?thesis
    proof (cases "ticket p = t")
      case True
      with cur e(3) Deciding p have f: "r' = r" "publish_threshold net \<le> out" "work_value blake (request_root r) work = out"
        by (auto simp: worker_ok_def)
      then show ?thesis using thread_steps(4) [OF i, of net blake opencl r t work out] decide_answers [OF True p f(2,3)] Deciding
        by auto
    next
      case False
      then show ?thesis unfolding Deciding using stale_search(1) [OF i False, of net blake opencl r' work out] head
        by (blast intro: rtranclp_trans)
    qed
  qed (use run in simp_all)
  then show ?thesis by simp
qed

text \<open>The way of one request through the pool.\<close>

lemma six_steps:
  assumes "R a b" "R b c" "R c d" "R d e" "R e f" "R f g"
  shows "(R ^^ 6) a g"
proof -
  have "(R ^^ Suc (Suc (Suc (Suc (Suc (Suc 0)))))) a g"
    using assms by (intro relpowp_Suc_I2 [where P = R]) (auto intro: relpowp_0_I)
  moreover have "Suc (Suc (Suc (Suc (Suc (Suc 0))))) = 6" by simp
  ultimately show ?thesis by (simp only:)
qed

lemma answer_steps:
  assumes i: "i < length (workers p)" "workers p ! i = Loop_head" and p: "pending_work p = r # rs"
    and w: "\<not> work_validate net blake (request_root r) w"
  shows "(pool_step net blake opencl ^^ 6) p (thread_at (answer_first w p) i Loop_head)"
proof -
  let ?out = "work_value blake (request_root r) w"
  have out: "publish_threshold net \<le> ?out" "\<not> ?out < publish_threshold net" using w by (simp_all add: work_validate_def not_less)
  have 1: "pool_step net blake opencl p (thread_at p i (Searching r (ticket p) 0 0 0))"
    using thread_steps(1) [OF i(1), of net blake opencl] i(2) by (metis list.simps(5) list.distinct(1) loop_head_def p thread_at_same)
  have 2: "pool_step net blake opencl (thread_at p i (Searching r (ticket p) 0 0 0)) (thread_at p i (Searching r (ticket p) 256 0 0))"
    using thread_steps(2) [OF i(1), of net blake opencl r "ticket p" 0 0] threshold_positive [of net] by (simp add: outer_check_def)
  have 3: "pool_step net blake opencl (thread_at p i (Searching r (ticket p) 256 0 0)) (thread_at p i (Searching r (ticket p) 255 w ?out))"
    using thread_steps(3) [OF i(1), of 256 net blake opencl r "ticket p" 0 0 w] threshold_positive [of net] by (simp add: attempt_work_def)
  have 4: "pool_step net blake opencl (thread_at p i (Searching r (ticket p) 255 w ?out)) (thread_at p i (Searching r (ticket p) 0 w ?out))"
    using thread_steps(3) [OF i(1), of 255 net blake opencl r "ticket p" w ?out w] out by (simp add: attempt_work_def)
  have 5: "pool_step net blake opencl (thread_at p i (Searching r (ticket p) 0 w ?out)) (thread_at p i (Deciding r (ticket p) w ?out))"
    using thread_steps(2) [OF i(1), of net blake opencl r "ticket p" w ?out] out by (simp add: outer_check_def)
  have 6: "pool_step net blake opencl (thread_at p i (Deciding r (ticket p) w ?out)) (thread_at (answer_first w p) i Loop_head)"
    using thread_steps(4) [OF i(1), of net blake opencl r "ticket p" w ?out] decide_answers [OF refl p out(1) refl] by simp
  show ?thesis by (rule six_steps [where R = "pool_step net blake opencl", OF 1 2 3 4 5 6])
qed

definition full_hash :: "nat \<Rightarrow> byte list \<Rightarrow> byte list" where
  "full_hash n bs = replicate n 255"

lemma full_hash_validates: "\<not> work_validate net full_hash root_a w"
proof -
  have "(of_le_bytes (replicate 8 255) :: u64) = - 1" by code_simp
  then have "work_value full_hash root_a w = - 1" by (simp only: work_value_def full_hash_def)
  then show ?thesis by (simp add: work_validate_def not_less)
qed

text \<open>
  C14: The work pool answers correctly, whatever the interleaving of its threads, of requests, of cancellations
  and of the stop: after fewer than \<open>2 ^ 32\<close> steps no assertion has failed, every request is either still
  pending or has been answered exactly once, and an answer that is not a cancellation is sufficient work for
  the root of its own request, given that a device only returns sufficient work.
\<close>

theorem pool_answers:
  assumes "(pool_step net blake opencl ^^ n) (work_pool_init net m hw) p" "n < 2 ^ 32"
    and cl: "\<And>root_a w. Some w \<in> opencl root_a \<Longrightarrow> \<not> work_validate net blake root_a w"
  shows "\<not> failed p \<and> mset (requested p) = mset (pending_work p) + mset (map fst (answered p)) \<and>
    (\<forall>r w. (r, Some w) \<in> set (answered p) \<longrightarrow> \<not> work_validate net blake (request_root r) w)"
  using steps_inv [OF cl assms(1,2)] by (auto simp: pool_inv_def answers_ok_def)

theorem pool_answers_witness:
  "let r = \<lparr>request_root = 5, callback = 1\<rparr> in
   \<exists>p. (pool_step Rai_test_network full_hash (\<lambda>_. {None}) ^^ 7) (work_pool_init Rai_test_network 1 1) p \<and>
     answered p = [(r, Some 9)] \<and> \<not> failed p \<and> mset (requested p) = mset (pending_work p) + mset (map fst (answered p)) \<and>
     \<not> work_validate Rai_test_network full_hash (request_root r) 9"
proof -
  let ?r = "\<lparr>request_root = 5, callback = 1\<rparr>" and ?s = "pool_step Rai_test_network full_hash (\<lambda>_. {None})"
  let ?i = "work_pool_init Rai_test_network 1 1"
  let ?q = "?i\<lparr>requested := [?r], pending_work := [?r]\<rparr>"
  let ?p = "thread_at (answer_first 9 ?q) 0 Loop_head"
  have "?s ?i ?q"
    by (rule Generate [of None _ ?r]) (simp_all add: pool_generate_def work_pool_init_def worker_count_def notify_all_def)
  moreover have "(?s ^^ 6) ?q ?p"
    by (rule answer_steps [OF _ _ _ full_hash_validates, of 0]) (simp_all add: work_pool_init_def worker_count_def)
  ultimately have "(?s ^^ 7) ?i ?p" using relpowp_Suc_I2 [of ?s ?i ?q 6 ?p] by (simp only: Suc_numeral semiring_norm)
  moreover have "answered ?p = [(?r, Some 9)]" by (simp add: work_pool_init_def answer_first_def)
  ultimately obtain p where p: "(?s ^^ 7) ?i p" "answered p = [(?r, Some 9)]" by blast
  have "\<not> failed p \<and> mset (requested p) = mset (pending_work p) + mset (map fst (answered p))"
    using conjunct1 [OF pool_answers [OF p(1) _ full_hash_validates]]
      conjunct1 [OF conjunct2 [OF pool_answers [OF p(1) _ full_hash_validates]]] by simp
  with p full_hash_validates [of Rai_test_network 5 9] show ?thesis unfolding Let_def by (intro exI [of _ p]) simp
qed

text \<open>
  C31: The pool never gets stuck and loses no wake-up, whatever the interleaving: in every pool that fewer than
  \<open>2 ^ 32\<close> steps reach, no thread waits while a request is pending or after a stop, no thread has ended before a
  stop, and the threads are as many as were started, at least one.  So as long as the pool is not stopped, every
  single thread, wherever it is in its loop and however out of date its search is, can by its own steps, the
  other threads standing still, bring an answer to the first request and remove it, if there is sufficient
  work for its root.  A device, if there is one, is only asked to return nothing but sufficient work.
\<close>

theorem pool_not_stuck:
  assumes "(pool_step net blake opencl ^^ n) (work_pool_init net m hw) p" "n < 2 ^ 32"
    and cl: "\<And>root_a w. Some w \<in> opencl root_a \<Longrightarrow> \<not> work_validate net blake root_a w"
  shows "(pending_work p \<noteq> [] \<or> stopped p \<longrightarrow> Waiting \<notin> set (workers p)) \<and>
    (\<not> stopped p \<longrightarrow> Exited \<notin> set (workers p)) \<and>
    length (workers p) = worker_count net m hw \<and> 1 \<le> worker_count net m hw \<and>
    (\<forall>r rs w i. \<not> stopped p \<longrightarrow> pending_work p = r # rs \<longrightarrow> \<not> work_validate net blake (request_root r) w \<longrightarrow> i < length (workers p) \<longrightarrow>
      (\<exists>q v. (pool_step net blake opencl)\<^sup>*\<^sup>* p q \<and> answered q = answered p @ [(r, Some v)] \<and> pending_work q = rs \<and>
        workers q = (workers p)[i := Loop_head]))"
proof -
  note t = threads_steps [OF assms(1), unfolded threads_ok_def]
  have "\<exists>q v. (pool_step net blake opencl)\<^sup>*\<^sup>* p q \<and> answered q = answered p @ [(r, Some v)] \<and> pending_work q = rs \<and>
      workers q = (workers p)[i := Loop_head]"
    if h: "\<not> stopped p" "pending_work p = r # rs" "\<not> work_validate net blake (request_root r) w" "i < length (workers p)" for r rs w i
  proof -
    have "workers p ! i \<noteq> Waiting" "workers p ! i \<noteq> Exited" using t h nth_mem [OF h(4)] by force+
    then obtain v where "(pool_step net blake opencl)\<^sup>*\<^sup>* p (thread_at (answer_first v p) i Loop_head)"
      using thread_answers [OF h(4,2,3) steps_inv [OF cl assms(1,2)] assms(2)] by blast
    then show ?thesis by (intro exI conjI) (auto simp: thread_at_def answer_first_def h(2))
  qed
  moreover have "1 \<le> worker_count net m hw" by (simp add: worker_count_def)
  ultimately show ?thesis using t by blast
qed

theorem pool_not_stuck_witness:
  "let r = \<lparr>request_root = 5, callback = 1\<rparr>; init = work_pool_init Rai_live_network 2 4;
       idle = init\<lparr>workers := [Waiting, Loop_head]\<rparr>; p = init\<lparr>requested := [r], pending_work := [r]\<rparr> in
   pool_step Rai_live_network full_hash (\<lambda>_. {None}) init idle \<and>
   pool_step Rai_live_network full_hash (\<lambda>_. {None}) idle p \<and> Waiting \<notin> set (workers p) \<and>
   (\<exists>q v. (pool_step Rai_live_network full_hash (\<lambda>_. {None}))\<^sup>*\<^sup>* p q \<and> answered q = [(r, Some v)] \<and> pending_work q = [])"
proof -
  let ?r = "\<lparr>request_root = 5, callback = 1\<rparr>" and ?i = "work_pool_init Rai_live_network 2 4"
    and ?s = "pool_step Rai_live_network full_hash (\<lambda>_. {None})"
  let ?w = "?i\<lparr>workers := [Waiting, Loop_head]\<rparr>" and ?p = "?i\<lparr>requested := [?r], pending_work := [?r]\<rparr>"
  have init: "workers ?i = [Loop_head, Loop_head]" by (simp add: work_pool_init_def worker_count_def numeral_2_eq_2)
  have e: "pending_work ?i = []" "requested ?i = []" "answered ?i = []" "\<not> stopped ?i" by (simp_all add: work_pool_init_def)
  have 1: "?s ?i ?w" using Head [of 0 ?i Rai_live_network full_hash "\<lambda>_. {None}"] by (simp add: init e loop_head_def)
  have "notify_all (?w\<lparr>requested := [?r], pending_work := [?r]\<rparr>) = ?p" by (simp add: notify_all_def flip: init)
  then have 2: "?s ?w ?p" by (intro Generate [of None _ ?r]) (simp_all add: e pool_generate_def check_def)
  have "(?s ^^ Suc (Suc 0)) ?i ?p"
    by (rule relpowp_Suc_I2 [where P = ?s, OF 1], rule relpowp_Suc_I2 [where P = ?s, OF 2]) simp
  note n = pool_not_stuck [OF this _ full_hash_validates]
  have "Waiting \<notin> set (workers ?p)" using n by simp
  moreover have "\<exists>q v. ?s\<^sup>*\<^sup>* ?p q \<and> answered q = [(?r, Some v)] \<and> pending_work q = []"
    using conjunct2 [OF conjunct2 [OF conjunct2 [OF conjunct2 [OF n]]], rule_format, of ?r "[]" 9 0]
      full_hash_validates [of Rai_live_network 5 9] by (auto simp: init e)
  ultimately show ?thesis unfolding Let_def using 1 2 by blast
qed

end
