(* ===== verification/Votes.thy ===== *)
theory Votes
  imports Block_Store Block_Classes "HOL-Library.List_Lexorder"
begin

text \<open>
  Votes and the two cached tables of \<^verbatim>\<open>rai::block_store\<close>: the latest vote of each representative and the blocks
  that wait for their predecessor (\<^verbatim>\<open>rai/secure.cpp\<close>).

  Both tables have a cache in front of them: \<^verbatim>\<open>vote_cache\<close>, a map from accounts to votes, and
  \<^verbatim>\<open>unchecked_cache\<close>, a multimap from hashes to blocks, kept here as the list of its entries.  \<^verbatim>\<open>flush\<close> writes
  the caches to the tables.  The table of unchecked blocks allows several values per key (\<^verbatim>\<open>MDB_DUPSORT\<close>): LMDB
  keeps them sorted and without duplicates, and refuses a value that is longer than the largest key, which
  \<open>maxkeysize\<close> gives.
\<close>

section \<open>Votes\<close>

record vote =
  sequence :: u64
  vote_block :: block
  vote_account :: u256
  vote_signature :: u512

definition vote_hash :: "(nat \<Rightarrow> byte list \<Rightarrow> byte list) \<Rightarrow> vote \<Rightarrow> u256" where
  "vote_hash blake v = of_be_bytes (blake 32 (write_be (block_hash blake (vote_block v)) @ write_le (sequence v)))"

definition vote_make ::
    "(u256 \<Rightarrow> u256 \<Rightarrow> u256 \<Rightarrow> u512) \<Rightarrow> (nat \<Rightarrow> byte list \<Rightarrow> byte list) \<Rightarrow> u256 \<Rightarrow> u256 \<Rightarrow> u64 \<Rightarrow> block \<Rightarrow> vote" where
  "vote_make sign_message blake account_a prv_a sequence_a block_a =
     (let v = \<lparr>sequence = sequence_a, vote_block = block_a, vote_account = account_a, vote_signature = 0\<rparr>
      in v\<lparr>vote_signature := sign_message prv_a account_a (vote_hash blake v)\<rparr>)"

definition vote_read :: "byte \<times> byte \<Rightarrow> byte list \<Rightarrow> (vote \<times> byte list) option outcome" where
  "vote_read junk s =
     (case read_be s of None \<Rightarrow> Ret None | Some (account_l, s) \<Rightarrow>
     (case read_be s of None \<Rightarrow> Ret None | Some (signature_l, s) \<Rightarrow>
     (case read_le s of None \<Rightarrow> Ret None | Some (sequence_l, s) \<Rightarrow>
     obind (deserialize_block junk s) (\<lambda>r.
     case r of None \<Rightarrow> Ret None | Some (b, s) \<Rightarrow>
     Ret (Some (\<lparr>sequence = sequence_l, vote_block = b, vote_account = account_l, vote_signature = signature_l\<rparr>, s))))))"

definition vote_read_typed :: "byte \<times> byte \<Rightarrow> byte list \<Rightarrow> byte \<Rightarrow> (vote \<times> byte list) option outcome" where
  "vote_read_typed junk s t =
     (case read_be s of None \<Rightarrow> Ret None | Some (account_l, s) \<Rightarrow>
     (case read_be s of None \<Rightarrow> Ret None | Some (signature_l, s) \<Rightarrow>
     (case read_le s of None \<Rightarrow> Ret None | Some (sequence_l, s) \<Rightarrow>
     obind (deserialize_block_typed junk s t) (\<lambda>r.
     case r of None \<Rightarrow> Ret None | Some (b, s) \<Rightarrow>
     Ret (Some (\<lparr>sequence = sequence_l, vote_block = b, vote_account = account_l, vote_signature = signature_l\<rparr>, s))))))"

definition vote_of_val :: "byte \<times> byte \<Rightarrow> byte list \<Rightarrow> vote outcome" where
  "vote_of_val junk s =
     obind (of_option (read_be s)) (\<lambda>(account_l, s).
     obind (of_option (read_be s)) (\<lambda>(signature_l, s).
     obind (of_option (read_le s)) (\<lambda>(sequence_l, s).
     obind (deserialize_block junk s) (\<lambda>r.
     obind (of_option r) (\<lambda>(b, s).
     Ret \<lparr>sequence = sequence_l, vote_block = b, vote_account = account_l, vote_signature = signature_l\<rparr>)))))"

definition vote_serialize_typed :: "vote \<Rightarrow> byte list" where
  "vote_serialize_typed v =
     write_be (vote_account v) @ write_be (vote_signature v) @ write_le (sequence v) @ serialize (vote_block v)"

definition vote_serialize :: "vote \<Rightarrow> byte list" where
  "vote_serialize v =
     write_be (vote_account v) @ write_be (vote_signature v) @ write_le (sequence v) @ serialize_block (vote_block v)"

definition vote_eq :: "vote \<Rightarrow> vote \<Rightarrow> bool" where
  "vote_eq v w \<longleftrightarrow> sequence v = sequence w \<and> block_eq (vote_block v) (vote_block w) \<and>
     vote_account v = vote_account w \<and> vote_signature v = vote_signature w"

section \<open>The tables and their caches\<close>

record vote_store =
  vote_table :: table
  vote_cache :: "(u256, vote) fmap"
  unchecked_table :: "(u256, byte list list) fmap"
  unchecked_cache :: "(u256 \<times> block) list"

definition empty_vote_store :: vote_store where
  "empty_vote_store = \<lparr>vote_table = fmempty, vote_cache = fmempty, unchecked_table = fmempty, unchecked_cache = []\<rparr>"

definition dup_values :: "u256 \<Rightarrow> (u256, byte list list) fmap \<Rightarrow> byte list list" where
  "dup_values k t = (case fmlookup t k of None \<Rightarrow> [] | Some vs \<Rightarrow> vs)"

definition mdb_put_dup :: "nat \<Rightarrow> u256 \<Rightarrow> byte list \<Rightarrow> (u256, byte list list) fmap \<Rightarrow> (u256, byte list list) fmap option" where
  "mdb_put_dup maxkeysize k v t =
     (if length v \<le> maxkeysize then Some (fmupd k (insort_insert v (dup_values k t)) t) else None)"

definition mdb_del_dup :: "u256 \<Rightarrow> byte list \<Rightarrow> (u256, byte list list) fmap \<Rightarrow> (u256, byte list list) fmap" where
  "mdb_del_dup k v t =
     (case remove1 v (dup_values k t) of [] \<Rightarrow> fmdrop k t | v' # vs \<Rightarrow> fmupd k (v' # vs) t)"

definition unchecked_clear :: "vote_store \<Rightarrow> vote_store" where
  "unchecked_clear s = s\<lparr>unchecked_table := fmempty\<rparr>"

definition unchecked_put :: "vote_store \<Rightarrow> u256 \<Rightarrow> block \<Rightarrow> vote_store" where
  "unchecked_put s h b = s\<lparr>unchecked_cache := unchecked_cache s @ [(h, b)]\<rparr>"

text \<open>A null pointer in the result is \<open>None\<close>.\<close>

fun deserialize_all :: "byte \<times> byte \<Rightarrow> byte list list \<Rightarrow> block option list outcome" where
  "deserialize_all junk [] = Ret []"
| "deserialize_all junk (v # vs) =
     obind (deserialize_block junk v) (\<lambda>r. obind (deserialize_all junk vs) (\<lambda>bs. Ret (map_option fst r # bs)))"

definition unchecked_get :: "byte \<times> byte \<Rightarrow> vote_store \<Rightarrow> u256 \<Rightarrow> block option list outcome" where
  "unchecked_get junk s h =
     (let cached = map (\<lambda>(_, b). Some b) (filter (\<lambda>(k, _). k = h) (unchecked_cache s))
      in obind (deserialize_all junk (dup_values h (unchecked_table s))) (\<lambda>stored. Ret (cached @ stored)))"

definition unchecked_del :: "vote_store \<Rightarrow> u256 \<Rightarrow> block \<Rightarrow> vote_store" where
  "unchecked_del s h b =
     s\<lparr>unchecked_cache := filter (\<lambda>(k, c). \<not> (k = h \<and> block_eq c b)) (unchecked_cache s),
       unchecked_table := mdb_del_dup h (serialize_block b) (unchecked_table s)\<rparr>"

definition unchecked_count :: "vote_store \<Rightarrow> nat" where
  "unchecked_count s = sum_list (map (\<lambda>k. length (dup_values k (unchecked_table s))) (sorted_list_of_fset (fmdom (unchecked_table s))))"

fun flush_unchecked :: "nat \<Rightarrow> (u256 \<times> block) list \<Rightarrow> (u256, byte list list) fmap \<Rightarrow> (u256, byte list list) fmap outcome" where
  "flush_unchecked maxkeysize [] t = Ret t"
| "flush_unchecked maxkeysize ((h, b) # es) t =
     obind (of_option (mdb_put_dup maxkeysize h (serialize_block b) t)) (\<lambda>t. flush_unchecked maxkeysize es t)"

definition flush_votes :: "(u256, vote) fmap \<Rightarrow> table \<Rightarrow> table" where
  "flush_votes cache t =
     fold (\<lambda>a. mdb_put a (vote_serialize (the (fmlookup cache a)))) (sorted_list_of_fset (fmdom cache)) t"

definition flush :: "nat \<Rightarrow> vote_store \<Rightarrow> vote_store outcome" where
  "flush maxkeysize s =
     (let sequence_cache_l = vote_cache s; unchecked_cache_l = unchecked_cache s;
          s = s\<lparr>vote_cache := fmempty, unchecked_cache := []\<rparr>
      in obind (flush_unchecked maxkeysize unchecked_cache_l (unchecked_table s)) (\<lambda>u.
         Ret (s\<lparr>unchecked_table := u, vote_table := flush_votes sequence_cache_l (vote_table s)\<rparr>)))"

definition vote_get :: "byte \<times> byte \<Rightarrow> vote_store \<Rightarrow> u256 \<Rightarrow> vote option outcome" where
  "vote_get junk s a =
     (case mdb_get a (vote_table s) of
        None \<Rightarrow> Ret None
      | Some v \<Rightarrow> obind (vote_of_val junk v) (\<lambda>result. Ret (Some result)))"

definition vote_current :: "byte \<times> byte \<Rightarrow> vote_store \<Rightarrow> u256 \<Rightarrow> vote option outcome" where
  "vote_current junk s a =
     (case fmlookup (vote_cache s) a of Some v \<Rightarrow> Ret (Some v) | None \<Rightarrow> vote_get junk s a)"

definition cache_vote :: "vote_store \<Rightarrow> u256 \<Rightarrow> vote \<Rightarrow> vote_store" where
  "cache_vote s a v = s\<lparr>vote_cache := fmupd a v (vote_cache s)\<rparr>"

definition vote_generate ::
    "(u256 \<Rightarrow> u256 \<Rightarrow> u256 \<Rightarrow> u512) \<Rightarrow> params \<Rightarrow> vote_store \<Rightarrow> u256 \<Rightarrow> u256 \<Rightarrow> block \<Rightarrow> (vote_store \<times> vote) outcome" where
  "vote_generate sign_message P s account_a key_a block_a =
     obind (vote_current (uninit P) s account_a) (\<lambda>current.
     let sequence_l = (case current of Some v \<Rightarrow> sequence v | None \<Rightarrow> 0) + 1;
         result = vote_make sign_message (blake2b P) account_a key_a sequence_l block_a
     in Ret (cache_vote s account_a result, result))"

text \<open>The second component of the result of \<open>vote_max\<close> tells whether the returned pointer is the argument.\<close>

definition vote_max :: "params \<Rightarrow> vote_store \<Rightarrow> vote \<Rightarrow> (vote_store \<times> vote \<times> bool) outcome" where
  "vote_max P s vote_a =
     obind (vote_current (uninit P) s (vote_account vote_a)) (\<lambda>current.
     let (result, same) =
       (case current of
          Some c \<Rightarrow> if sequence c > sequence vote_a then (c, False) else (vote_a, True)
        | None \<Rightarrow> (vote_a, True))
     in Ret (cache_vote s (vote_account vote_a) result, result, same))"

datatype vote_code = Vote_invalid | Vote_replay | Vote_vote

definition vote_validate :: "params \<Rightarrow> vote_store \<Rightarrow> vote \<Rightarrow> (vote_store \<times> vote_code \<times> vote option) outcome" where
  "vote_validate P s vote_a =
     (if \<not> validate_message P (vote_account vote_a) (vote_hash (blake2b P) vote_a) (vote_signature vote_a)
      then obind (vote_max P s vote_a) (\<lambda>(s, v, same).
           Ret (s, if same then Vote_vote else Vote_replay, Some v))
      else Ret (s, Vote_invalid, None))"

section \<open>Well-formed stores\<close>

definition vote_ok :: "u256 \<Rightarrow> vote \<Rightarrow> bool" where
  "vote_ok a v \<longleftrightarrow> vote_account v = a \<and> serializable (vote_block v)"

definition votes_wf :: "vote_store \<Rightarrow> bool" where
  "votes_wf s \<longleftrightarrow>
     (\<forall>a v. fmlookup (vote_cache s) a = Some v \<longrightarrow> vote_ok a v) \<and>
     (\<forall>a bs. fmlookup (vote_table s) a = Some bs \<longrightarrow> (\<exists>v. bs = vote_serialize v \<and> vote_ok a v))"

definition unchecked_wf :: "vote_store \<Rightarrow> bool" where
  "unchecked_wf s \<longleftrightarrow>
     (\<forall>k b. (k, b) \<in> set (unchecked_cache s) \<longrightarrow> serializable b) \<and>
     (\<forall>k. distinct (dup_values k (unchecked_table s)) \<and>
       set (dup_values k (unchecked_table s)) \<subseteq> serialize_block ` {b. serializable b})"

definition vote_store_wf :: "vote_store \<Rightarrow> bool" where
  "vote_store_wf s \<longleftrightarrow> votes_wf s \<and> unchecked_wf s"

lemma deserialize_serialize [codec_simps]:
  "serializable b \<Longrightarrow> deserialize_block junk (serialize_block b @ r) = Ret (Some (b, r))"
  by (simp add: deserialize_block_def serialize_block_def codec_simps deserialize_block_typed_serialize)

lemma deserialize_serialize_nil [codec_simps]:
  "serializable b \<Longrightarrow> deserialize_block junk (serialize_block b) = Ret (Some (b, []))"
  using deserialize_serialize [of b junk "[]"] by simp

lemma vote_of_val_serialize: "serializable (vote_block v) \<Longrightarrow> vote_of_val junk (vote_serialize v) = Ret v"
  by (simp add: vote_of_val_def vote_serialize_def codec_simps)

lemma serialize_block_inj: "serializable b \<Longrightarrow> serializable c \<Longrightarrow> serialize_block b = serialize_block c \<Longrightarrow> b = c"
  by (rule block_codec.ser_inj)

lemma dup_values_upd [simp]: "dup_values k (fmupd j vs t) = (if k = j then vs else dup_values k t)"
  by (simp add: dup_values_def)

lemma dup_values_drop [simp]: "dup_values k (fmdrop j t) = (if k = j then [] else dup_values k t)"
  by (simp add: dup_values_def)

lemma dup_values_del: "dup_values k (mdb_del_dup j v t) = (if k = j then remove1 v (dup_values j t) else dup_values k t)"
  by (auto simp: mdb_del_dup_def split: list.split)

lemma mdb_put_dup_eq:
  "mdb_put_dup n k v t = Some u \<longleftrightarrow> length v \<le> n \<and> u = fmupd k (insort_insert v (dup_values k t)) t"
  by (auto simp: mdb_put_dup_def)

lemma flush_unchecked_returns:
  "(\<forall>(h, b)\<in>set es. length (serialize_block b) \<le> n) \<longleftrightarrow> (\<exists>u. flush_unchecked n es t = Ret u)"
proof (induction es arbitrary: t)
  case (Cons e es)
  obtain h b where e: "e = (h, b)" by fastforce
  show ?case
  proof (cases "length (serialize_block b) \<le> n")
    case True
    with e Cons.IH [of "fmupd h (insort_insert (serialize_block b) (dup_values h t)) t"] show ?thesis
      by (simp add: mdb_put_dup_def)
  qed (simp add: e mdb_put_dup_def)
qed simp

lemma flush_unchecked_values:
  "flush_unchecked n es t = Ret u \<Longrightarrow> (\<And>k. distinct (dup_values k t)) \<Longrightarrow>
   distinct (dup_values k u) \<and>
   set (dup_values k u) = set (dup_values k t) \<union> serialize_block ` {b. (k, b) \<in> set es}"
proof (induction es arbitrary: t)
  case (Cons e es)
  obtain h b where e: "e = (h, b)" by fastforce
  let ?t = "fmupd h (insort_insert (serialize_block b) (dup_values h t)) t"
  have f: "flush_unchecked n es ?t = Ret u" using Cons.prems(1) e by (auto simp: obind_eq_Ret mdb_put_dup_eq)
  have "distinct (dup_values j ?t)" for j using Cons.prems(2) by (simp add: distinct_insort_insert)
  from Cons.IH [OF f this] show ?case using e by (auto simp: set_insort_insert)
qed simp

lemma fold_mdb_put:
  "distinct ks \<Longrightarrow> fmlookup (fold (\<lambda>a. mdb_put a (f a)) ks t) a = (if a \<in> set ks then Some (f a) else fmlookup t a)"
  by (induction ks arbitrary: t) (auto simp: mdb_put_def)

lemma flush_votes_lookup:
  "fmlookup (flush_votes cache t) a =
    (case fmlookup cache a of Some v \<Rightarrow> Some (vote_serialize v) | None \<Rightarrow> fmlookup t a)"
  by (simp add: flush_votes_def fold_mdb_put sorted_list_of_fset.rep_eq fmlookup_dom_iff split: option.split)

lemma flush_eq:
  "flush n s = Ret s' \<longleftrightarrow> (\<exists>u. flush_unchecked n (unchecked_cache s) (unchecked_table s) = Ret u \<and>
    s' = \<lparr>vote_table = flush_votes (vote_cache s) (vote_table s), vote_cache = fmempty, unchecked_table = u, unchecked_cache = []\<rparr>)"
  by (auto simp: flush_def Let_def obind_eq_Ret)

text \<open>The latest vote of an account never fails to be read, and a flush does not change it.\<close>

lemma vote_current_returns:
  assumes "votes_wf s"
  obtains v where "vote_current junk s a = Ret v" "\<And>w. v = Some w \<Longrightarrow> vote_ok a w"
proof -
  consider v where "fmlookup (vote_cache s) a = Some v" | "fmlookup (vote_cache s) a = None" "fmlookup (vote_table s) a = None"
    | bs where "fmlookup (vote_cache s) a = None" "fmlookup (vote_table s) a = Some bs" by fastforce
  then show thesis
  proof cases
    case 1
    then show thesis using assms that [of "Some v"] by (auto simp: vote_current_def votes_wf_def)
  next
    case 2
    then show thesis using that [of None] by (simp add: vote_current_def vote_get_def mdb_get_def)
  next
    case 3
    then obtain v where "bs = vote_serialize v" "vote_ok a v" using assms unfolding votes_wf_def by blast
    then show thesis using 3 that [of "Some v"]
      by (simp add: vote_current_def vote_get_def mdb_get_def vote_of_val_serialize vote_ok_def)
  qed
qed

lemma vote_current_flush:
  assumes "votes_wf s" "flush n s = Ret s'"
  shows "vote_current junk s' a = vote_current junk s a"
proof (cases "fmlookup (vote_cache s) a")
  case None
  with assms(2) show ?thesis by (auto simp: flush_eq vote_current_def vote_get_def mdb_get_def flush_votes_lookup)
next
  case (Some v)
  then have "serializable (vote_block v)" using assms(1) by (auto simp: votes_wf_def vote_ok_def)
  with Some assms(2) show ?thesis
    by (auto simp: flush_eq vote_current_def vote_get_def mdb_get_def flush_votes_lookup vote_of_val_serialize)
qed

lemma vote_current_cache [simp]:
  "vote_current junk (cache_vote s b v) a = (if a = b then Ret (Some v) else vote_current junk s a)"
  by (simp add: vote_current_def cache_vote_def vote_get_def split: option.split)

lemma vote_current_unchecked [simp]:
  "vote_current junk (unchecked_put s h b) a = vote_current junk s a"
  "vote_current junk (unchecked_del s h b) a = vote_current junk s a"
  "vote_current junk (unchecked_clear s) a = vote_current junk s a"
  by (simp_all add: vote_current_def vote_get_def unchecked_put_def unchecked_del_def unchecked_clear_def split: option.split)

text \<open>The blocks that wait under a hash.\<close>

lemma deserialize_all_serialized:
  "set vs \<subseteq> serialize_block ` {b. serializable b} \<Longrightarrow>
   \<exists>bs. deserialize_all junk vs = Ret (map Some bs) \<and> vs = map serialize_block bs \<and> (\<forall>b\<in>set bs. serializable b)"
proof (induction vs)
  case (Cons v vs)
  then obtain bs where bs: "deserialize_all junk vs = Ret (map Some bs)" "vs = map serialize_block bs" "\<forall>b\<in>set bs. serializable b" by auto
  obtain b where "serializable b" "v = serialize_block b" using Cons.prems by auto
  with bs show ?case by (intro exI [of _ "b # bs"]) (simp add: codec_simps)
qed simp

lemma unchecked_get_returns:
  assumes "unchecked_wf s"
  obtains bs where "unchecked_get junk s h = Ret (map Some bs)"
    "set bs = {b. (h, b) \<in> set (unchecked_cache s)} \<union>
      {b. serializable b \<and> serialize_block b \<in> set (dup_values h (unchecked_table s))}"
proof -
  obtain bs where bs: "deserialize_all junk (dup_values h (unchecked_table s)) = Ret (map Some bs)"
    "dup_values h (unchecked_table s) = map serialize_block bs" "\<forall>b\<in>set bs. serializable b"
    using deserialize_all_serialized [of "dup_values h (unchecked_table s)" junk] assms by (auto simp: unchecked_wf_def)
  let ?cs = "map snd (filter (\<lambda>(k, _). k = h) (unchecked_cache s))"
  have "unchecked_get junk s h = Ret (map Some (?cs @ bs))"
    using bs(1) by (simp add: unchecked_get_def Let_def case_prod_beta)
  moreover have "set bs = {b. serializable b \<and> serialize_block b \<in> set (dup_values h (unchecked_table s))}"
  proof
    show "{b. serializable b \<and> serialize_block b \<in> set (dup_values h (unchecked_table s))} \<subseteq> set bs"
      unfolding bs(2) using bs(3) by (auto dest: serialize_block_inj)
  qed (use bs(2,3) in auto)
  moreover have "set ?cs = {b. (h, b) \<in> set (unchecked_cache s)}" by force
  ultimately show thesis by (intro that [of "?cs @ bs"]) (simp_all only: set_append)
qed

section \<open>Histories of the store\<close>

text \<open>Blocks and votes come from messages and from the tables, so that they can be serialised.\<close>

inductive vote_step :: "(u256 \<Rightarrow> u256 \<Rightarrow> u256 \<Rightarrow> u512) \<Rightarrow> params \<Rightarrow> nat \<Rightarrow> vote_store \<Rightarrow> vote_store \<Rightarrow> bool"
  for sign_message P maxkeysize where
  Validate: "serializable (vote_block v) \<Longrightarrow> vote_validate P s v = Ret (s', r) \<Longrightarrow> vote_step sign_message P maxkeysize s s'"
| Generate_vote: "serializable b \<Longrightarrow> vote_generate sign_message P s a key b = Ret (s', v) \<Longrightarrow> vote_step sign_message P maxkeysize s s'"
| Flush: "flush maxkeysize s = Ret s' \<Longrightarrow> vote_step sign_message P maxkeysize s s'"
| Unchecked_put: "serializable b \<Longrightarrow> vote_step sign_message P maxkeysize s (unchecked_put s h b)"
| Unchecked_del: "vote_step sign_message P maxkeysize s (unchecked_del s h b)"
| Unchecked_clear: "vote_step sign_message P maxkeysize s (unchecked_clear s)"

lemma votes_wf_cache: "votes_wf s \<Longrightarrow> vote_ok a v \<Longrightarrow> votes_wf (cache_vote s a v)"
  by (simp add: votes_wf_def cache_vote_def)

lemma wf_cache [simp]: "unchecked_wf (cache_vote s a v) \<longleftrightarrow> unchecked_wf s"
  by (simp add: unchecked_wf_def cache_vote_def)

lemma vote_max_eval:
  assumes "votes_wf s"
  obtains c w where "vote_current (uninit P) s (vote_account v) = Ret c"
    "vote_max P s v = Ret (cache_vote s (vote_account v) w, w, \<not> (\<exists>x. c = Some x \<and> sequence v < sequence x))"
    "w = (case c of Some x \<Rightarrow> if sequence v < sequence x then x else v | None \<Rightarrow> v)"
    "\<And>x. c = Some x \<Longrightarrow> vote_ok (vote_account v) x"
proof -
  obtain c where c: "vote_current (uninit P) s (vote_account v) = Ret c" "\<And>x. c = Some x \<Longrightarrow> vote_ok (vote_account v) x"
    using vote_current_returns [OF assms, of "uninit P" "vote_account v"] by blast
  show thesis by (rule that [OF c(1) _ refl c(2)]) (auto simp: vote_max_def c(1) Let_def split: option.split)
qed

lemma wf_unchecked_del: "unchecked_wf s \<Longrightarrow> unchecked_wf (unchecked_del s h b)"
  by (auto simp: unchecked_wf_def unchecked_del_def dup_values_del dest: notin_set_remove1)

lemma wf_flush:
  assumes wf: "vote_store_wf s" and f: "flush n s = Ret s'"
  shows "vote_store_wf s'"
proof -
  obtain u where u: "flush_unchecked n (unchecked_cache s) (unchecked_table s) = Ret u"
    "s' = \<lparr>vote_table = flush_votes (vote_cache s) (vote_table s), vote_cache = fmempty, unchecked_table = u, unchecked_cache = []\<rparr>"
    using f by (auto simp: flush_eq)
  have "votes_wf s'" using wf u(2) by (auto simp: vote_store_wf_def votes_wf_def flush_votes_lookup split: option.split_asm) blast
  moreover have "unchecked_wf s'"
    using wf u(2) flush_unchecked_values [OF u(1)] by (fastforce simp: vote_store_wf_def unchecked_wf_def)
  ultimately show ?thesis by (simp add: vote_store_wf_def)
qed

lemma validate_store:
  assumes wf: "votes_wf s" and ser: "serializable (vote_block v)" and r: "vote_validate P s v = Ret (s', r)"
  obtains "s' = s" | w where "s' = cache_vote s (vote_account v) w" "vote_ok (vote_account v) w"
    "\<And>x. vote_current (uninit P) s (vote_account v) = Ret (Some x) \<Longrightarrow> sequence x \<le> sequence w"
proof (cases "validate_message P (vote_account v) (vote_hash (blake2b P) v) (vote_signature v)")
  case True
  then show thesis using r that(1) by (simp add: vote_validate_def)
next
  case False
  obtain c w where m: "vote_current (uninit P) s (vote_account v) = Ret c"
    "vote_max P s v = Ret (cache_vote s (vote_account v) w, w, \<not> (\<exists>x. c = Some x \<and> sequence v < sequence x))"
    "w = (case c of Some x \<Rightarrow> if sequence v < sequence x then x else v | None \<Rightarrow> v)"
    "\<And>x. c = Some x \<Longrightarrow> vote_ok (vote_account v) x"
    using vote_max_eval [OF wf, of P v] by blast
  have "vote_ok (vote_account v) w" using m(3,4) ser by (auto simp: vote_ok_def split: option.split if_split)
  then show thesis using False r m by (intro that(2) [of w]) (auto simp: vote_validate_def split: if_splits)
qed

lemma generate_store:
  assumes wf: "votes_wf s" and ser: "serializable b" and g: "vote_generate sign_message P s a key b = Ret (s', v)"
  shows "s' = cache_vote s a v \<and> vote_ok a v \<and>
    (\<forall>x. vote_current (uninit P) s a = Ret (Some x) \<longrightarrow> sequence v = sequence x + 1)"
  using g ser by (auto simp: vote_generate_def obind_eq_Ret vote_make_def vote_ok_def Let_def)

lemma step_wf:
  assumes "vote_step sign_message P maxkeysize s s'" "vote_store_wf s"
  shows "vote_store_wf s'"
  using assms
proof cases
  case (Validate v r)
  have wf: "votes_wf s" "unchecked_wf s" using assms(2) by (simp_all add: vote_store_wf_def)
  show ?thesis
    by (cases rule: validate_store [OF wf(1) Validate]) (use wf in \<open>auto simp: vote_store_wf_def intro: votes_wf_cache\<close>)
next
  case (Generate_vote b a key v)
  then show ?thesis using assms(2) generate_store [OF _ Generate_vote] by (auto simp: vote_store_wf_def intro: votes_wf_cache)
next
  case Flush
  then show ?thesis using assms(2) wf_flush by blast
next
  case (Unchecked_put b h)
  then show ?thesis using assms(2) by (auto simp: vote_store_wf_def votes_wf_def unchecked_wf_def unchecked_put_def)
next
  case (Unchecked_del h b)
  have "votes_wf s'" using assms(2) Unchecked_del by (simp add: vote_store_wf_def votes_wf_def unchecked_del_def)
  then show ?thesis using assms(2) Unchecked_del wf_unchecked_del by (simp add: vote_store_wf_def)
next
  case Unchecked_clear
  then show ?thesis
    using assms(2) by (auto simp: vote_store_wf_def votes_wf_def unchecked_wf_def unchecked_clear_def dup_values_def)
qed

interpretation vote_history: invariant_system "\<lambda>s. s = empty_vote_store" "vote_step sign_message P maxkeysize" vote_store_wf
  for sign_message P maxkeysize
proof
  show "vote_store_wf s" if "s = empty_vote_store" for s
    using that by (simp add: vote_store_wf_def votes_wf_def unchecked_wf_def empty_vote_store_def dup_values_def)
qed (rule step_wf)

definition vote_reachable :: "(u256 \<Rightarrow> u256 \<Rightarrow> u256 \<Rightarrow> u512) \<Rightarrow> params \<Rightarrow> nat \<Rightarrow> vote_store \<Rightarrow> bool" where
  "vote_reachable sign_message P maxkeysize s \<longleftrightarrow> (vote_step sign_message P maxkeysize)\<^sup>*\<^sup>* empty_vote_store s"

lemma reachable_wf: "vote_reachable sign_message P maxkeysize s \<Longrightarrow> votes_wf s \<and> unchecked_wf s"
  using vote_history.inv_reachable [OF refl] by (auto simp: vote_reachable_def vote_store_wf_def)

section \<open>Properties\<close>

text \<open>
  C26: Votes survive their serialised forms: the vote stored in the table, and the vote in a message, whose
  header carries the type of the block, are read back as the same vote, and the bytes that followed are left.
  This holds for votes on a serializable block: one that is not a send_v2 block with an action of 65536 bytes or
  more, whose length does not fit the two bytes it is written in.
\<close>

theorem vote_roundtrip:
  assumes "serializable (vote_block v)"
  shows "vote_read junk (vote_serialize v @ r) = Ret (Some (v, r)) \<and> vote_of_val junk (vote_serialize v) = Ret v \<and>
    vote_read_typed junk (vote_serialize_typed v @ r) (type_code (type_of_block (vote_block v))) = Ret (Some (v, r))"
proof (intro conjI)
  show "vote_of_val junk (vote_serialize v) = Ret v" using assms by (rule vote_of_val_serialize)
qed (use assms in \<open>simp_all add: vote_read_def vote_read_typed_def vote_serialize_def vote_serialize_typed_def
      codec_simps deserialize_block_typed_serialize\<close>)

theorem vote_roundtrip_witness:
  "vote_read (1, 2) (vote_serialize \<lparr>sequence = 3, vote_block = Change \<lparr>change_previous = 5, change_representative = 6\<rparr> 7 8,
     vote_account = 9, vote_signature = 10\<rparr> @ [11]) =
   Ret (Some (\<lparr>sequence = 3, vote_block = Change \<lparr>change_previous = 5, change_representative = 6\<rparr> 7 8,
     vote_account = 9, vote_signature = 10\<rparr>, [11]))"
  by (rule conjunct1 [OF vote_roundtrip]) (simp add: serializable_def)

lemma word_le_Suc: "x \<le> x + 1 \<or> x = - 1" for x :: "'a::len word"
proof (cases "1 + x = 0")
  case True
  then show ?thesis by (simp add: eq_neg_iff_add_eq_0 add.commute)
next
  case False
  then show ?thesis using unatSuc [OF False] by (simp add: word_le_nat_alt add.commute)
qed

text \<open>
  C20: The latest vote of a representative is never replaced by one with a smaller sequence number: in every
  history of received votes, generated votes, flushes and changes of the unchecked table, after each step the
  representative still has a latest vote and its number is not smaller.  The only exception is a vote generated
  when the number is the largest one, which wraps around.
\<close>

theorem votes_never_go_back:
  assumes r: "vote_reachable sign_message P maxkeysize s" and st: "vote_step sign_message P maxkeysize s s'"
    and c: "vote_current (uninit P) s a = Ret (Some v)"
  shows "\<exists>v'. vote_current (uninit P) s' a = Ret (Some v') \<and> (sequence v \<le> sequence v' \<or> sequence v = - 1)"
  using st
proof cases
  case (Validate w r')
  have wf: "votes_wf s" using reachable_wf [OF r] by simp
  show ?thesis by (cases rule: validate_store [OF wf Validate]) (use c in auto)
next
  case (Generate_vote b a' key w)
  have wf: "votes_wf s" using reachable_wf [OF r] by simp
  from word_le_Suc [of "sequence v"] generate_store [OF wf Generate_vote] c show ?thesis by (cases "a = a'") auto
next
  case Flush
  then show ?thesis using vote_current_flush [OF conjunct1 [OF reachable_wf [OF r]] Flush] c by auto
qed (use c in auto)

definition plain_params :: params where
  "plain_params = \<lparr>blake2b = (\<lambda>n bs. replicate n 1), ed25519_sign_open = (\<lambda>_ _ _. 0), genesis_account = 4, uninit = (0, 0)\<rparr>"

definition plain_vote :: "u64 \<Rightarrow> vote" where
  "plain_vote n = \<lparr>sequence = n, vote_block = Change \<lparr>change_previous = 5, change_representative = 6\<rparr> 7 8, vote_account = 9,
     vote_signature = 10\<rparr>"

abbreviation no_sign :: "u256 \<Rightarrow> u256 \<Rightarrow> u256 \<Rightarrow> u512" where
  "no_sign \<equiv> \<lambda>_ _ _. 0"

lemma plain_validate:
  "vote_validate plain_params empty_vote_store (plain_vote n) =
    Ret (cache_vote empty_vote_store 9 (plain_vote n), Vote_vote, Some (plain_vote n))"
  by (simp add: vote_validate_def validate_message_def plain_params_def vote_max_def vote_current_def empty_vote_store_def
      vote_get_def mdb_get_def plain_vote_def)

lemma plain_reachable: "vote_reachable no_sign plain_params 511 (cache_vote empty_vote_store 9 (plain_vote n))"
  unfolding vote_reachable_def
  by (rule r_into_rtranclp, rule Validate [OF _ plain_validate]) (simp add: plain_vote_def serializable_def)

theorem votes_never_go_back_witness:
  "\<exists>s'. vote_step no_sign plain_params 511 (cache_vote empty_vote_store 9 (plain_vote 3)) s' \<and>
    (\<exists>v'. vote_current (uninit plain_params) s' 9 = Ret (Some v') \<and> (3 \<le> sequence v' \<or> (3 :: u64) = - 1))"
proof -
  let ?s = "cache_vote empty_vote_store 9 (plain_vote 3)"
  have st: "vote_step no_sign plain_params 511 ?s (unchecked_clear ?s)" by (rule Unchecked_clear)
  have "vote_current (uninit plain_params) ?s 9 = Ret (Some (plain_vote 3))" by simp
  from votes_never_go_back [OF plain_reachable st this] st show ?thesis by (auto simp: plain_vote_def)
qed

text \<open>
  C21: The verdict on a received vote: a vote with a bad signature is invalid and changes nothing; otherwise the
  latest vote becomes whichever has the larger sequence number, the new one if the numbers are equal, and the
  verdict is a replay exactly when the known number is strictly larger.  In particular a vote that is received
  twice is not reported as a replay the second time.
\<close>

theorem vote_verdicts:
  assumes r: "vote_reachable sign_message P maxkeysize s"
  shows "\<exists>c w. vote_current (uninit P) s (vote_account v) = Ret c \<and>
    w = (case c of Some x \<Rightarrow> if sequence v < sequence x then x else v | None \<Rightarrow> v) \<and>
    (if validate_message P (vote_account v) (vote_hash (blake2b P) v) (vote_signature v)
     then vote_validate P s v = Ret (s, Vote_invalid, None)
     else \<exists>s'. vote_validate P s v = Ret (s', if \<exists>x. c = Some x \<and> sequence v < sequence x then Vote_replay else Vote_vote, Some w) \<and>
         vote_current (uninit P) s' (vote_account v) = Ret (Some w) \<and>
         (w = v \<longrightarrow> (\<exists>s''. vote_validate P s' v = Ret (s'', Vote_vote, Some v))))"
proof -
  have wf: "votes_wf s" using reachable_wf [OF r] by simp
  obtain c w where m: "vote_current (uninit P) s (vote_account v) = Ret c"
    "vote_max P s v = Ret (cache_vote s (vote_account v) w, w, \<not> (\<exists>x. c = Some x \<and> sequence v < sequence x))"
    "w = (case c of Some x \<Rightarrow> if sequence v < sequence x then x else v | None \<Rightarrow> v)"
    using vote_max_eval [OF wf, of P v] by blast
  have "vote_max P (cache_vote s (vote_account v) v) v = Ret (cache_vote (cache_vote s (vote_account v) v) (vote_account v) v, v, True)"
    by (simp add: vote_max_def)
  then have "\<not> validate_message P (vote_account v) (vote_hash (blake2b P) v) (vote_signature v) \<Longrightarrow> w = v \<Longrightarrow>
      \<exists>s''. vote_validate P (cache_vote s (vote_account v) w) v = Ret (s'', Vote_vote, Some v)"
    by (simp add: vote_validate_def)
  moreover have "\<not> validate_message P (vote_account v) (vote_hash (blake2b P) v) (vote_signature v) \<Longrightarrow>
      vote_validate P s v = Ret (cache_vote s (vote_account v) w,
        if \<exists>x. c = Some x \<and> sequence v < sequence x then Vote_replay else Vote_vote, Some w)"
    using m(2) by (simp add: vote_validate_def)
  moreover have "vote_current (uninit P) (cache_vote s (vote_account v) w) (vote_account v) = Ret (Some w)" by simp
  moreover have "validate_message P (vote_account v) (vote_hash (blake2b P) v) (vote_signature v) \<Longrightarrow>
      vote_validate P s v = Ret (s, Vote_invalid, None)" by (simp add: vote_validate_def)
  ultimately show ?thesis
    by (intro exI [of _ c] exI [of _ w] conjI m(1,3)) (unfold if_bool_eq_conj, blast)
qed

theorem vote_verdicts_witness:
  "\<exists>s'. vote_validate plain_params (cache_vote empty_vote_store 9 (plain_vote 3)) (plain_vote 2) =
    Ret (s', Vote_replay, Some (plain_vote 3)) \<and> vote_current (uninit plain_params) s' 9 = Ret (Some (plain_vote 3))"
proof -
  have "\<not> validate_message plain_params a h g" for a h g by (simp add: validate_message_def plain_params_def)
  moreover have a: "vote_account (plain_vote 2) = 9" "sequence (plain_vote 2) < sequence (plain_vote 3)" by (simp_all add: plain_vote_def)
  moreover have "vote_current (uninit plain_params) (cache_vote empty_vote_store 9 (plain_vote 3)) 9 = Ret (Some (plain_vote 3))" by simp
  ultimately show ?thesis
    using vote_verdicts [OF plain_reachable, of 3 "plain_vote 2"] by (simp del: vote_current_cache) blast
qed

text \<open>
  C22: Flushing is invisible: it empties the caches and changes neither the latest vote of any account nor the
  set of blocks that wait under any hash.  It ends normally exactly when every cached block is short enough for
  the table; otherwise it aborts.
\<close>

theorem flush_transparent:
  assumes r: "vote_reachable sign_message P maxkeysize s"
  shows "if \<forall>(h, b)\<in>set (unchecked_cache s). length (serialize_block b) \<le> maxkeysize
    then \<exists>s'. flush maxkeysize s = Ret s' \<and> vote_cache s' = fmempty \<and> unchecked_cache s' = [] \<and>
      (\<forall>a. vote_current (uninit P) s' a = vote_current (uninit P) s a) \<and>
      (\<forall>h. \<exists>xs ys. unchecked_get (uninit P) s h = Ret xs \<and> unchecked_get (uninit P) s' h = Ret ys \<and> set xs = set ys)
    else flush maxkeysize s = Abort"
proof (cases "\<forall>(h, b)\<in>set (unchecked_cache s). length (serialize_block b) \<le> maxkeysize")
  case True
  note wf = reachable_wf [OF r]
  obtain u where u: "flush_unchecked maxkeysize (unchecked_cache s) (unchecked_table s) = Ret u"
    using True flush_unchecked_returns by blast
  let ?s = "\<lparr>vote_table = flush_votes (vote_cache s) (vote_table s), vote_cache = fmempty, unchecked_table = u, unchecked_cache = []\<rparr>"
  have f: "flush maxkeysize s = Ret ?s" using u by (simp add: flush_eq)
  have wf': "unchecked_wf ?s" using wf_flush [OF _ f] wf by (simp add: vote_store_wf_def)
  have "\<exists>xs ys. unchecked_get (uninit P) s h = Ret xs \<and> unchecked_get (uninit P) ?s h = Ret ys \<and> set xs = set ys" for h
  proof -
    obtain xs where xs: "unchecked_get (uninit P) s h = Ret (map Some xs)" "set xs = {b. (h, b) \<in> set (unchecked_cache s)} \<union>
      {b. serializable b \<and> serialize_block b \<in> set (dup_values h (unchecked_table s))}"
      using unchecked_get_returns [of s "uninit P" h] wf by blast
    obtain ys where ys: "unchecked_get (uninit P) ?s h = Ret (map Some ys)" "set ys =
      {b. serializable b \<and> serialize_block b \<in> set (dup_values h u)}"
      using unchecked_get_returns [OF wf', of "uninit P" h] by auto
    have "set (dup_values h u) = set (dup_values h (unchecked_table s)) \<union> serialize_block ` {b. (h, b) \<in> set (unchecked_cache s)}"
      using flush_unchecked_values [OF u] wf by (auto simp: unchecked_wf_def)
    moreover have "serializable b" if "(h, b) \<in> set (unchecked_cache s)" for b using wf that by (auto simp: unchecked_wf_def)
    ultimately have "set xs = set ys" unfolding xs(2) ys(2) by (auto, metis serialize_block_inj)
    with xs ys show ?thesis by auto
  qed
  with True f vote_current_flush [OF _ f] wf show ?thesis by simp
next
  case False
  have "flush_unchecked maxkeysize es t \<noteq> Diverge" for es t
    by (induction es arbitrary: t) (auto simp: mdb_put_dup_def split: if_splits)
  moreover have "flush_unchecked maxkeysize (unchecked_cache s) (unchecked_table s) \<noteq> Ret u" for u
    using False flush_unchecked_returns by blast
  ultimately have "flush_unchecked maxkeysize (unchecked_cache s) (unchecked_table s) = Abort" by (metis outcome.exhaust)
  with False show ?thesis by (simp add: flush_def Let_def)
qed

theorem flush_transparent_witness:
  "\<exists>s'. flush 511 (cache_vote empty_vote_store 9 (plain_vote 3)) = Ret s' \<and> vote_cache s' = fmempty \<and>
    vote_current (uninit plain_params) s' 9 = Ret (Some (plain_vote 3))"
proof -
  have "unchecked_cache (cache_vote empty_vote_store 9 (plain_vote 3)) = []" by (simp add: cache_vote_def empty_vote_store_def)
  with flush_transparent [OF plain_reachable, of 3] show ?thesis by auto
qed

text \<open>
  Blocks wait where they were put until they are removed: after \<^verbatim>\<open>unchecked_put\<close> the block is among those
  found under the hash, after \<^verbatim>\<open>unchecked_del\<close> it is not, whether it was cached, stored or both, and all other
  blocks are found as before.
\<close>

theorem unchecked_put_get_del:
  assumes r: "vote_reachable sign_message P maxkeysize s" and b: "serializable b"
  shows "\<exists>xs ys zs. unchecked_get (uninit P) s h = Ret (map Some xs) \<and>
    unchecked_get (uninit P) (unchecked_put s k b) h = Ret (map Some ys) \<and> set ys = set xs \<union> (if h = k then {b} else {}) \<and>
    unchecked_get (uninit P) (unchecked_del s k b) h = Ret (map Some zs) \<and> set zs = set xs - (if h = k then {b} else {})"
proof -
  have wf: "unchecked_wf s" using reachable_wf [OF r] by simp
  then have wp: "unchecked_wf (unchecked_put s k b)" using b by (auto simp: unchecked_wf_def unchecked_put_def)
  have d: "distinct (dup_values k (unchecked_table s))" using wf by (simp add: unchecked_wf_def)
  obtain xs where xs: "unchecked_get (uninit P) s h = Ret (map Some xs)" "set xs = {b. (h, b) \<in> set (unchecked_cache s)} \<union>
    {b. serializable b \<and> serialize_block b \<in> set (dup_values h (unchecked_table s))}"
    by (rule unchecked_get_returns [OF wf])
  obtain ys where ys: "unchecked_get (uninit P) (unchecked_put s k b) h = Ret (map Some ys)"
    "set ys = {c. (h, c) \<in> set (unchecked_cache (unchecked_put s k b))} \<union>
      {c. serializable c \<and> serialize_block c \<in> set (dup_values h (unchecked_table (unchecked_put s k b)))}"
    by (rule unchecked_get_returns [OF wp])
  have yx: "set ys = set xs \<union> (if h = k then {b} else {})" unfolding ys(2) xs(2) by (auto simp: unchecked_put_def)
  obtain zs where zs: "unchecked_get (uninit P) (unchecked_del s k b) h = Ret (map Some zs)"
    "set zs = {c. (h, c) \<in> set (unchecked_cache (unchecked_del s k b))} \<union>
      {c. serializable c \<and> serialize_block c \<in> set (dup_values h (unchecked_table (unchecked_del s k b)))}"
    by (rule unchecked_get_returns [OF wf_unchecked_del [OF wf]])
  have zx: "set zs = set xs - (if h = k then {b} else {})"
  proof -
    have inj: "serialize_block c = serialize_block b \<longleftrightarrow> c = b" if "serializable c" for c
      using serialize_block_inj [OF that b] by blast
    show ?thesis unfolding zs(2) xs(2) using d by (auto simp: unchecked_del_def dup_values_del set_remove1_eq inj)
  qed
  show ?thesis by (rule exI [of _ xs], rule exI [of _ ys], rule exI [of _ zs], intro conjI xs(1) ys(1) zs(1) yx zx)
qed

theorem unchecked_put_get_del_witness:
  "let s = cache_vote empty_vote_store 9 (plain_vote 3); b = vote_block (plain_vote 3) in
   \<exists>xs ys zs. unchecked_get (uninit plain_params) s 5 = Ret (map Some xs) \<and>
    unchecked_get (uninit plain_params) (unchecked_put s 5 b) 5 = Ret (map Some ys) \<and> set ys = set xs \<union> {b} \<and>
    unchecked_get (uninit plain_params) (unchecked_del s 5 b) 5 = Ret (map Some zs) \<and> set zs = set xs - {b}"
proof -
  have "serializable (vote_block (plain_vote 3))" by (simp add: plain_vote_def serializable_def)
  from unchecked_put_get_del [OF plain_reachable this, of 3 5 5] show ?thesis by (simp add: Let_def)
qed

end
