(* ===== verification/Ledger_Supply.thy ===== *)
theory Ledger_Supply
  imports Ledger_Example
begin

text \<open>
  The pending amounts of an account and the money supply on reachable ledgers: the range scan of
  \<^verbatim>\<open>ledger::account_pending\<close> visits exactly the entries of the account, and no sum of the ledger wraps around.
\<close>

section \<open>Cursors\<close>

lemma store_begin_sorted: "sorted_wrt (\<lambda>x y. fst x < fst y) (store_begin t)"
  by (simp add: store_begin_def sorted_wrt_map strict_sorted_list_of_set sorted_list_of_fset.rep_eq)

lemma store_begin_set: "set (store_begin t) = {(k, v). fmlookup t k = Some v}"
  by (auto simp: store_begin_def sorted_list_of_fset.rep_eq fmlookup_dom_iff image_iff)

lemma range_scan:
  assumes "sorted_wrt (\<lambda>x y. fst x < fst y) xs"
  shows "takeWhile (\<lambda>(x, _). x < u) (dropWhile (\<lambda>(x, _). x < l) xs) = filter (\<lambda>(x, _). l \<le> x \<and> x < (u :: 'k :: linorder)) xs"
  using assms
proof (induction xs)
  case (Cons p xs)
  obtain k v where p: "p = (k, v)" by (cases p)
  have above: "\<forall>q\<in>set xs. k < fst q" using Cons.prems p by simp
  show ?case
  proof (cases "k < l")
    case True
    then show ?thesis using Cons p by (simp add: not_le [symmetric])
  next
    case False
    have "takeWhile (\<lambda>(x, _). x < u) xs = filter (\<lambda>(x, _). l \<le> x \<and> x < u) xs" if "k < u"
    proof -
      have "dropWhile (\<lambda>(x, _). x < l) xs = xs"
        using above False by (cases xs) (auto simp: dropWhile_eq_self_iff)
      then show ?thesis using Cons by simp
    qed
    moreover have "filter (\<lambda>(x, _). l \<le> x \<and> x < u) xs = []" if "\<not> k < u"
      using above that by (fastforce simp: filter_empty_conv)
    ultimately show ?thesis using False p by auto
  qed
qed simp

lemma dropWhile_twice: "(\<And>x. P x \<Longrightarrow> Q x) \<Longrightarrow> dropWhile Q (dropWhile P xs) = dropWhile Q xs"
  by (induction xs) auto

lemma range_split:
  assumes "sorted_wrt (\<lambda>x y. fst x < fst y) xs" and "l < u"
  shows "dropWhile (\<lambda>(x, _). x < l) xs =
    filter (\<lambda>(x, _). l \<le> x \<and> x < u) xs @ dropWhile (\<lambda>(x, _). x < (u :: 'k :: linorder)) xs"
proof -
  have "dropWhile (\<lambda>(x, _). x < u) (dropWhile (\<lambda>(x, _). x < l) xs) = dropWhile (\<lambda>(x, _). x < u) xs"
    by (rule dropWhile_twice) (use assms(2) in \<open>auto intro: less_trans\<close>)
  then show ?thesis
    using takeWhile_dropWhile_id [of "\<lambda>(x, _). x < u" "dropWhile (\<lambda>(x, _). x < l) xs"] range_scan [OF assms(1)] by metis
qed

lemma distinct_dropWhile: "distinct (map fst xs) \<Longrightarrow> distinct (map fst (dropWhile P xs))"
  by (induction xs) auto

section \<open>The loop of account_pending\<close>

definition decoded_amount :: "byte list \<Rightarrow> u128" where
  "decoded_amount v = (case pending_info_deserialize v of None \<Rightarrow> 0 | Some (i, _) \<Rightarrow> pending_amount i)"

lemma pending_sum_prefix:
  assumes "\<forall>(k, v)\<in>set xs. \<exists>i. v = pending_info_val i" and "distinct (map fst (xs @ ys))"
  shows "pending_sum (xs @ ys) (case ys of [] \<Rightarrow> None | (k, _) # _ \<Rightarrow> Some k) r =
    Ret (r + sum_list (map (\<lambda>(_, v). decoded_amount v) xs))"
  using assms
proof (induction xs arbitrary: r)
  case Nil
  then show ?case by (cases ys) auto
next
  case (Cons p xs)
  obtain k i where p: "p = (k, pending_info_val i)" using Cons.prems(1) by (cases p) auto
  have "(case ys of [] \<Rightarrow> None | (k, _) # _ \<Rightarrow> Some k) \<noteq> Some k"
    using Cons.prems(2) p by (cases ys) auto
  moreover have "pending_info_deserialize (pending_info_val i) = Some (i, [])"
    by (simp add: pending_info_codec.des_ser_nil)
  moreover have "length (pending_info_val i) = 48" by (simp add: pending_info_val_def codec_simps)
  moreover have "\<forall>(k, v)\<in>set xs. \<exists>i. v = pending_info_val i" "distinct (map fst (xs @ ys))"
    using Cons.prems by simp_all
  note IH = Cons.IH [OF this]
  ultimately show ?case by (simp add: p decoded_amount_def add.assoc IH)
qed

lemma pair_range:
  fixes k :: "u256 \<times> u256"
  assumes "a \<noteq> - 1"
  shows "(a, 0) \<le> k \<and> k < (a + 1, 0) \<longleftrightarrow> fst k = a"
proof -
  have succ: "unat (a + 1) = Suc (unat a)" using unatSuc [of a] assms by (simp add: add.commute add_eq_0_iff)
  have "x = a" if "a \<le> x" "x < a + 1" for x
    using that by (simp add: word_le_nat_alt word_less_nat_alt succ) (simp add: word_unat_eq_iff)
  moreover have "a < a + 1" by (simp add: word_less_nat_alt succ)
  ultimately have range: "a \<le> x \<and> x < a + 1 \<longleftrightarrow> x = a" for x by blast
  obtain x y where k: "k = (x, y)" by (cases k)
  have "(a, 0) \<le> k \<longleftrightarrow> a \<le> x" by (auto simp: k less_eq_prod_simp intro: less_imp_le)
  moreover have "k < (a + 1, 0) \<longleftrightarrow> x < a + 1" by (simp add: k less_prod_simp)
  ultimately show ?thesis using range by (simp add: k)
qed

lemma pending_key_succ: "a \<noteq> - 1 \<Longrightarrow> (a, 0 :: u256) < (a + 1 :: u256, 0)"
  using pair_range [of a "(a, 0)"] by simp

lemma unat_sum_list:
  fixes ws :: "'l::len word list"
  assumes "sum_list (map unat ws) < 2 ^ LENGTH('l)"
  shows "unat (sum_list ws) = sum_list (map unat ws)"
  using assms
proof (induction ws)
  case (Cons w ws)
  then show ?case by (simp add: unat_word_ariths)
qed simp

definition pending_to :: "view \<Rightarrow> u256 \<Rightarrow> nat" where
  "pending_to v a = (\<Sum>k\<in>{k\<in>dom (vpnd v). fst k = a}. unat (pending_amount (the (vpnd v k))))"

lemma pending_to_le: "finite (dom (vpnd v)) \<Longrightarrow> pending_to v a \<le> msum (\<lambda>p. unat (pending_amount p)) (vpnd v)"
  unfolding pending_to_def msum_def by (rule sum_mono2) auto

lemma pending_lookup:
  assumes "represents s v" and "fmlookup (pending s) k = Some w"
  shows "\<exists>i. w = pending_info_val i \<and> vpnd v k = Some i \<and> decoded_amount w = pending_amount i"
proof -
  have "values_in pending_info_val (pending s)" and v: "v = view_of s"
    using assms by (auto simp: represents_def wf_store_def)
  then obtain i where i: "w = pending_info_val i" using assms(2) unfolding values_in_def by blast
  have "pending_info_deserialize (pending_info_val i) = Some (i, [])" by (simp add: pending_info_codec.des_ser_nil)
  then show ?thesis using assms(2) i by (simp add: v view_of_def decode_with_def decoded_amount_def)
qed

lemma pending_dom:
  assumes "represents s v"
  shows "dom (vpnd v) = {k. fmlookup (pending s) k \<noteq> None}"
  using assms pending_lookup [OF assms] by (fastforce simp: represents_def view_of_def decode_with_def bind_eq_Some_conv)

lemma account_pending_eq:
  assumes r: "represents s v" and bound: "msum (\<lambda>p. unat (pending_amount p)) (vpnd v) < 2 ^ 128" and a: "a \<noteq> - 1"
  shows "\<exists>p. account_pending s a = Ret p \<and> unat p = pending_to v a"
proof -
  let ?L = "store_begin (pending s)" and ?amount = "\<lambda>k. pending_amount (the (vpnd v k))"
  let ?X = "filter (\<lambda>(x, _). (a, 0) \<le> x \<and> x < (a + 1, 0)) ?L" and ?Y = "store_from (a + 1, 0) (pending s)"
  have sorted: "sorted_wrt (\<lambda>x y. fst x < fst y) ?L" by (rule store_begin_sorted)
  then have "sorted_wrt (<) (map fst ?L)" by (simp add: sorted_wrt_map)
  then have dL: "distinct (map fst ?L)" by (simp add: strict_sorted_iff)
  have split: "store_from (a, 0) (pending s) = ?X @ ?Y"
    unfolding store_from_def by (rule range_split [OF sorted]) (rule pending_key_succ [OF a])
  have "distinct (map fst (store_from (a, 0) (pending s)))"
    unfolding store_from_def using dL by (rule distinct_dropWhile)
  then have "distinct (map fst (?X @ ?Y))" by (simp only: split)
  moreover have look: "fmlookup (pending s) k = Some w" if "(k, w) \<in> set ?X" for k w
    using that by (simp add: store_begin_set)
  ultimately have "account_pending s a = Ret (sum_list (map (\<lambda>(_, v). decoded_amount v) ?X))"
    unfolding account_pending_def split using pending_lookup [OF r]
    by (subst pending_sum_prefix) (blast, simp_all)
  also have "map (\<lambda>(_, v). decoded_amount v) ?X = map (\<lambda>(k, _). ?amount k) ?X"
    using look pending_lookup [OF r] by (intro map_cong) fastforce+
  also have "\<dots> = map ?amount (map fst ?X)" by simp
  finally have ret: "account_pending s a = Ret (sum_list (map ?amount (map fst ?X)))" .
  have "set (map fst ?X) = {k\<in>dom (vpnd v). fst k = a}"
    by (auto simp: pair_range [OF a] store_begin_set pending_dom [OF r] image_iff)
  moreover have "distinct (map fst ?X)" using dL by (rule distinct_map_filter)
  ultimately have sum: "sum_list (map (\<lambda>k. unat (?amount k)) (map fst ?X)) = pending_to v a"
    by (simp only: sum_list_distinct_conv_sum_set pending_to_def)
  have "finite (dom (vpnd v))" using r by (rule finite_view)
  then have "pending_to v a < 2 ^ 128" using pending_to_le [of v a] bound by linarith
  then have "unat (sum_list (map ?amount (map fst ?X))) = pending_to v a"
    using sum unat_sum_list [of "map ?amount (map fst ?X)"] by (simp add: comp_def)
  with ret show ?thesis by blast
qed

text \<open>
  The number after the largest account is zero, so that the scan for the largest account ends at the first
  entry of the table: when it starts there it sums up nothing, and otherwise it runs over the end of the table.
\<close>

lemma pending_sum_overrun:
  assumes "\<forall>(k, v)\<in>set xs. \<exists>i. v = pending_info_val i" and "n \<notin> set (map fst xs)"
  shows "pending_sum xs (Some n) r = Abort"
  using assms
proof (induction xs arbitrary: r)
  case (Cons p xs)
  obtain k i where p: "p = (k, pending_info_val i)" using Cons.prems(1) by (cases p) auto
  have "pending_info_deserialize (pending_info_val i) = Some (i, [])" by (simp add: pending_info_codec.des_ser_nil)
  moreover have "length (pending_info_val i) = 48" by (simp add: pending_info_val_def codec_simps)
  ultimately show ?case using Cons.prems Cons.IH by (auto simp: p check_def)
qed simp

lemma account_pending_last:
  assumes r: "represents s v"
  shows "account_pending s (- 1) = (if \<exists>k\<in>dom (vpnd v). fst k \<noteq> - 1 then Abort else Ret 0)"
proof -
  let ?L = "store_begin (pending s)"
  have low: "\<not> k < (0, 0)" for k :: "u256 \<times> u256" by (cases k) (simp add: less_prod_simp)
  then have n: "store_from (- 1 + 1, 0) (pending s) = ?L"
    unfolding store_from_def by (simp add: dropWhile_eq_self_iff split_beta)
  have below: "k < (- 1, 0) \<longleftrightarrow> fst k \<noteq> - 1" for k :: "u256 \<times> u256"
    using word_n1_ge [of "fst k"] by (cases k) (auto simp: less_prod_simp order_less_le)
  have keys: "fst ` set ?L = dom (vpnd v)" by (auto simp: store_begin_set pending_dom [OF r] image_iff)
  show ?thesis
  proof (cases "\<exists>k\<in>dom (vpnd v). fst k \<noteq> - 1")
    case True
    then obtain k w xs where L: "?L = (k, w) # xs" using keys by (cases ?L) auto
    have above: "k < fst q" if "q \<in> set xs" for q using store_begin_sorted [of "pending s"] that by (simp add: L)
    obtain k' where "k' \<in> fst ` set ?L" "k' < (- 1, 0)" using True keys below by blast
    then have "k < (- 1, 0)" using above by (auto simp: L intro: order.strict_trans)
    then have f: "store_from (- 1, 0) (pending s) = dropWhile (\<lambda>(x, _). x < (- 1, 0)) xs" by (simp add: store_from_def L)
    have sub: "set (dropWhile (\<lambda>(x, _). x < (- 1, 0)) xs) \<subseteq> set xs" by (auto dest: set_dropWhileD)
    have "\<forall>(k, v)\<in>set (dropWhile (\<lambda>(x, _). x < (- 1, 0)) xs). \<exists>i. v = pending_info_val i"
    proof clarify
      fix x y u assume "((x, y), u) \<in> set (dropWhile (\<lambda>(x, _). x < (- 1, 0)) xs)"
      then have "((x, y), u) \<in> set ?L" using sub by (auto simp: L)
      then have "fmlookup (pending s) (x, y) = Some u" by (simp add: store_begin_set)
      then show "\<exists>i. u = pending_info_val i" using pending_lookup [OF r] by blast
    qed
    moreover have "k \<notin> set (map fst (dropWhile (\<lambda>(x, _). x < (- 1, 0)) xs))" using sub above by fastforce
    ultimately have "account_pending s (- 1) = Abort"
      unfolding account_pending_def n f using pending_sum_overrun by (simp add: L)
    with True show ?thesis by simp
  next
    case False
    then have "\<forall>q\<in>set ?L. \<not> fst q < (- 1, 0)" using keys below by blast
    then have "store_from (- 1, 0) (pending s) = ?L"
      unfolding store_from_def by (cases ?L) (simp_all add: split_beta)
    then have "account_pending s (- 1) = Ret 0" unfolding account_pending_def n by (cases ?L) auto
    with False show ?thesis by simp
  qed
qed

section \<open>Supply\<close>

definition held_by_others :: "params \<Rightarrow> view \<Rightarrow> nat" where
  "held_by_others P v = (\<Sum>a\<in>dom (vacc v) - {genesis_account P}. unat (balance (the (vacc v a))))"

definition pending_elsewhere :: "view \<Rightarrow> nat" where
  "pending_elsewhere v = (\<Sum>k\<in>{k\<in>dom (vpnd v). fst k \<noteq> 0}. unat (pending_amount (the (vpnd v k))))"

definition genesis_balance :: "params \<Rightarrow> view \<Rightarrow> nat" where
  "genesis_balance P v = (case vacc v (genesis_account P) of None \<Rightarrow> 0 | Some i \<Rightarrow> unat (balance i))"

lemma balances_split:
  assumes "finite (dom (vacc v))"
  shows "msum (\<lambda>i. unat (balance i)) (vacc v) = genesis_balance P v + held_by_others P v"
  using assms unfolding msum_def genesis_balance_def held_by_others_def
  by (cases "vacc v (genesis_account P)") (auto simp: sum.remove [of _ "genesis_account P"] domI domIff Diff_triv)

lemma pending_split:
  assumes "finite (dom (vpnd v))"
  shows "msum (\<lambda>p. unat (pending_amount p)) (vpnd v) = pending_to v 0 + pending_elsewhere v"
proof -
  have "dom (vpnd v) = {k\<in>dom (vpnd v). fst k = 0} \<union> {k\<in>dom (vpnd v). fst k \<noteq> 0}" by blast
  then show ?thesis
    unfolding msum_def pending_to_def pending_elsewhere_def
    using sum.union_disjoint [of "{k\<in>dom (vpnd v). fst k = 0}" "{k\<in>dom (vpnd v). fst k \<noteq> 0}"] assms by fastforce
qed

lemma unat_saturating_diff:
  fixes x y :: "'l::len word"
  shows "unat (if x - y \<le> x then x - y else 0) = unat x - unat y"
proof (cases "y \<le> x")
  case True
  then show ?thesis by (simp add: unat_sub word_le_nat_alt)
next
  case False
  then have "\<not> x - y \<le> x" by (simp add: word_sub_le_iff)
  then show ?thesis using False by (simp add: word_le_nat_alt)
qed

lemma supply_eq:
  assumes g: "good P G s"
  shows "\<exists>u. ledger_supply P s inactive = Ret u \<and>
    unat u = held_by_others P (view_of s) + pending_elsewhere (view_of s) - unat inactive"
proof -
  let ?v = "view_of s"
  obtain g where r: "represents s ?v" and l: "linv P g ?v" using g by (rule goodD)
  have total: "genesis_balance P ?v + held_by_others P ?v + (pending_to ?v 0 + pending_elsewhere ?v) = 2 ^ 128 - 1"
    using linvD(8) [OF l] balances_split [OF finite_view(1) [OF r], of P] pending_split [OF finite_view(2) [OF r]]
    by (simp add: supply_inv_def)
  then have "msum (\<lambda>p. unat (pending_amount p)) (vpnd ?v) < 2 ^ 128"
    using pending_split [OF finite_view(2) [OF r]] by simp
  then obtain p where p: "account_pending s 0 = Ret p" "unat p = pending_to ?v 0"
    using account_pending_eq [OF r, of 0] by auto
  obtain b where b: "account_balance s (genesis_account P) = Ret b" "unat b = genesis_balance P ?v"
    by (simp add: account_balance_def get_views [OF r] genesis_balance_def split: option.split)
  have "unat (genesis_amount - b - p) = held_by_others P ?v + pending_elsewhere ?v"
  proof -
    have ga: "unat genesis_amount = 2 ^ 128 - 1" by (simp add: genesis_amount_def unsigned_minus_1_eq_mask mask_eq_exp_minus_1)
    have "unat (genesis_amount - b) = 2 ^ 128 - 1 - unat b"
      using total b ga by (subst unat_sub) (auto simp: word_le_nat_alt)
    moreover have "unat (genesis_amount - b - p) = unat (genesis_amount - b) - unat p"
      using total b p calculation by (subst unat_sub) (auto simp: word_le_nat_alt)
    ultimately show ?thesis using total b p by linarith
  qed
  then show ?thesis
    using unat_saturating_diff [of "genesis_amount - b - p" inactive] by (simp add: ledger_supply_def b p Let_def)
qed

text \<open>
  C19: On every ledger the program can reach, the supply against which votes are measured is exactly what the
  accounts other than the genesis account hold, together with the pending amounts that are not sent to the burn
  account, less the configured inactive supply and never below zero.  The pending amount of an account is the
  sum of exactly its entries, for every account but the one with the largest number: there the end of the
  range wraps around to zero, and the scan fails an assertion behind the end of the table as soon as any other
  account has a pending entry, and else returns zero whatever is pending.
\<close>

theorem supply_is_held_by_others:
  assumes r: "reachable P G s"
  shows "(\<exists>u. ledger_supply P s inactive = Ret u \<and>
      unat u = held_by_others P (view_of s) + pending_elsewhere (view_of s) - unat inactive) \<and>
    (a \<noteq> - 1 \<longrightarrow> (\<exists>p. account_pending s a = Ret p \<and> unat p = pending_to (view_of s) a)) \<and>
    account_pending s (- 1) = (if \<exists>k\<in>dom (vpnd (view_of s)). fst k \<noteq> - 1 then Abort else Ret 0)"
proof -
  have g: "good P G s" using r by (rule reachable_good)
  then obtain g where rep: "represents s (view_of s)" and l: "linv P g (view_of s)" by (rule goodD)
  have "msum (\<lambda>p. unat (pending_amount p)) (vpnd (view_of s)) < 2 ^ 128"
    using linvD(8) [OF l] by (simp add: supply_inv_def)
  with supply_eq [OF g] account_pending_eq [OF rep] account_pending_last [OF rep] show ?thesis by blast
qed

theorem supply_is_held_by_others_witness:
  "\<exists>s. reachable demo_params demo_genesis s \<and> view_of s = demo_view1 \<and>
    (\<exists>u. ledger_supply demo_params s 3 = Ret u \<and>
      unat u = held_by_others demo_params demo_view1 + pending_elsewhere demo_view1 - unat (3 :: u128)) \<and>
    (\<exists>p. account_pending s 7 = Ret p \<and> unat p = pending_to demo_view1 7) \<and> account_pending s (- 1) = Abort"
proof -
  obtain s where s: "reachable demo_params demo_genesis s" "view_of s = demo_view1" using demo_run by blast
  have "\<exists>k\<in>dom (vpnd demo_view1). fst k \<noteq> - 1" by (simp add: demo_views(2))
  with s supply_is_held_by_others [OF s(1), of 3 7] show ?thesis by auto
qed

end
