(* ===== verification/Elections.thy ===== *)
theory Elections
  imports Votes Ledger_Supply "HOL-Library.Multiset"
begin

text \<open>
  Counting of votes: \<^verbatim>\<open>rai::votes\<close> collects one vote per representative for the blocks of a fork, and
  \<^verbatim>\<open>ledger::tally\<close> and \<^verbatim>\<open>ledger::winner\<close> weigh them (\<^verbatim>\<open>rai/secure.cpp\<close>).

  The unordered map from representatives to blocks is the list of its entries.  The order in which an unordered
  map is traversed is not specified; for the map of totals it is an argument \<open>order\<close>, a permutation, and the
  properties hold for all of them.  The ordered map that the tally returns is the list of its entries in
  decreasing order of the keys.
\<close>

section \<open>Votes of a fork\<close>

record votes =
  votes_id :: u256
  rep_votes :: "(u256 \<times> block) list"

datatype tally_result = Tally_vote | Tally_changed | Tally_confirm

definition votes_make :: "u256 \<Rightarrow> block \<Rightarrow> votes" where
  "votes_make not_an_account block_a = \<lparr>votes_id = root block_a, rep_votes = [(not_an_account, block_a)]\<rparr>"

definition votes_vote :: "votes \<Rightarrow> vote \<Rightarrow> votes \<times> tally_result" where
  "votes_vote vs vote_a =
     (case map_of (rep_votes vs) (vote_account vote_a) of
        None \<Rightarrow> (vs\<lparr>rep_votes := rep_votes vs @ [(vote_account vote_a, vote_block vote_a)]\<rparr>, Tally_vote)
      | Some existing \<Rightarrow>
          if \<not> block_eq existing (vote_block vote_a)
          then (vs\<lparr>rep_votes := map (\<lambda>(a, b). (a, if a = vote_account vote_a then vote_block vote_a else b)) (rep_votes vs)\<rparr>,
                Tally_changed)
          else (vs, Tally_confirm))"

section \<open>Tally\<close>

fun add_total :: "block \<Rightarrow> u128 \<Rightarrow> (block \<times> u128) list \<Rightarrow> (block \<times> u128) list" where
  "add_total b w [] = [(b, 0 + w)]"
| "add_total b w ((c, t) # ts) = (if block_eq c b then (c, t + w) # ts else (c, t) # add_total b w ts)"

fun tally_totals :: "block_store \<Rightarrow> (u256 \<times> block) list \<Rightarrow> (block \<times> u128) list \<Rightarrow> (block \<times> u128) list outcome" where
  "tally_totals s [] totals = Ret totals"
| "tally_totals s ((a, b) # es) totals =
     obind (ledger_weight s a) (\<lambda>weight_l. tally_totals s es (add_total b weight_l totals))"

fun insert_desc :: "u128 \<Rightarrow> block \<Rightarrow> (u128 \<times> block) list \<Rightarrow> (u128 \<times> block) list" where
  "insert_desc w b [] = [(w, b)]"
| "insert_desc w b ((v, c) # xs) =
     (if w = v then (v, b) # xs else if w > v then (w, b) # (v, c) # xs else (v, c) # insert_desc w b xs)"

definition tally :: "((block \<times> u128) list \<Rightarrow> (block \<times> u128) list) \<Rightarrow> block_store \<Rightarrow> votes \<Rightarrow> (u128 \<times> block) list outcome" where
  "tally order s votes_a =
     obind (tally_totals s (rep_votes votes_a) []) (\<lambda>totals.
     Ret (fold (\<lambda>(b, w). insert_desc w b) (order totals) []))"

definition winner :: "((block \<times> u128) list \<Rightarrow> (block \<times> u128) list) \<Rightarrow> block_store \<Rightarrow> votes \<Rightarrow> (u128 \<times> block) outcome" where
  "winner order s votes_a =
     obind (tally order s votes_a) (\<lambda>tally_l. case tally_l of [] \<Rightarrow> Abort | existing # _ \<Rightarrow> Ret existing)"

section \<open>Elections\<close>

text \<open>
  \<^verbatim>\<open>rai::election\<close> of \<^verbatim>\<open>rai/node/node.cpp\<close>.  What it uses of the rest of the node is an argument: the library
  functions, the traversal order of the totals, the configured inactive supply, the random account
  \<^verbatim>\<open>not_an_account\<close>, and the wallets, each a flag telling whether it is unlocked and its keys.  What it hands to
  other threads and to the network is returned as a list of effects, in order; \<open>Confirmed\<close> stands for
  \<^verbatim>\<open>process_confirmed\<close> together with the confirmation action, \<open>Force\<close> for the forced processing of a block.
\<close>

record node_env =
  env_params :: params
  env_sign :: "u256 \<Rightarrow> u256 \<Rightarrow> u256 \<Rightarrow> u512"
  env_order :: "(block \<times> u128) list \<Rightarrow> (block \<times> u128) list"
  env_inactive_supply :: u128
  env_not_an_account :: u256
  env_wallets :: "(bool \<times> (u256 \<times> u256) list) list"

datatype effect = Republish_vote vote | Republish_block block | Force block | Confirmed block

record election =
  el_votes :: votes
  last_vote :: int
  last_winner :: block
  confirmed :: bool

fun unlocked_keys :: "block_store \<Rightarrow> bool \<Rightarrow> (u256 \<times> u256) list \<Rightarrow> (u256 \<times> u256) list outcome" where
  "unlocked_keys s valid_password [] = Ret []"
| "unlocked_keys s valid_password ((pub, prv) # keys) =
     obind (ledger_weight s pub) (\<lambda>weight_l.
     obind (unlocked_keys s valid_password keys) (\<lambda>rest.
     Ret (if weight_l \<noteq> 0 \<and> valid_password then (pub, prv) # rest else rest)))"

fun foreach_representative :: "block_store \<Rightarrow> (bool \<times> (u256 \<times> u256) list) list \<Rightarrow> (u256 \<times> u256) list outcome" where
  "foreach_representative s [] = Ret []"
| "foreach_representative s ((valid_password, keys) # items) =
     obind (unlocked_keys s valid_password keys) (\<lambda>reps.
     obind (foreach_representative s items) (\<lambda>rest. Ret (reps @ rest)))"

fun cast_votes :: "node_env \<Rightarrow> block \<Rightarrow> (u256 \<times> u256) list \<Rightarrow> vote_store \<Rightarrow> votes \<Rightarrow> (vote_store \<times> votes) outcome" where
  "cast_votes E last_winner_a [] vs votes_a = Ret (vs, votes_a)"
| "cast_votes E last_winner_a ((pub_a, prv_a) # reps) vs votes_a =
     obind (vote_generate (env_sign E) (env_params E) vs pub_a prv_a last_winner_a) (\<lambda>(vs', vote_l).
     cast_votes E last_winner_a reps vs' (fst (votes_vote votes_a vote_l)))"

definition compute_rep_votes :: "node_env \<Rightarrow> block_store \<Rightarrow> vote_store \<Rightarrow> election \<Rightarrow> (vote_store \<times> election) outcome" where
  "compute_rep_votes E s vs el =
     obind (foreach_representative s (env_wallets E)) (\<lambda>reps.
     obind (cast_votes E (last_winner el) reps vs (el_votes el)) (\<lambda>(vs', votes_l).
     Ret (vs', el\<lparr>el_votes := votes_l\<rparr>)))"

definition election_make :: "node_env \<Rightarrow> int \<Rightarrow> block_store \<Rightarrow> vote_store \<Rightarrow> block \<Rightarrow> (vote_store \<times> election) outcome" where
  "election_make E now s vs block_a =
     obind (check (block_exists s (hash (env_params E) block_a))) (\<lambda>_.
     compute_rep_votes E s vs
       \<lparr>el_votes = votes_make (env_not_an_account E) block_a, last_vote = now, last_winner = block_a, confirmed = False\<rparr>)"

definition broadcast_winner :: "node_env \<Rightarrow> block_store \<Rightarrow> vote_store \<Rightarrow> election \<Rightarrow> (vote_store \<times> election \<times> effect list) outcome" where
  "broadcast_winner E s vs el =
     obind (compute_rep_votes E s vs el) (\<lambda>(vs', el'). Ret (vs', el', [Republish_block (last_winner el')]))"

definition quorum_threshold :: "node_env \<Rightarrow> block_store \<Rightarrow> u128 outcome" where
  "quorum_threshold E s = obind (ledger_supply (env_params E) s (env_inactive_supply E)) (\<lambda>supply. Ret (supply div 2))"

definition minimum_threshold :: "node_env \<Rightarrow> block_store \<Rightarrow> u128 outcome" where
  "minimum_threshold E s = obind (ledger_supply (env_params E) s (env_inactive_supply E)) (\<lambda>supply. Ret (supply div 16))"

definition confirm_once :: "node_env \<Rightarrow> block_store \<Rightarrow> election \<Rightarrow> (election \<times> effect list) outcome" where
  "confirm_once E s el =
     (if confirmed el then Ret (el, [])
      else
        let el = el\<lparr>confirmed := True\<rparr> in
        obind (tally (env_order E) s (el_votes el)) (\<lambda>tally_l.
        case tally_l of [] \<Rightarrow> Abort
        | (weight_l, block_l) # _ \<Rightarrow>
            if \<not> block_eq block_l (last_winner el) then
              obind (minimum_threshold E s) (\<lambda>minimum.
              if weight_l > minimum
              then Ret (el\<lparr>last_winner := block_l\<rparr>, [Force block_l, Confirmed block_l])
              else Ret (el, [Confirmed (last_winner el)]))
            else Ret (el, [Confirmed (last_winner el)])))"

definition have_quorum :: "node_env \<Rightarrow> block_store \<Rightarrow> election \<Rightarrow> bool outcome" where
  "have_quorum E s el =
     obind (tally (env_order E) s (el_votes el)) (\<lambda>tally_l.
     case tally_l of [] \<Rightarrow> Abort
     | (weight_l, _) # _ \<Rightarrow> obind (quorum_threshold E s) (\<lambda>threshold. Ret (weight_l > threshold)))"

definition confirm_if_quorum :: "node_env \<Rightarrow> block_store \<Rightarrow> election \<Rightarrow> (election \<times> effect list) outcome" where
  "confirm_if_quorum E s el = obind (have_quorum E s el) (\<lambda>quorum. if quorum then confirm_once E s el else Ret (el, []))"

definition confirm_cutoff :: "node_env \<Rightarrow> block_store \<Rightarrow> election \<Rightarrow> (election \<times> effect list) outcome" where
  "confirm_cutoff E s el = confirm_once E s el"

definition Mxrb_ratio :: u128 where
  "Mxrb_ratio = 1000000000000000000000000000000"

definition republish_vote :: "block_store \<Rightarrow> int \<Rightarrow> int \<Rightarrow> vote \<Rightarrow> effect list outcome" where
  "republish_vote s now last_vote_a vote_a =
     (if last_vote_a < now - 1000000000
      then obind (ledger_weight s (vote_account vote_a)) (\<lambda>weight_l.
           Ret (if weight_l > Mxrb_ratio * 256 then [Republish_vote vote_a] else []))
      else Ret [])"

definition election_vote ::
    "node_env \<Rightarrow> int \<Rightarrow> block_store \<Rightarrow> vote_store \<Rightarrow> election \<Rightarrow> vote \<Rightarrow> (vote_store \<times> election \<times> effect list) outcome" where
  "election_vote E now s vs el vote_a =
     obind (republish_vote s now (last_vote el) vote_a) (\<lambda>sent.
     let el = el\<lparr>last_vote := now\<rparr> in
     obind (vote_validate (env_params E) vs vote_a) (\<lambda>(vs', code, _).
     obind (check (code \<noteq> Vote_invalid)) (\<lambda>_.
     let el = el\<lparr>el_votes := fst (votes_vote (el_votes el) vote_a)\<rparr> in
     obind (confirm_if_quorum E s el) (\<lambda>(el', effects). Ret (vs', el', sent @ effects)))))"

section \<open>Weights add up\<close>

definition votes_for :: "(u256 \<Rightarrow> nat) \<Rightarrow> (u256 \<times> block) list \<Rightarrow> block \<Rightarrow> nat" where
  "votes_for weight es b = sum_list (map (\<lambda>(a, c). if c = b then weight a else 0) es)"

lemma weights_bounded:
  assumes g: "good P G s" and d: "distinct as"
  shows "sum_list (map (\<lambda>a. unat (vrep (view_of s) a)) as) < 2 ^ 128"
proof -
  let ?v = "view_of s"
  obtain g where g': "linv P g ?v" using g by (rule goodD)
  have "sum_list (map (\<lambda>a. unat (vrep ?v a)) as) = (\<Sum>a\<in>set as. unat (vrep ?v a))"
    using d by (simp add: sum_list_distinct_conv_sum_set)
  also have "\<dots> = (\<Sum>a\<in>set as. \<Sum>k\<in>dom (vacc ?v). if rep_of ?v (rep_block (the (vacc ?v k))) = a then unat (balance (the (vacc ?v k))) else 0)"
    by (simp add: good_weights [OF g] msum_def)
  also have "\<dots> = (\<Sum>k\<in>dom (vacc ?v). \<Sum>a\<in>set as. if rep_of ?v (rep_block (the (vacc ?v k))) = a then unat (balance (the (vacc ?v k))) else 0)"
    by (rule sum.swap)
  also have "\<dots> \<le> (\<Sum>k\<in>dom (vacc ?v). unat (balance (the (vacc ?v k))))"
    by (rule sum_mono) (simp add: sum.delta')
  also have "\<dots> = msum (\<lambda>i. unat (balance i)) (vacc ?v)" by (simp add: msum_def)
  also have "\<dots> < 2 ^ 128" using linvD(8) [OF g'] by (simp add: supply_inv_def)
  finally show ?thesis .
qed

lemma votes_for_le: "votes_for weight es b \<le> sum_list (map (weight \<circ> fst) es)"
  unfolding votes_for_def by (rule sum_list_mono) (auto split: prod.split)

section \<open>The map of totals\<close>

definition word_total :: "(u256 \<Rightarrow> u128) \<Rightarrow> (u256 \<times> block) list \<Rightarrow> block \<Rightarrow> u128" where
  "word_total weight es b = sum_list (map (\<lambda>(a, c). if c = b then weight a else 0) es)"

lemma unat_word_total:
  assumes "sum_list (map (\<lambda>a. unat (weight a)) (map fst es)) < 2 ^ 128"
  shows "unat (word_total weight es b) = votes_for (\<lambda>a. unat (weight a)) es b"
proof -
  let ?ws = "map (\<lambda>(a, c). if c = b then weight a else 0) es"
  have eq: "sum_list (map unat ?ws) = votes_for (\<lambda>a. unat (weight a)) es b"
    unfolding votes_for_def map_map comp_def by (rule arg_cong [of _ _ sum_list]) (auto intro: map_cong)
  moreover have "\<dots> < 2 ^ 128"
    using votes_for_le [of "\<lambda>a. unat (weight a)" es b] assms by (simp add: comp_def)
  ultimately show ?thesis unfolding word_total_def by (subst unat_sum_list) simp_all
qed

lemma map_of_add_total:
  "map_of (add_total b w ts) = (map_of ts)(b \<mapsto> (case map_of ts b of None \<Rightarrow> w | Some t \<Rightarrow> t + w))"
  by (induction b w ts rule: add_total.induct) (auto simp: fun_eq_iff)

lemma keys_add_total: "fst ` set (add_total b w ts) = insert b (fst ` set ts)"
  by (induction b w ts rule: add_total.induct) auto

lemma distinct_add_total: "distinct (map fst ts) \<Longrightarrow> distinct (map fst (add_total b w ts))"
  by (induction b w ts rule: add_total.induct) (auto simp: keys_add_total)

definition totals_of :: "(u256 \<Rightarrow> u128) \<Rightarrow> (u256 \<times> block) list \<Rightarrow> (block \<times> u128) list \<Rightarrow> (block \<times> u128) list" where
  "totals_of weight es ts = fold (\<lambda>(a, b). add_total b (weight a)) es ts"

lemma distinct_totals_of: "distinct (map fst ts) \<Longrightarrow> distinct (map fst (totals_of weight es ts))"
  unfolding totals_of_def by (induction es arbitrary: ts) (auto simp: distinct_add_total)

lemma word_total_none: "b \<notin> snd ` set es \<Longrightarrow> word_total weight es b = 0"
  by (induction es) (auto simp: word_total_def)

lemma word_total_Cons: "word_total weight ((a, c) # es) b = (if c = b then weight a else 0) + word_total weight es b"
  by (simp add: word_total_def)

lemma map_of_totals_of:
  "map_of (totals_of weight es ts) b =
     (if b \<in> snd ` set es
      then Some ((case map_of ts b of None \<Rightarrow> 0 | Some t \<Rightarrow> t) + word_total weight es b)
      else map_of ts b)"
proof (induction es arbitrary: ts)
  case (Cons e es)
  obtain a c where e: "e = (a, c)" by (cases e)
  have "map_of (totals_of weight (e # es) ts) b = map_of (totals_of weight es (add_total c (weight a) ts)) b"
    by (simp add: totals_of_def e)
  also note Cons.IH
  finally show ?case
    by (cases "b \<in> snd ` set es"; cases "c = b")
      (simp_all add: e map_of_add_total word_total_Cons word_total_none add.assoc split: option.split)
qed (simp add: totals_of_def)

lemma set_totals_of:
  "set (totals_of weight es []) = (\<lambda>b. (b, word_total weight es b)) ` snd ` set es"
proof -
  have d: "distinct (map fst (totals_of weight es []))" by (simp add: distinct_totals_of)
  have "(b, w) \<in> set (totals_of weight es []) \<longleftrightarrow> b \<in> snd ` set es \<and> w = word_total weight es b" for b w
    using map_of_totals_of [of weight es "[]" b] map_of_eq_Some_iff [OF d, of b w]
    by (cases "b \<in> snd ` set es") (auto simp del: image_iff)
  then show ?thesis by auto
qed

lemma tally_totals_eq:
  assumes "good P G s"
  shows "tally_totals s es ts = Ret (totals_of (vrep (view_of s)) es ts)"
proof -
  have "ledger_weight s a = Ret (vrep (view_of s) a)" for a
    using assms by (auto simp: ledger_weight_def get_views elim: goodD)
  then show ?thesis
    by (induction es arbitrary: ts) (auto simp: totals_of_def)
qed

section \<open>The map from totals to blocks\<close>

abbreviation descending :: "(u128 \<times> block) list \<Rightarrow> bool" where
  "descending \<equiv> sorted_wrt (\<lambda>x y. fst y < fst x)"

lemma keys_insert_desc: "fst ` set (insert_desc w b xs) = insert w (fst ` set xs)"
  by (induction w b xs rule: insert_desc.induct) auto

lemma entries_insert_desc: "set (insert_desc w b xs) \<subseteq> insert (w, b) (set xs)"
  by (induction w b xs rule: insert_desc.induct) auto

lemma descending_insert: "descending xs \<Longrightarrow> descending (insert_desc w b xs)"
proof (induction w b xs rule: insert_desc.induct)
  case (2 w b v c xs)
  have "fst y < v" if "w < v" "y \<in> set (insert_desc w b xs)" for y
  proof -
    have "fst y \<in> insert w (fst ` set xs)" using that keys_insert_desc [of w b xs] by blast
    then show ?thesis using that(1) "2.prems" by auto
  qed
  moreover have "fst y < w" if "v < w" "y \<in> set xs" for y
    using that "2.prems" by (auto intro: less_trans)
  ultimately show ?case using 2 by auto
qed simp

definition by_total :: "(block \<times> u128) list \<Rightarrow> (u128 \<times> block) list \<Rightarrow> (u128 \<times> block) list" where
  "by_total ts xs = fold (\<lambda>(b, w). insert_desc w b) ts xs"

lemma by_total_facts:
  "descending xs \<Longrightarrow> descending (by_total ts xs)"
  "fst ` set (by_total ts xs) = snd ` set ts \<union> fst ` set xs"
  "set (by_total ts xs) \<subseteq> prod.swap ` set ts \<union> set xs"
proof (induction ts arbitrary: xs)
  case (Cons t ts)
  obtain b w where t: "t = (b, w)" by (cases t)
  { case 1 then show ?case using Cons.IH(1) by (simp add: by_total_def t descending_insert) }
  { case 2 show ?case using Cons.IH(2) by (simp add: by_total_def t keys_insert_desc) }
  { case 3 show ?case using Cons.IH(3) [of "insert_desc w b xs"] entries_insert_desc [of w b xs]
      by (simp add: by_total_def t) blast }
qed (simp_all add: by_total_def)

section \<open>What the tally says\<close>

definition weight_of :: "block_store \<Rightarrow> u256 \<Rightarrow> nat" where
  "weight_of s a = (case ledger_weight s a of Ret w \<Rightarrow> unat w | _ \<Rightarrow> 0)"

definition support :: "block_store \<Rightarrow> (u256 \<rightharpoonup> block) \<Rightarrow> block \<Rightarrow> nat" where
  "support s latest b = (\<Sum>a | latest a = Some b. weight_of s a)"

definition votes_ok :: "votes \<Rightarrow> bool" where
  "votes_ok vs \<longleftrightarrow> rep_votes vs \<noteq> [] \<and> distinct (map fst (rep_votes vs))"

definition latest_of :: "votes \<Rightarrow> u256 \<rightharpoonup> block" where
  "latest_of vs = map_of (rep_votes vs)"

lemma weight_of_good: "good P G s \<Longrightarrow> weight_of s a = unat (vrep (view_of s) a)"
  by (auto simp: weight_of_def ledger_weight_def get_views elim: goodD)

lemma votes_for_support:
  assumes "distinct (map fst es)"
  shows "votes_for W es b = (\<Sum>a | map_of es a = Some b. W a)"
proof -
  have "votes_for W es b = sum_list (map (\<lambda>a. if map_of es a = Some b then W a else 0) (map fst es))"
    unfolding votes_for_def map_map comp_def using assms
    by (intro arg_cong [of _ _ sum_list] map_cong) (auto simp: map_of_eq_Some_iff dest: eq_key_imp_eq_value)
  also have "\<dots> = (\<Sum>a\<in>set (map fst es). if map_of es a = Some b then W a else 0)"
    using assms by (simp only: sum_list_distinct_conv_sum_set)
  also have "\<dots> = (\<Sum>a\<in>set (map fst es) \<inter> {a. map_of es a = Some b}. W a)"
    by (simp add: sum.inter_restrict)
  also have "set (map fst es) \<inter> {a. map_of es a = Some b} = {a. map_of es a = Some b}"
    by (auto dest: map_of_SomeD intro: rev_image_eqI)
  finally show ?thesis .
qed

lemma tally_eq:
  assumes "good P G s"
  shows "tally order s vs = Ret (by_total (order (totals_of (vrep (view_of s)) (rep_votes vs) [])) [])"
  by (simp add: tally_def tally_totals_eq [OF assms] by_total_def)

lemma total_is_support:
  assumes g: "good P G s" and ok: "votes_ok vs"
  shows "unat (word_total (vrep (view_of s)) (rep_votes vs) b) = support s (latest_of vs) b"
proof -
  have d: "distinct (map fst (rep_votes vs))" using ok by (simp add: votes_ok_def)
  show ?thesis
    using unat_word_total [OF weights_bounded [OF g d], of b]
    by (simp add: votes_for_support [OF d] support_def latest_of_def weight_of_good [OF g])
qed

lemma tally_facts:
  assumes g: "good P G s" and ok: "votes_ok vs" and order: "\<And>ts. mset (order ts) = mset ts"
  obtains t where "tally order s vs = Ret t" "descending t"
    "\<And>w b. (w, b) \<in> set t \<Longrightarrow> unat w = support s (latest_of vs) b \<and> b \<in> ran (latest_of vs)"
    "\<And>c. c \<in> ran (latest_of vs) \<Longrightarrow> support s (latest_of vs) c \<in> unat ` fst ` set t"
proof
  let ?W = "vrep (view_of s)" and ?es = "rep_votes vs"
  let ?t = "by_total (order (totals_of ?W ?es [])) []"
  have d: "distinct (map fst ?es)" using ok by (simp add: votes_ok_def)
  have ran: "ran (latest_of vs) = snd ` set ?es" by (simp add: latest_of_def ran_distinct [OF d])
  have set: "set (order (totals_of ?W ?es [])) = (\<lambda>b. (b, word_total ?W ?es b)) ` snd ` set ?es"
    using mset_eq_setD [OF order] set_totals_of by metis
  show "tally order s vs = Ret ?t" by (rule tally_eq [OF g])
  show "descending ?t" by (rule by_total_facts) simp
  show "unat w = support s (latest_of vs) b \<and> b \<in> ran (latest_of vs)" if "(w, b) \<in> set ?t" for w b
  proof -
    have "(w, b) \<in> prod.swap ` set (order (totals_of ?W ?es []))" using by_total_facts(3) that by fastforce
    then have "b \<in> snd ` set ?es" "w = word_total ?W ?es b" by (auto simp: set)
    then show ?thesis by (simp add: total_is_support [OF g ok] ran)
  qed
  show "support s (latest_of vs) c \<in> unat ` fst ` set ?t" if "c \<in> ran (latest_of vs)" for c
  proof -
    have "word_total ?W ?es c \<in> fst ` set ?t" using that unfolding by_total_facts(2) set ran by force
    then show ?thesis by (auto simp flip: total_is_support [OF g ok])
  qed
qed

lemma support_elsewhere: "c \<notin> ran m \<Longrightarrow> support s m c = 0"
  by (auto simp: support_def ran_def)

lemma tally_first:
  assumes g: "good P G s" and ok: "votes_ok vs" and order: "\<And>ts. mset (order ts) = mset ts"
  obtains w b t where "tally order s vs = Ret ((w, b) # t)" "unat w = support s (latest_of vs) b"
    "b \<in> ran (latest_of vs)" "\<forall>c. support s (latest_of vs) c \<le> unat w"
proof -
  obtain t where t: "tally order s vs = Ret t" "descending t"
    "\<And>w b. (w, b) \<in> set t \<Longrightarrow> unat w = support s (latest_of vs) b \<and> b \<in> ran (latest_of vs)"
    "\<And>c. c \<in> ran (latest_of vs) \<Longrightarrow> support s (latest_of vs) c \<in> unat ` fst ` set t"
    using tally_facts [OF g ok order] by blast
  obtain e es where e: "rep_votes vs = e # es" using ok by (cases "rep_votes vs") (auto simp: votes_ok_def)
  then have "latest_of vs (fst e) = Some (snd e)" by (simp add: latest_of_def)
  then have "t \<noteq> []" using t(4) [OF ranI] by fastforce
  then obtain w b t' where t': "t = (w, b) # t'" by (cases t) auto
  have top: "v \<le> w" if "v \<in> fst ` set t" for v using that t(2) t' by (auto intro: less_imp_le)
  have "support s (latest_of vs) c \<le> unat w" for c
  proof (cases "c \<in> ran (latest_of vs)")
    case True
    then obtain v where "v \<in> fst ` set t" "support s (latest_of vs) c = unat v" using t(4) by blast
    then show ?thesis using top by (simp add: word_le_nat_alt)
  qed (simp add: support_elsewhere)
  with that t(1) t(3) [of w b] t' show ?thesis by auto
qed

section \<open>One vote per representative\<close>

lemma latest_of_votes_make: "latest_of (votes_make na b) = [na \<mapsto> b]"
  by (auto simp: latest_of_def votes_make_def)

lemma votes_ok_make: "votes_ok (votes_make na b)"
  by (simp add: votes_ok_def votes_make_def)

lemma map_fst_update: "map fst (map (\<lambda>(a, b). (a, if a = k then v else b)) es) = map fst es"
  by (induction es) auto

lemma map_of_update:
  "map_of (map (\<lambda>(a, b). (a, if a = k then v else b)) es) x = (if x = k then map_option (\<lambda>_. v) (map_of es k) else map_of es x)"
  by (induction es) auto

lemma map_of_update_value:
  "map_of es k = Some u \<Longrightarrow> map_of (map (\<lambda>(a, b). (a, if a = k then v else b)) es) = (map_of es)(k \<mapsto> v)"
  by (simp add: fun_eq_iff map_of_update)

lemma map_of_snoc: "map_of es k = None \<Longrightarrow> map_of (es @ [(k, v)]) = (map_of es)(k \<mapsto> v)"
  by (auto simp: fun_eq_iff map_add_def split: option.split)

lemma votes_vote_facts:
  assumes "votes_ok vs"
  shows "votes_ok (fst (votes_vote vs v))"
    "latest_of (fst (votes_vote vs v)) = (latest_of vs)(vote_account v \<mapsto> vote_block v)"
    "votes_id (fst (votes_vote vs v)) = votes_id vs"
    "snd (votes_vote vs v) = (case latest_of vs (vote_account v) of None \<Rightarrow> Tally_vote
       | Some b \<Rightarrow> if b = vote_block v then Tally_confirm else Tally_changed)"
proof -
  let ?a = "vote_account v"
  show "votes_ok (fst (votes_vote vs v))"
  proof (cases "map_of (rep_votes vs) ?a")
    case None
    then show ?thesis
      using assms by (simp add: votes_vote_def votes_ok_def) (simp add: map_of_eq_None_iff)
  qed (use assms in \<open>simp add: votes_vote_def votes_ok_def map_fst_update del: map_map\<close>)
  show "latest_of (fst (votes_vote vs v)) = (latest_of vs)(?a \<mapsto> vote_block v)"
    by (cases "map_of (rep_votes vs) ?a")
      (simp_all add: votes_vote_def latest_of_def map_of_snoc map_of_update_value map_upd_triv del: map_of_append)
qed (auto simp: votes_vote_def latest_of_def split: option.split)

section \<open>Confirmation\<close>

lemma cast_votes_ok:
  "cast_votes E b reps vs votes_a = Ret (vs', votes') \<Longrightarrow> votes_ok votes_a \<Longrightarrow>
   votes_ok votes' \<and> votes_id votes' = votes_id votes_a"
  by (induction E b reps vs votes_a rule: cast_votes.induct)
    (auto simp: obind_eq_Ret votes_vote_facts)

lemma compute_rep_votes_keeps:
  assumes "compute_rep_votes E s vs el = Ret (vs', el')" "votes_ok (el_votes el)"
  shows "votes_ok (el_votes el')" "votes_id (el_votes el') = votes_id (el_votes el)"
    "last_winner el' = last_winner el" "confirmed el' = confirmed el"
  using assms by (auto simp: compute_rep_votes_def obind_eq_Ret dest: cast_votes_ok)

definition majority :: "u128 \<Rightarrow> u128 \<Rightarrow> bool" where
  "majority w supply \<longleftrightarrow> supply div 2 < w"

lemma majority_nat: "majority w u \<longleftrightarrow> unat u < 2 * unat w"
  by (simp add: majority_def word_less_nat_alt unat_div) linarith

lemma majority_above_minimum: "majority w u \<Longrightarrow> u div 16 < w"
  by (simp add: majority_def word_less_nat_alt unat_div)

lemma confirm_if_quorum_eq:
  assumes t: "tally (env_order E) s (el_votes el) = Ret ((w, b) # t)"
    and u: "ledger_supply (env_params E) s (env_inactive_supply E) = Ret u"
  shows "confirm_if_quorum E s el =
    Ret (if majority w u \<and> \<not> confirmed el
         then (el\<lparr>last_winner := b, confirmed := True\<rparr>, (if b = last_winner el then [] else [Force b]) @ [Confirmed b])
         else (el, []))"
  using majority_above_minimum [of w u]
  by (auto simp: confirm_if_quorum_def have_quorum_def confirm_once_def quorum_threshold_def minimum_threshold_def t u
      majority_def Let_def)

lemma confirm_cutoff_eq:
  assumes t: "tally (env_order E) s (el_votes el) = Ret ((w, b) # t)"
    and u: "ledger_supply (env_params E) s (env_inactive_supply E) = Ret u"
  shows "confirm_cutoff E s el =
    Ret (if confirmed el then (el, [])
         else if b \<noteq> last_winner el \<and> u div 16 < w
         then (el\<lparr>last_winner := b, confirmed := True\<rparr>, [Force b, Confirmed b])
         else (el\<lparr>confirmed := True\<rparr>, [Confirmed (last_winner el)]))"
  by (auto simp: confirm_cutoff_def confirm_once_def minimum_threshold_def t u Let_def)

definition demo_env :: node_env where
  "demo_env = \<lparr>env_params = demo_params, env_sign = no_sign, env_order = rev, env_inactive_supply = 0,
     env_not_an_account = 1, env_wallets = []\<rparr>"

definition demo_election :: "block \<Rightarrow> election" where
  "demo_election b = \<lparr>el_votes = \<lparr>votes_id = 0, rep_votes = [(1, demo_send), (9, b)]\<rparr>, last_vote = 0,
     last_winner = demo_send, confirmed = False\<rparr>"

lemma demo_view2_values:
  "vrep demo_view2 = (\<lambda>_. 0)(5 := 100, 9 := - 101)"
  "vpnd demo_view2 = Map.empty"
  "dom (vacc demo_view2) = {7, 5}"
  "balance (the (vacc demo_view2 7)) = - 101"
  using demo_hashes
  by (simp_all add: demo_view2_def demo_views demo_open_def accept_open_def transformers rep_of_def fun_eq_iff)

lemma demo_supply:
  assumes "reachable demo_params demo_genesis s" "view_of s = demo_view2"
  shows "ledger_supply demo_params s 0 = Ret (- 101)"
proof -
  obtain u where u: "ledger_supply demo_params s 0 = Ret u"
    "unat u = held_by_others demo_params demo_view2 + pending_elsewhere demo_view2"
    using supply_eq [OF reachable_good [OF assms(1)], of 0] assms(2) by auto
  have "genesis_account demo_params = 5" by (simp add: demo_params_def)
  then have "unat u = unat (- 101 :: u128)"
    using u(2) by (simp add: held_by_others_def pending_elsewhere_def demo_view2_values insert_Diff_if)
  then show ?thesis using u(1) by (metis word_unat_eq_iff)
qed

lemma demo_quorum:
  assumes r: "reachable demo_params demo_genesis s" and v: "view_of s = demo_view2" and b: "b \<noteq> demo_send"
  shows "confirm_if_quorum demo_env s (demo_election b) =
    Ret ((demo_election b)\<lparr>last_winner := b, confirmed := True\<rparr>, [Force b, Confirmed b])"
proof -
  let ?el = "demo_election b"
  have lt: "(0 :: u128) < - 101" by (simp add: word_less_nat_alt)
  have "tally rev s (el_votes ?el) = Ret (by_total (rev (totals_of (vrep demo_view2) [(1, demo_send), (9, b)] [])) [])"
    by (simp only: tally_eq [OF reachable_good [OF r]] v) (simp add: demo_election_def)
  also have "totals_of (vrep demo_view2) [(1, demo_send), (9, b)] [] = [(demo_send, 0), (b, - 101)]"
    using b by (simp add: totals_of_def demo_view2_values)
  also have "by_total (rev [(demo_send, 0), (b, - 101)]) [] = [(- 101, b), (0, demo_send)]"
    using lt by (simp add: by_total_def)
  finally have t: "tally (env_order demo_env) s (el_votes ?el) = Ret [(- 101, b), (0, demo_send)]"
    by (simp add: demo_env_def)
  have u: "ledger_supply (env_params demo_env) s (env_inactive_supply demo_env) = Ret (- 101)"
    using demo_supply [OF r v] by (simp add: demo_env_def)
  have "majority (- 101) (- 101)" by (simp add: majority_nat)
  then show ?thesis
    unfolding confirm_if_quorum_eq [OF t u] using b by (simp add: demo_election_def)
qed

section \<open>Properties\<close>

definition after_votes :: "votes \<Rightarrow> vote list \<Rightarrow> votes" where
  "after_votes = foldl (\<lambda>vs v. fst (votes_vote vs v))"

definition latest_vote :: "u256 \<Rightarrow> block \<Rightarrow> vote list \<Rightarrow> u256 \<rightharpoonup> block" where
  "latest_vote not_an_account b = foldl (\<lambda>m v. m(vote_account v \<mapsto> vote_block v)) [not_an_account \<mapsto> b]"

lemma after_votes_facts:
  assumes "votes_ok vs"
  shows "votes_ok (after_votes vs vl)"
    "latest_of (after_votes vs vl) = foldl (\<lambda>m v. m(vote_account v \<mapsto> vote_block v)) (latest_of vs) vl"
  using assms by (induction vl arbitrary: vs) (simp_all add: after_votes_def votes_vote_facts)

text \<open>
  C18: After any sequence of votes the winner of a fork is a block that some representative voted for last and no
  block has a larger total: the total of a block is the sum of the weights of the representatives whose latest
  vote names it, each counted once, and it never wraps around, whatever the traversal order of the totals is.
\<close>

theorem winner_has_most_weight:
  assumes r: "reachable P G s" and order: "\<And>ts. mset (order ts) = mset ts"
  shows "\<exists>w b. winner order s (after_votes (votes_make not_an_account b0) vl) = Ret (w, b) \<and>
    (\<exists>a. latest_vote not_an_account b0 vl a = Some b) \<and>
    unat w = support s (latest_vote not_an_account b0 vl) b \<and>
    (\<forall>c. support s (latest_vote not_an_account b0 vl) c \<le> unat w)"
proof -
  let ?vs = "after_votes (votes_make not_an_account b0) vl"
  have ok: "votes_ok ?vs" and l: "latest_of ?vs = latest_vote not_an_account b0 vl"
    using after_votes_facts [OF votes_ok_make] by (simp_all add: latest_vote_def latest_of_votes_make)
  obtain w b t where t: "tally order s ?vs = Ret ((w, b) # t)" "unat w = support s (latest_of ?vs) b"
    "b \<in> ran (latest_of ?vs)" "\<forall>c. support s (latest_of ?vs) c \<le> unat w"
    by (rule tally_first [OF reachable_good [OF r] ok order])
  then have "winner order s ?vs = Ret (w, b)" by (simp add: winner_def)
  with t show ?thesis unfolding l ran_def by blast
qed

theorem winner_has_most_weight_witness:
  "\<exists>s. reachable demo_params demo_genesis s \<and> view_of s = demo_view2 \<and>
    (\<exists>w b. winner rev s (after_votes (votes_make 1 demo_send) [plain_vote 2]) = Ret (w, b) \<and>
      (\<exists>a. latest_vote 1 demo_send [plain_vote 2] a = Some b) \<and>
      unat w = support s (latest_vote 1 demo_send [plain_vote 2]) b \<and>
      (\<forall>c. support s (latest_vote 1 demo_send [plain_vote 2]) c \<le> unat w))"
proof -
  obtain s where s: "reachable demo_params demo_genesis s" "view_of s = demo_view2" using demo_run by blast
  from s winner_has_most_weight [OF s(1), of rev 1 demo_send "[plain_vote 2]"] show ?thesis by auto
qed

text \<open>
  A vote confirms the block with the largest total exactly when that total exceeds half of the supply and
  nothing was confirmed before; the block then becomes the winner and is handed to the block processor if it was
  not the winner already, and otherwise nothing happens.
\<close>

theorem confirmation_needs_quorum:
  assumes r: "reachable (env_params E) G s" and order: "\<And>ts. mset (env_order E ts) = mset ts" and ok: "votes_ok (el_votes el)"
  shows "\<exists>u b. ledger_supply (env_params E) s (env_inactive_supply E) = Ret u \<and>
    (\<forall>c. support s (latest_of (el_votes el)) c \<le> support s (latest_of (el_votes el)) b) \<and>
    confirm_if_quorum E s el =
      Ret (if unat u < 2 * support s (latest_of (el_votes el)) b \<and> \<not> confirmed el
           then (el\<lparr>last_winner := b, confirmed := True\<rparr>, (if b = last_winner el then [] else [Force b]) @ [Confirmed b])
           else (el, []))"
proof -
  have g: "good (env_params E) G s" using r by (rule reachable_good)
  obtain u where u: "ledger_supply (env_params E) s (env_inactive_supply E) = Ret u" using supply_eq [OF g] by blast
  obtain w b t where t: "tally (env_order E) s (el_votes el) = Ret ((w, b) # t)"
    "unat w = support s (latest_of (el_votes el)) b" "b \<in> ran (latest_of (el_votes el))"
    "\<forall>c. support s (latest_of (el_votes el)) c \<le> unat w"
    by (rule tally_first [OF g ok order])
  show ?thesis
  proof (intro exI [of _ u] exI [of _ b] conjI allI)
    show "confirm_if_quorum E s el =
      Ret (if unat u < 2 * support s (latest_of (el_votes el)) b \<and> \<not> confirmed el
           then (el\<lparr>last_winner := b, confirmed := True\<rparr>, (if b = last_winner el then [] else [Force b]) @ [Confirmed b])
           else (el, []))"
      unfolding confirm_if_quorum_eq [OF t(1) u] majority_nat t(2) ..
  qed (use t(2,4) in \<open>simp_all add: u\<close>)
qed

theorem confirmation_needs_quorum_witness:
  "\<exists>s. reachable demo_params demo_genesis s \<and>
    (\<exists>u b. ledger_supply demo_params s 0 = Ret u \<and>
      (\<forall>c. support s (latest_of (el_votes (demo_election demo_open))) c \<le> support s (latest_of (el_votes (demo_election demo_open))) b) \<and>
      confirm_if_quorum demo_env s (demo_election demo_open) =
        Ret (if unat u < 2 * support s (latest_of (el_votes (demo_election demo_open))) b \<and> \<not> confirmed (demo_election demo_open)
             then ((demo_election demo_open)\<lparr>last_winner := b, confirmed := True\<rparr>, (if b = demo_send then [] else [Force b]) @ [Confirmed b])
             else (demo_election demo_open, [])))"
proof -
  obtain s where s: "reachable demo_params demo_genesis s" using demo_run by blast
  have E: "reachable (env_params demo_env) demo_genesis s" "mset (env_order demo_env ts) = mset ts" for ts
    using s by (simp_all add: demo_env_def)
  have ok: "votes_ok (el_votes (demo_election demo_open))" by (simp add: demo_election_def votes_ok_def)
  have el: "last_winner (demo_election demo_open) = demo_send"
    "env_params demo_env = demo_params" "env_inactive_supply demo_env = 0"
    by (simp_all add: demo_election_def demo_env_def)
  from s confirmation_needs_quorum [OF E ok] show ?thesis unfolding el by (intro exI [of _ s] conjI)
qed

lemma disjoint_majorities:
  fixes W :: "'a \<Rightarrow> nat"
  assumes fin: "finite V" and sub: "A \<subseteq> V" "B \<subseteq> V" and total: "sum W V \<le> u"
    and maj: "u < 2 * sum W A" "u < 2 * sum W B"
  shows "\<exists>a\<in>A \<inter> B. 0 < W a"
proof (rule ccontr)
  assume "\<not> ?thesis"
  then have zero: "sum W (A \<inter> B) = 0" by simp
  have "finite A" "finite B" using fin sub finite_subset by blast+
  then have "sum W A + sum W B = sum W (A \<union> B) + sum W (A \<inter> B)" by (rule sum.union_inter [symmetric])
  moreover have "sum W (A \<union> B) \<le> sum W V" using fin sub by (intro sum_mono2) auto
  ultimately show False using zero total maj by linarith
qed

lemma dom_latest_of: "finite (dom (latest_of vs))" and voters_for: "{a. latest_of vs a = Some b} \<subseteq> dom (latest_of vs)"
  by (auto simp: latest_of_def finite_dom_map_of)

lemma quorum_support:
  assumes r: "reachable (env_params E) G s" and order: "\<And>ts. mset (env_order E ts) = mset ts" and ok: "votes_ok (el_votes el)"
    and u: "ledger_supply (env_params E) s (env_inactive_supply E) = Ret u"
    and c: "confirm_if_quorum E s el = Ret (el', effects)" "Confirmed b \<in> set effects"
  shows "unat u < 2 * support s (latest_of (el_votes el)) b"
proof -
  obtain w b' t where t: "tally (env_order E) s (el_votes el) = Ret ((w, b') # t)"
    "unat w = support s (latest_of (el_votes el)) b'" "b' \<in> ran (latest_of (el_votes el))"
    "\<forall>c. support s (latest_of (el_votes el)) c \<le> unat w"
    by (rule tally_first [OF reachable_good [OF r] ok order])
  have "majority w u \<and> b = b'" using confirm_if_quorum_eq [OF t(1) u] c by (auto split: if_splits)
  then show ?thesis using t(2) by (simp add: majority_nat)
qed

text \<open>
  C15: Quorums intersect: when two elections over the same ledger, at the same or at different nodes, confirm a
  block by quorum, then a representative with positive weight voted for both confirmed blocks, as long as the
  representatives that voted do not together hold more than the supply.  Without a representative that votes
  differently in the two elections they confirm the same block.
\<close>

theorem quorums_agree:
  assumes r: "reachable P G s" and P: "env_params E1 = P" "env_params E2 = P"
    and order: "\<And>ts. mset (env_order E1 ts) = mset ts" "\<And>ts. mset (env_order E2 ts) = mset ts"
    and ok: "votes_ok (el_votes el1)" "votes_ok (el_votes el2)"
    and u: "ledger_supply P s (env_inactive_supply E1) = Ret u" "ledger_supply P s (env_inactive_supply E2) = Ret u"
    and held: "(\<Sum>a\<in>dom (latest_of (el_votes el1)) \<union> dom (latest_of (el_votes el2)). weight_of s a) \<le> unat u"
    and c1: "confirm_if_quorum E1 s el1 = Ret (el1', effects1)" "Confirmed b1 \<in> set effects1"
    and c2: "confirm_if_quorum E2 s el2 = Ret (el2', effects2)" "Confirmed b2 \<in> set effects2"
  shows "\<exists>a. 0 < weight_of s a \<and> latest_of (el_votes el1) a = Some b1 \<and> latest_of (el_votes el2) a = Some b2"
proof -
  let ?l1 = "latest_of (el_votes el1)" and ?l2 = "latest_of (el_votes el2)"
  have r': "reachable (env_params E1) G s" "reachable (env_params E2) G s" using r P by simp_all
  have m1: "unat u < 2 * support s ?l1 b1"
    by (rule quorum_support [OF r'(1) order(1) ok(1) _ c1]) (simp add: P u)
  have m2: "unat u < 2 * support s ?l2 b2"
    by (rule quorum_support [OF r'(2) order(2) ok(2) _ c2]) (simp add: P u)
  have "\<exists>a\<in>{a. ?l1 a = Some b1} \<inter> {a. ?l2 a = Some b2}. 0 < weight_of s a"
  proof (rule disjoint_majorities [OF _ _ _ held])
    show "finite (dom ?l1 \<union> dom ?l2)" by (simp add: dom_latest_of)
  qed (use voters_for m1 m2 in \<open>simp_all add: support_def le_supI1 le_supI2\<close>)
  then show ?thesis by blast
qed

theorem quorums_agree_witness:
  "\<exists>s. reachable demo_params demo_genesis s \<and>
    confirm_if_quorum demo_env s (demo_election demo_open) =
      Ret ((demo_election demo_open)\<lparr>last_winner := demo_open, confirmed := True\<rparr>, [Force demo_open, Confirmed demo_open]) \<and>
    confirm_if_quorum demo_env s (demo_election demo_change) =
      Ret ((demo_election demo_change)\<lparr>last_winner := demo_change, confirmed := True\<rparr>, [Force demo_change, Confirmed demo_change]) \<and>
    (\<exists>a. 0 < weight_of s a \<and> latest_of (el_votes (demo_election demo_open)) a = Some demo_open \<and>
      latest_of (el_votes (demo_election demo_change)) a = Some demo_change)"
proof -
  obtain s where s: "reachable demo_params demo_genesis s" "view_of s = demo_view2" using demo_run by blast
  have q: "confirm_if_quorum demo_env s (demo_election b) =
      Ret ((demo_election b)\<lparr>last_winner := b, confirmed := True\<rparr>, [Force b, Confirmed b])"
    if "b = demo_open \<or> b = demo_change" for b
    using that by (intro demo_quorum [OF s]) (auto simp: demo_open_def demo_change_def demo_send_def)
  have E: "env_params demo_env = demo_params" "mset (env_order demo_env ts) = mset ts" "env_inactive_supply demo_env = 0" for ts
    by (simp_all add: demo_env_def)
  have w: "weight_of s a = unat (vrep demo_view2 a)" for a
    using weight_of_good [OF reachable_good [OF s(1)]] s(2) by simp
  have held: "(\<Sum>a\<in>dom (latest_of (el_votes (demo_election b1))) \<union> dom (latest_of (el_votes (demo_election b2))). weight_of s a)
      \<le> unat (- 101 :: u128)" for b1 b2
    by (simp add: w demo_view2_values demo_election_def latest_of_def)
  have ok: "votes_ok (el_votes (demo_election b))" for b by (simp add: demo_election_def votes_ok_def)
  have u: "ledger_supply demo_params s (env_inactive_supply demo_env) = Ret (- 101)"
    using demo_supply [OF s] by (simp add: E)
  from quorums_agree [OF s(1) E(1) E(1) E(2) E(2) ok ok u u held q [of demo_open] _ q [of demo_change], of demo_open demo_change]
    s(1) q show ?thesis by auto
qed

end
