(* ===== verification/Active.thy ===== *)
theory Active
  imports Elections
begin

text \<open>
  \<^verbatim>\<open>rai::active_transactions\<close> of \<^verbatim>\<open>rai/node/node.cpp\<close>: the elections that are running, by the root of their fork, and
  the periodic announcement that closes them.

  Elections are shared objects: the container of roots holds pointers to them, and so do the functions handed to
  other threads, which may run after the root has been erased.  The elections therefore live in a heap, a list
  indexed by addresses.  What a step hands to other threads is its list of events, in order.
\<close>

section \<open>State\<close>

record conflict_info =
  ci_root :: u256
  ci_election :: nat
  announcements :: nat

record node_state =
  ns_ledger :: block_store
  ns_votes :: vote_store
  ns_roots :: "conflict_info list"
  ns_heap :: "election list"

datatype event = Effect nat effect | Broadcast nat | Bootstrap

definition announcements_per_interval :: nat where "announcements_per_interval = 32"

definition contigious_announcements :: nat where "contigious_announcements = 4"

section \<open>Operations\<close>

definition find_root :: "u256 \<Rightarrow> conflict_info list \<Rightarrow> conflict_info option" where
  "find_root r cs = List.find (\<lambda>c. ci_root c = r) cs"

fun insert_root :: "conflict_info \<Rightarrow> conflict_info list \<Rightarrow> conflict_info list" where
  "insert_root c [] = [c]"
| "insert_root c (d # cs) = (if ci_root c < ci_root d then c # d # cs else d # insert_root c cs)"

definition start :: "node_env \<Rightarrow> int \<Rightarrow> node_state \<Rightarrow> block \<Rightarrow> (node_state \<times> bool) outcome" where
  "start E now st block_a =
     (case find_root (root block_a) (ns_roots st) of
        Some _ \<Rightarrow> Ret (st, True)
      | None \<Rightarrow>
          obind (election_make E now (ns_ledger st) (ns_votes st) block_a) (\<lambda>(vs, el).
          Ret (st\<lparr>ns_votes := vs, ns_heap := ns_heap st @ [el],
                  ns_roots := insert_root \<lparr>ci_root = root block_a, ci_election = length (ns_heap st), announcements = 0\<rparr> (ns_roots st)\<rparr>,
               False)))"

text \<open>
  \<^verbatim>\<open>vote\<close> looks for the election under the mutex and votes after the mutex is released, so that the election may have
  been erased in between.
\<close>

definition find_election :: "node_state \<Rightarrow> vote \<Rightarrow> nat option" where
  "find_election st vote_a = map_option ci_election (find_root (root (vote_block vote_a)) (ns_roots st))"

definition vote_election :: "node_env \<Rightarrow> int \<Rightarrow> node_state \<Rightarrow> nat \<Rightarrow> vote \<Rightarrow> (node_state \<times> event list) outcome" where
  "vote_election E now st a vote_a =
     obind (election_vote E now (ns_ledger st) (ns_votes st) (ns_heap st ! a) vote_a) (\<lambda>(vs, el, effects).
     Ret (st\<lparr>ns_votes := vs, ns_heap := (ns_heap st)[a := el]\<rparr>, map (Effect a) effects))"

definition active_vote :: "node_env \<Rightarrow> int \<Rightarrow> node_state \<Rightarrow> vote \<Rightarrow> (node_state \<times> event list) outcome" where
  "active_vote E now st vote_a =
     (case find_election st vote_a of
        None \<Rightarrow> Ret (st, [])
      | Some a \<Rightarrow> vote_election E now st a vote_a)"

definition active :: "node_state \<Rightarrow> block \<Rightarrow> bool" where
  "active st block_a \<longleftrightarrow> find_root (root block_a) (ns_roots st) \<noteq> None"

definition active_stop :: "node_state \<Rightarrow> node_state" where
  "active_stop st = st\<lparr>ns_roots := []\<rparr>"

text \<open>
  The two loops over the roots.  The counter of the first loop is the argument \<open>announced\<close>: the body declares another
  variable of the same name and never changes it.  The result is the heap, the roots with their new counts, the
  roots to be erased and the events.
\<close>

fun announce_loop ::
    "node_env \<Rightarrow> block_store \<Rightarrow> nat \<Rightarrow> election list \<Rightarrow> conflict_info list \<Rightarrow>
     (election list \<times> conflict_info list \<times> u256 list \<times> event list) outcome" where
  "announce_loop E s announced heap [] = Ret (heap, [], [], [])"
| "announce_loop E s announced heap (i # is) =
     (if announced < announcements_per_interval then
        if announcements i \<ge> contigious_announcements - 1 then
          obind (confirm_cutoff E s (heap ! ci_election i)) (\<lambda>(el, effects).
          obind (announce_loop E s announced (heap[ci_election i := el]) is) (\<lambda>(heap', is', inactive, events).
          Ret (heap', i # is', votes_id (el_votes el) # inactive,
               Broadcast (ci_election i) # map (Effect (ci_election i)) effects @ events)))
        else
          let i' = i\<lparr>announcements := announcements i + 1\<rparr> in
          obind (announce_loop E s announced heap is) (\<lambda>(heap', is', inactive, events).
          Ret (heap', i' # is', inactive,
               Broadcast (ci_election i) #
               (if announcements i' > 1 \<and> length (rep_votes (el_votes (heap ! ci_election i))) \<le> 1 then [Bootstrap] else []) @ events))
      else Ret (heap, map (\<lambda>i. i\<lparr>announcements := 0\<rparr>) (i # is), [], []))"

fun erase_roots :: "u256 list \<Rightarrow> conflict_info list \<Rightarrow> conflict_info list outcome" where
  "erase_roots [] cs = Ret cs"
| "erase_roots (r # rs) cs =
     obind (check (find_root r cs \<noteq> None)) (\<lambda>_. erase_roots rs (filter (\<lambda>c. ci_root c \<noteq> r) cs))"

definition announce_votes :: "node_env \<Rightarrow> node_state \<Rightarrow> (node_state \<times> event list) outcome" where
  "announce_votes E st =
     obind (announce_loop E (ns_ledger st) 0 (ns_heap st) (ns_roots st)) (\<lambda>(heap, is, inactive, events).
     obind (erase_roots inactive is) (\<lambda>is'.
     Ret (st\<lparr>ns_heap := heap, ns_roots := is'\<rparr>, events)))"

definition run_broadcast :: "node_env \<Rightarrow> node_state \<Rightarrow> nat \<Rightarrow> (node_state \<times> event list) outcome" where
  "run_broadcast E st a =
     obind (broadcast_winner E (ns_ledger st) (ns_votes st) (ns_heap st ! a)) (\<lambda>(vs, el, effects).
     Ret (st\<lparr>ns_votes := vs, ns_heap := (ns_heap st)[a := el]\<rparr>, map (Effect a) effects))"

section \<open>Steps\<close>

text \<open>
  The node interleaves these operations with changes of the ledger and of the vote tables made elsewhere: the block
  processor moves the ledger to any other reachable one.  A vote reaches the election of its root that was found
  earlier, whether that is still among the roots or not.  A step carries a label and its events.
\<close>

datatype label = Announce | Stop | Other

inductive node_step :: "node_env \<Rightarrow> block \<Rightarrow> node_state \<Rightarrow> label \<Rightarrow> event list \<Rightarrow> node_state \<Rightarrow> bool" for E G where
  Step_start: "start E now st b = Ret (st', existing) \<Longrightarrow> node_step E G st Other [] st'"
| Step_vote: "a < length (ns_heap st) \<Longrightarrow> votes_id (el_votes (ns_heap st ! a)) = root (vote_block v) \<Longrightarrow>
    vote_election E now st a v = Ret (st', events) \<Longrightarrow> node_step E G st Other events st'"
| Step_announce: "announce_votes E st = Ret (st', events) \<Longrightarrow> node_step E G st Announce events st'"
| Step_broadcast: "a < length (ns_heap st) \<Longrightarrow> run_broadcast E st a = Ret (st', events) \<Longrightarrow> node_step E G st Other events st'"
| Step_stop: "node_step E G st Stop [] (active_stop st)"
| Step_ledger: "reachable (env_params E) G s \<Longrightarrow> node_step E G st Other [] (st\<lparr>ns_ledger := s\<rparr>)"
| Step_tables: "node_step E G st Other [] (st\<lparr>ns_votes := vs\<rparr>)"

inductive node_run :: "node_env \<Rightarrow> block \<Rightarrow> node_state \<Rightarrow> label list \<Rightarrow> event list \<Rightarrow> node_state \<Rightarrow> bool" for E G where
  Run_none: "node_run E G st [] [] st"
| Run_step: "node_run E G st ls events st' \<Longrightarrow> node_step E G st' l events' st'' \<Longrightarrow>
    node_run E G st (ls @ [l]) (events @ events') st''"

lemma run_append:
  assumes "node_run E G st ls events st'" "node_run E G st' ls' events' st''"
  shows "node_run E G st (ls @ ls') (events @ events') st''"
  using assms(2,1)
proof induction
  case (Run_step st' ls' events' t l more_events u)
  then have "node_run E G st (ls @ ls') (events @ events') t" by simp
  from node_run.Run_step [OF this Run_step.hyps(2)] show ?case by simp
qed simp

definition node_init :: "node_env \<Rightarrow> block \<Rightarrow> node_state \<Rightarrow> bool" where
  "node_init E G st \<longleftrightarrow> reachable (env_params E) G (ns_ledger st) \<and> ns_roots st = [] \<and> ns_heap st = []"

section \<open>Invariant\<close>

definition info_ok :: "election list \<Rightarrow> conflict_info \<Rightarrow> bool" where
  "info_ok heap c \<longleftrightarrow> ci_election c < length heap \<and> announcements c < contigious_announcements \<and>
     votes_id (el_votes (heap ! ci_election c)) = ci_root c"

definition active_ok :: "node_env \<Rightarrow> block \<Rightarrow> node_state \<Rightarrow> bool" where
  "active_ok E G st \<longleftrightarrow> reachable (env_params E) G (ns_ledger st) \<and>
     sorted_wrt (<) (map ci_root (ns_roots st)) \<and> distinct (map ci_election (ns_roots st)) \<and>
     (\<forall>c\<in>set (ns_roots st). info_ok (ns_heap st) c) \<and> (\<forall>el\<in>set (ns_heap st). votes_ok (el_votes el))"

text \<open>What no operation changes in an election other than its votes and, once, its verdict.\<close>

definition evolves :: "election \<Rightarrow> election \<Rightarrow> bool" where
  "evolves el el' \<longleftrightarrow> votes_id (el_votes el') = votes_id (el_votes el) \<and> (votes_ok (el_votes el) \<longrightarrow> votes_ok (el_votes el')) \<and>
     (confirmed el \<longrightarrow> confirmed el' \<and> last_winner el' = last_winner el)"

definition confirmations :: "effect list \<Rightarrow> nat" where
  "confirmations effects = length (filter (\<lambda>e. case e of Confirmed _ \<Rightarrow> True | _ \<Rightarrow> False) effects)"

lemma confirmations_simps [simp]:
  "confirmations [] = 0"
  "confirmations (e # es) = (case e of Confirmed _ \<Rightarrow> 1 | _ \<Rightarrow> 0) + confirmations es"
  "confirmations (es @ fs) = confirmations es + confirmations fs"
  by (simp_all add: confirmations_def split: effect.split)

lemma confirm_once_facts:
  assumes "confirm_once E s el = Ret (el', effects)"
  shows "el_votes el' = el_votes el" "confirmed el'" "confirmations effects = of_bool (\<not> confirmed el)"
    "confirmed el \<Longrightarrow> el' = el" "\<And>w. Confirmed w \<in> set effects \<Longrightarrow> last_winner el' = w"
proof -
  have "el_votes el' = el_votes el \<and> confirmed el' \<and> confirmations effects = of_bool (\<not> confirmed el) \<and>
    (confirmed el \<longrightarrow> el' = el) \<and> (\<forall>w. Confirmed w \<in> set effects \<longrightarrow> last_winner el' = w)"
  proof (cases "confirmed el")
    case False
    then obtain t where t: "tally (env_order E) s (el_votes el) = Ret t"
      using assms by (auto simp: confirm_once_def Let_def obind_eq_Ret)
    show ?thesis
    proof (cases t)
      case (Cons p t')
      then show ?thesis using assms False t
        by (cases p) (auto simp: confirm_once_def Let_def obind_eq_Ret split: if_splits)
    qed (use assms False t in \<open>simp add: confirm_once_def Let_def\<close>)
  qed (use assms in \<open>simp add: confirm_once_def\<close>)
  then show "el_votes el' = el_votes el" "confirmed el'" "confirmations effects = of_bool (\<not> confirmed el)"
    "confirmed el \<Longrightarrow> el' = el" "\<And>w. Confirmed w \<in> set effects \<Longrightarrow> last_winner el' = w" by simp_all
qed

lemma confirm_if_quorum_facts:
  assumes "confirm_if_quorum E s el = Ret (el', effects)"
  shows "el_votes el' = el_votes el" "confirmed el \<Longrightarrow> el' = el"
    "confirmations effects = of_bool (confirmed el' \<and> \<not> confirmed el)"
    "\<And>w. Confirmed w \<in> set effects \<Longrightarrow> confirmed el' \<and> last_winner el' = w"
  using assms confirm_once_facts [of E s el el' effects]
  by (auto simp: confirm_if_quorum_def obind_eq_Ret split: if_splits)

definition confirmed_at :: "nat \<Rightarrow> event list \<Rightarrow> nat" where
  "confirmed_at a events = length (filter (\<lambda>e. case e of Effect b (Confirmed _) \<Rightarrow> b = a | _ \<Rightarrow> False) events)"

lemma confirmed_at_simps [simp]:
  "confirmed_at a [] = 0"
  "confirmed_at a (Broadcast b # es) = confirmed_at a es"
  "confirmed_at a (Bootstrap # es) = confirmed_at a es"
  "confirmed_at a (es @ fs) = confirmed_at a es + confirmed_at a fs"
  by (simp_all add: confirmed_at_def)

lemma confirmed_at_effects [simp]:
  "confirmed_at a (map (Effect b) effects) = (if a = b then confirmations effects else 0)"
  by (induction effects) (auto simp: confirmed_at_def split: effect.splits)

definition is_confirmed :: "election list \<Rightarrow> nat \<Rightarrow> bool" where
  "is_confirmed heap a \<longleftrightarrow> a < length heap \<and> confirmed (heap ! a)"

definition heap_rel :: "election list \<Rightarrow> event list \<Rightarrow> election list \<Rightarrow> bool" where
  "heap_rel heap events heap' \<longleftrightarrow> length heap \<le> length heap' \<and>
     (\<forall>a<length heap. evolves (heap ! a) (heap' ! a)) \<and>
     (\<forall>a. confirmed_at a events = of_bool (is_confirmed heap' a \<and> \<not> is_confirmed heap a)) \<and>
     (\<forall>a b. Effect a (Confirmed b) \<in> set events \<longrightarrow> is_confirmed heap' a \<and> last_winner (heap' ! a) = b)"

lemma evolves_refl [simp]: "evolves el el"
  by (simp add: evolves_def)

lemma evolves_trans: "evolves el el' \<Longrightarrow> evolves el' el'' \<Longrightarrow> evolves el el''"
  by (auto simp: evolves_def)

lemma heap_rel_confirmed: "heap_rel heap events heap' \<Longrightarrow> is_confirmed heap a \<Longrightarrow> is_confirmed heap' a"
  by (auto simp: heap_rel_def is_confirmed_def evolves_def)

lemma heap_rel_trans:
  assumes "heap_rel heap events heap'" "heap_rel heap' events' heap''"
  shows "heap_rel heap (events @ events') heap''"
  unfolding heap_rel_def
proof (intro conjI allI impI)
  show "confirmed_at a (events @ events') = of_bool (is_confirmed heap'' a \<and> \<not> is_confirmed heap a)" for a
    using assms heap_rel_confirmed [OF assms(1), of a] heap_rel_confirmed [OF assms(2), of a] by (auto simp: heap_rel_def)
  fix a b assume e: "Effect a (Confirmed b) \<in> set (events @ events')"
  have "is_confirmed heap'' a \<and> last_winner (heap'' ! a) = b" if "Effect a (Confirmed b) \<in> set events"
  proof -
    have "is_confirmed heap' a" "last_winner (heap' ! a) = b" using that assms(1) by (simp_all add: heap_rel_def)
    then show ?thesis
      using heap_rel_confirmed [OF assms(2)] assms(2) by (simp add: heap_rel_def evolves_def is_confirmed_def)
  qed
  then show "is_confirmed heap'' a" "last_winner (heap'' ! a) = b" using e assms(2) by (auto simp: heap_rel_def)
qed (use assms in \<open>auto simp: heap_rel_def intro: evolves_trans\<close>)

lemma heap_rel_refl [simp]: "heap_rel heap [] heap"
  by (simp add: heap_rel_def)

lemma heap_rel_quiet: "heap_rel heap (Broadcast a # events) heap' \<longleftrightarrow> heap_rel heap events heap'"
  "heap_rel heap (Bootstrap # events) heap' \<longleftrightarrow> heap_rel heap events heap'"
  by (simp_all add: heap_rel_def)

lemma heap_rel_update:
  assumes "b < length heap" "evolves (heap ! b) el" "confirmations effects = of_bool (confirmed el \<and> \<not> confirmed (heap ! b))"
    and "\<And>w. Confirmed w \<in> set effects \<Longrightarrow> confirmed el \<and> last_winner el = w"
  shows "heap_rel heap (map (Effect b) effects) (heap[b := el])"
  using assms by (auto simp: heap_rel_def is_confirmed_def nth_list_update)

lemma heap_rel_new: "\<not> confirmed el \<Longrightarrow> heap_rel heap [] (heap @ [el])"
  by (auto simp: heap_rel_def is_confirmed_def nth_append)

lemma confirm_cutoff_evolves:
  assumes "confirm_cutoff E s el = Ret (el', effects)"
  shows "evolves el el'" "confirmations effects = of_bool (confirmed el' \<and> \<not> confirmed el)" "confirmed el'"
    "\<And>w. Confirmed w \<in> set effects \<Longrightarrow> confirmed el' \<and> last_winner el' = w"
  using confirm_once_facts [OF assms [unfolded confirm_cutoff_def]] by (auto simp: evolves_def)

lemma election_vote_evolves:
  assumes "election_vote E now s vs el v = Ret (vs', el', effects)" "votes_ok (el_votes el)"
  shows "evolves el el'" "confirmations effects = of_bool (confirmed el' \<and> \<not> confirmed el)"
    "\<And>w. Confirmed w \<in> set effects \<Longrightarrow> confirmed el' \<and> last_winner el' = w"
proof -
  let ?el = "el\<lparr>last_vote := now, el_votes := fst (votes_vote (el_votes el) v)\<rparr>"
  obtain sent effs where q: "confirm_if_quorum E s ?el = Ret (el', effs)" "effects = sent @ effs" "confirmations sent = 0"
      "\<And>w. Confirmed w \<notin> set sent"
    using assms(1) by (auto simp: election_vote_def obind_eq_Ret Let_def republish_vote_def split: if_splits)
  from confirm_if_quorum_facts [OF q(1)] q(2-4) votes_vote_facts [OF assms(2), of v]
  show "evolves el el'" "confirmations effects = of_bool (confirmed el' \<and> \<not> confirmed el)"
    "\<And>w. Confirmed w \<in> set effects \<Longrightarrow> confirmed el' \<and> last_winner el' = w"
    by (auto simp: evolves_def)
qed

lemma broadcast_evolves:
  assumes "broadcast_winner E s vs el = Ret (vs', el', effects)" "votes_ok (el_votes el)"
  shows "evolves el el'" "confirmations effects = of_bool (confirmed el' \<and> \<not> confirmed el)"
    "\<And>w. Confirmed w \<in> set effects \<Longrightarrow> confirmed el' \<and> last_winner el' = w"
  using assms(1) compute_rep_votes_keeps [OF _ assms(2)]
  by (auto simp: broadcast_winner_def obind_eq_Ret evolves_def)

lemma announce_loop_heap:
  assumes "announce_loop E s n heap is = Ret (heap', is', inactive, events)" "\<forall>i\<in>set is. ci_election i < length heap"
  shows "heap_rel heap events heap' \<and> length heap' = length heap"
  using assms
proof (induction E s n heap "is" arbitrary: heap' is' inactive events rule: announce_loop.induct)
  case (2 E s n heap i "is")
  show ?case
  proof (cases "n < announcements_per_interval")
    case n: True
    show ?thesis
    proof (cases "announcements i \<ge> contigious_announcements - 1")
      case True
      then obtain el effs is2 inactive2 events2 where c: "confirm_cutoff E s (heap ! ci_election i) = Ret (el, effs)"
        and l: "announce_loop E s n (heap[ci_election i := el]) is = Ret (heap', is2, inactive2, events2)"
        and e: "events = Broadcast (ci_election i) # map (Effect (ci_election i)) effs @ events2"
        using "2.prems" n by (auto simp: obind_eq_Ret)
      have "heap_rel (heap[ci_election i := el]) events2 heap' \<and> length heap' = length heap"
        using "2.IH"(1) [OF n True _ refl l, of effs] "2.prems"(2) c by simp
      moreover have "heap_rel heap (map (Effect (ci_election i)) effs) (heap[ci_election i := el])"
        using confirm_cutoff_evolves [OF c] "2.prems"(2) by (intro heap_rel_update) auto
      ultimately show ?thesis using heap_rel_trans by (auto simp: e heap_rel_quiet)
    next
      case False
      then obtain is2 inactive2 events2 where l: "announce_loop E s n heap is = Ret (heap', is2, inactive2, events2)"
        and e: "events = Broadcast (ci_election i) # events2 \<or> events = Broadcast (ci_election i) # Bootstrap # events2"
        using "2.prems" n by (auto simp: obind_eq_Ret Let_def split: if_splits)
      then show ?thesis using "2.IH"(2) [OF n False refl l] "2.prems"(2) by (auto simp: heap_rel_quiet)
    qed
  next
    case False
    then show ?thesis using "2.prems" by simp
  qed
qed simp

section \<open>One announcement\<close>

definition due :: "conflict_info \<Rightarrow> bool" where
  "due c \<longleftrightarrow> contigious_announcements - 1 \<le> announcements c"

definition bump :: "conflict_info \<Rightarrow> conflict_info" where
  "bump c = c\<lparr>announcements := announcements c + 1\<rparr>"

lemma bump_simps [simp]: "ci_root (bump c) = ci_root c" "ci_election (bump c) = ci_election c" "announcements (bump c) = Suc (announcements c)"
  by (simp_all add: bump_def)

lemma info_ok_rel: "heap_rel heap events heap' \<Longrightarrow> info_ok heap c \<Longrightarrow> info_ok heap' c"
  by (auto simp: heap_rel_def info_ok_def evolves_def)

lemma announce_loop_roots:
  assumes "announce_loop E s n heap is = Ret (heap', is', inactive, events)" "n < announcements_per_interval"
    and "\<forall>i\<in>set is. info_ok heap i"
  shows "is' = map (\<lambda>c. if due c then c else bump c) is \<and> inactive = map ci_root (filter due is) \<and>
    (\<forall>c\<in>set is. due c \<longrightarrow> is_confirmed heap' (ci_election c)) \<and> (\<forall>c\<in>set is. Broadcast (ci_election c) \<in> set events)"
  using assms
proof (induction E s n heap "is" arbitrary: heap' is' inactive events rule: announce_loop.induct)
  case (2 E s n heap i "is")
  note n = "2.prems"(2)
  have i: "info_ok heap i" using "2.prems"(3) by simp
  show ?case
  proof (cases "due i")
    case True
    then have d: "announcements i \<ge> contigious_announcements - 1" by (simp add: due_def)
    let ?heap = "\<lambda>el. heap[ci_election i := el]"
    obtain el effs is2 inactive2 events2 where c: "confirm_cutoff E s (heap ! ci_election i) = Ret (el, effs)"
      and l: "announce_loop E s n (?heap el) is = Ret (heap', is2, inactive2, events2)"
      and r: "is' = i # is2" "inactive = votes_id (el_votes el) # inactive2"
        "events = Broadcast (ci_election i) # map (Effect (ci_election i)) effs @ events2"
      using "2.prems"(1) n d by (auto simp: obind_eq_Ret)
    have rel: "heap_rel heap (map (Effect (ci_election i)) effs) (?heap el)"
      using confirm_cutoff_evolves [OF c] i by (intro heap_rel_update) (auto simp: info_ok_def)
    then have ok: "\<forall>j\<in>set is. info_ok (?heap el) j" using "2.prems"(3) info_ok_rel by auto
    have "heap_rel (?heap el) events2 heap'"
      using announce_loop_heap [OF l] ok by (auto simp: info_ok_def)
    then have "is_confirmed heap' (ci_election i)"
      by (rule heap_rel_confirmed) (use confirm_cutoff_evolves(3) [OF c] i in \<open>simp add: is_confirmed_def info_ok_def\<close>)
    moreover have "votes_id (el_votes el) = ci_root i"
      using confirm_cutoff_evolves(1) [OF c] i by (simp add: evolves_def info_ok_def)
    moreover note "2.IH"(1) [OF n d c refl l n ok]
    ultimately show ?thesis using True r by auto
  next
    case False
    then have d: "\<not> announcements i \<ge> contigious_announcements - 1" by (simp add: due_def)
    obtain is2 events2 where l: "announce_loop E s n heap is = Ret (heap', is2, inactive, events2)"
      and r: "is' = bump i # is2" "set events = insert (Broadcast (ci_election i)) (set events2) \<or>
        set events = insert (Broadcast (ci_election i)) (insert Bootstrap (set events2))"
      using "2.prems"(1) n d by (auto simp: obind_eq_Ret Let_def bump_def split: if_splits)
    then show ?thesis using "2.IH"(2) [OF n d refl l n] "2.prems"(3) False by auto
  qed
qed simp

lemma announce_loop_returns:
  assumes "good (env_params E) G s" "\<And>ts. mset (env_order E ts) = mset ts"
    and "\<forall>i\<in>set is. ci_election i < length heap" "\<forall>el\<in>set heap. votes_ok (el_votes el)"
  shows "\<exists>r. announce_loop E s n heap is = Ret r"
  using assms(3,4)
proof (induction "is" arbitrary: heap)
  case (Cons i "is")
  let ?el = "heap ! ci_election i"
  have ok: "votes_ok (el_votes ?el)" using Cons.prems by simp
  obtain w b t where t: "tally (env_order E) s (el_votes ?el) = Ret ((w, b) # t)"
    by (rule tally_first [OF assms(1) ok assms(2)])
  obtain u where u: "ledger_supply (env_params E) s (env_inactive_supply E) = Ret u" using supply_eq [OF assms(1)] by blast
  obtain el effs where c: "confirm_cutoff E s ?el = Ret (el, effs)"
    using confirm_cutoff_eq [OF t u] by (cases "confirm_cutoff E s ?el") (auto split: if_splits)
  have "\<forall>e\<in>set (heap[ci_election i := el]). votes_ok (el_votes e)"
    using Cons.prems(2) ok confirm_cutoff_evolves(1) [OF c] set_update_subset_insert [of heap "ci_election i" el]
    by (auto simp: evolves_def)
  then have "\<exists>r. announce_loop E s n (heap[ci_election i := el]) is = Ret r"
    using Cons.prems(1) by (intro Cons.IH) simp_all
  moreover have "\<exists>r. announce_loop E s n heap is = Ret r" using Cons by simp
  ultimately show ?case using c by (fastforce simp: Let_def)
qed simp

lemma erase_roots_eq:
  assumes "distinct rs" "set rs \<subseteq> ci_root ` set cs"
  shows "erase_roots rs cs = Ret (filter (\<lambda>c. ci_root c \<notin> set rs) cs)"
  using assms
proof (induction rs arbitrary: cs)
  case (Cons r rs)
  have "find_root r cs \<noteq> None" using Cons.prems(2) by (auto simp: find_root_def find_None_iff image_iff)
  moreover have "erase_roots rs (filter (\<lambda>c. ci_root c \<noteq> r) cs) = Ret (filter (\<lambda>c. ci_root c \<notin> set rs) (filter (\<lambda>c. ci_root c \<noteq> r) cs))"
  proof (rule Cons.IH)
    show "set rs \<subseteq> ci_root ` set (filter (\<lambda>c. ci_root c \<noteq> r) cs)"
    proof
      fix y assume y: "y \<in> set rs"
      then obtain c where "c \<in> set cs" "y = ci_root c" using Cons.prems(2) by auto
      then show "y \<in> ci_root ` set (filter (\<lambda>c. ci_root c \<noteq> r) cs)" using y Cons.prems(1) by auto
    qed
  qed (use Cons.prems in simp)
  ultimately show ?case by (simp add: conj_commute)
qed simp

lemma active_okD:
  assumes "active_ok E G st"
  shows "reachable (env_params E) G (ns_ledger st)" "sorted_wrt (<) (map ci_root (ns_roots st))"
    "distinct (map ci_root (ns_roots st))" "distinct (map ci_election (ns_roots st))"
    "\<And>c. c \<in> set (ns_roots st) \<Longrightarrow> info_ok (ns_heap st) c" "\<And>el. el \<in> set (ns_heap st) \<Longrightarrow> votes_ok (el_votes el)"
  using assms by (auto simp: active_ok_def strict_sorted_iff)

lemma remaining_roots:
  assumes d: "distinct (map ci_root cs)"
  shows "erase_roots (map ci_root (filter due cs)) (map (\<lambda>c. if due c then c else bump c) cs) = Ret (map bump (filter (\<lambda>c. \<not> due c) cs))"
proof -
  let ?b = "\<lambda>c. if due c then c else bump c"
  have root: "ci_root (?b c) = ci_root c" for c by simp
  have "erase_roots (map ci_root (filter due cs)) (map ?b cs) =
      Ret (filter (\<lambda>c. ci_root c \<notin> set (map ci_root (filter due cs))) (map ?b cs))"
  proof (rule erase_roots_eq)
    show "distinct (map ci_root (filter due cs))" using d by (rule distinct_map_filter)
    show "set (map ci_root (filter due cs)) \<subseteq> ci_root ` set (map ?b cs)" by (auto simp: image_iff)
  qed
  also have "filter (\<lambda>c. ci_root c \<notin> set (map ci_root (filter due cs))) (map ?b cs) = map ?b (filter (\<lambda>c. \<not> due c) cs)"
  proof -
    have "ci_root c \<in> set (map ci_root (filter due cs)) \<longleftrightarrow> due c" if "c \<in> set cs" for c
      using that d by (auto simp: distinct_map inj_on_def)
    then show ?thesis by (simp add: filter_map comp_def root cong: filter_cong)
  qed
  also have "\<dots> = map bump (filter (\<lambda>c. \<not> due c) cs)" by simp
  finally show ?thesis .
qed

lemma announce_votes_eq:
  assumes ok: "active_ok E G st" and order: "\<And>ts. mset (env_order E ts) = mset ts"
  obtains heap events where
    "announce_votes E st = Ret (st\<lparr>ns_heap := heap, ns_roots := map bump (filter (\<lambda>c. \<not> due c) (ns_roots st))\<rparr>, events)"
    "heap_rel (ns_heap st) events heap" "length heap = length (ns_heap st)"
    "\<forall>c\<in>set (ns_roots st). due c \<longrightarrow> is_confirmed heap (ci_election c)"
    "\<forall>c\<in>set (ns_roots st). Broadcast (ci_election c) \<in> set events"
proof -
  note okD = active_okD [OF ok]
  have addr: "\<forall>i\<in>set (ns_roots st). ci_election i < length (ns_heap st)" using okD(5) by (auto simp: info_ok_def)
  obtain heap is' inactive events where l: "announce_loop E (ns_ledger st) 0 (ns_heap st) (ns_roots st) = Ret (heap, is', inactive, events)"
    using announce_loop_returns [OF reachable_good [OF okD(1)] order addr] okD(6) by (metis prod_cases4)
  have "(0 :: nat) < announcements_per_interval" by (simp add: announcements_per_interval_def)
  note roots = announce_loop_roots [OF l this] and heap = announce_loop_heap [OF l addr]
  have "announce_votes E st = Ret (st\<lparr>ns_heap := heap, ns_roots := map bump (filter (\<lambda>c. \<not> due c) (ns_roots st))\<rparr>, events)"
    using roots okD(5) by (simp add: announce_votes_def l remaining_roots [OF okD(3)])
  with that heap roots okD(5) show thesis by blast
qed

lemma find_root_Some: "find_root r cs = Some c \<Longrightarrow> c \<in> set cs \<and> ci_root c = r"
  by (auto simp: find_root_def find_Some_iff)

lemma find_root_None: "find_root r cs = None \<longleftrightarrow> r \<notin> ci_root ` set cs"
  by (auto simp: find_root_def find_None_iff)

lemma set_insert_root: "set (insert_root c cs) = insert c (set cs)"
  by (induction c cs rule: insert_root.induct) auto

lemma sorted_insert_root:
  assumes "sorted_wrt (<) (map ci_root cs)" "ci_root c \<notin> ci_root ` set cs"
  shows "sorted_wrt (<) (map ci_root (insert_root c cs))"
  using assms by (induction c cs rule: insert_root.induct) (auto simp: set_insert_root)

lemma distinct_insert_root:
  assumes "distinct (map ci_election cs)" "ci_election c \<notin> ci_election ` set cs"
  shows "distinct (map ci_election (insert_root c cs))"
  using assms by (induction c cs rule: insert_root.induct) (auto simp: set_insert_root)

lemma heap_rel_votes_ok:
  assumes "heap_rel heap events heap'" "length heap' = length heap" "\<forall>el\<in>set heap. votes_ok (el_votes el)"
  shows "\<forall>el\<in>set heap'. votes_ok (el_votes el)"
  using assms by (simp add: heap_rel_def all_set_conv_all_nth evolves_def)

section \<open>Every step\<close>

definition advances :: "label \<Rightarrow> node_state \<Rightarrow> node_state \<Rightarrow> bool" where
  "advances l st st' \<longleftrightarrow> (\<forall>c\<in>set (ns_roots st). is_confirmed (ns_heap st') (ci_election c) \<or>
     (\<exists>c'\<in>set (ns_roots st'). ci_election c' = ci_election c \<and> announcements c' = announcements c + of_bool (l = Announce)))"

definition step_ok :: "node_env \<Rightarrow> block \<Rightarrow> node_state \<Rightarrow> label \<Rightarrow> event list \<Rightarrow> node_state \<Rightarrow> bool" where
  "step_ok E G st l events st' \<longleftrightarrow> active_ok E G st' \<and> heap_rel (ns_heap st) events (ns_heap st') \<and> (l \<noteq> Stop \<longrightarrow> advances l st st')"

lemma same_roots:
  assumes ok: "active_ok E G st" and rel: "heap_rel (ns_heap st) events (ns_heap st')" "length (ns_heap st') = length (ns_heap st)"
    and eq: "ns_roots st' = ns_roots st" "reachable (env_params E) G (ns_ledger st')"
  shows "step_ok E G st Other events st'"
proof -
  have "\<forall>el\<in>set (ns_heap st'). votes_ok (el_votes el)" using heap_rel_votes_ok [OF rel] ok by (simp add: active_ok_def)
  then show ?thesis
    using ok eq rel(1) info_ok_rel [OF rel(1)] by (auto simp: step_ok_def active_ok_def advances_def)
qed

lemma start_ok:
  assumes ok: "active_ok E G st" and s: "start E now st b = Ret (st', existing)"
  shows "step_ok E G st Other [] st'"
proof (cases "find_root (root b) (ns_roots st)")
  case None
  let ?el0 = "\<lparr>el_votes = votes_make (env_not_an_account E) b, last_vote = now, last_winner = b, confirmed = False\<rparr>"
  let ?c = "\<lparr>ci_root = root b, ci_election = length (ns_heap st), announcements = 0\<rparr>"
  obtain vs el where el: "compute_rep_votes E (ns_ledger st) (ns_votes st) ?el0 = Ret (vs, el)"
    and st': "st' = st\<lparr>ns_votes := vs, ns_heap := ns_heap st @ [el], ns_roots := insert_root ?c (ns_roots st)\<rparr>"
    using s None by (auto simp: start_def election_make_def obind_eq_Ret)
  note keeps = compute_rep_votes_keeps [OF el]
  have el_ok: "votes_ok (el_votes el)" "votes_id (el_votes el) = root b" "\<not> confirmed el"
    using keeps votes_ok_make by (simp_all add: votes_make_def)
  have rel: "heap_rel (ns_heap st) [] (ns_heap st')" using el_ok(3) by (simp add: st' heap_rel_new)
  have fresh: "ci_election ?c \<notin> ci_election ` set (ns_roots st)" using active_okD(5) [OF ok] by (fastforce simp: info_ok_def)
  have "sorted_wrt (<) (map ci_root (insert_root ?c (ns_roots st)))"
    using None active_okD(2) [OF ok] by (intro sorted_insert_root) (simp_all add: find_root_None)
  moreover have "distinct (map ci_election (insert_root ?c (ns_roots st)))"
    using fresh active_okD(4) [OF ok] by (intro distinct_insert_root) simp_all
  moreover have "info_ok (ns_heap st') ?c" by (simp add: info_ok_def st' el_ok(2) contigious_announcements_def)
  ultimately show ?thesis
    using ok rel el_ok(1) info_ok_rel [OF rel] by (auto simp: step_ok_def active_ok_def advances_def st' set_insert_root)
qed (use s ok in \<open>auto simp: start_def step_ok_def advances_def\<close>)

lemma announce_ok:
  assumes ok: "active_ok E G st" and order: "\<And>ts. mset (env_order E ts) = mset ts" and s: "announce_votes E st = Ret (st', events)"
  shows "step_ok E G st Announce events st'"
proof -
  let ?is = "map bump (filter (\<lambda>c. \<not> due c) (ns_roots st))"
  obtain heap where st': "st' = st\<lparr>ns_heap := heap, ns_roots := ?is\<rparr>" and rel: "heap_rel (ns_heap st) events heap"
    and len: "length heap = length (ns_heap st)" and cl: "\<forall>c\<in>set (ns_roots st). due c \<longrightarrow> is_confirmed heap (ci_election c)"
    by (rule announce_votes_eq [OF ok order]) (use s in auto)
  have "\<forall>el\<in>set heap. votes_ok (el_votes el)" using heap_rel_votes_ok [OF rel len] ok by (simp add: active_ok_def)
  moreover have "info_ok heap (bump c)" if "c \<in> set (ns_roots st)" "\<not> due c" for c
    using info_ok_rel [OF rel active_okD(5) [OF ok that(1)]] that(2) by (auto simp: info_ok_def due_def)
  moreover have "sorted_wrt (<) (map ci_root ?is)"
    using active_okD(2) [OF ok] by (auto simp: sorted_wrt_map comp_def intro: sorted_wrt_filter)
  moreover have "distinct (map ci_election ?is)"
    using active_okD(4) [OF ok] by (simp add: comp_def distinct_map_filter)
  ultimately show ?thesis
    using ok rel cl by (auto simp: step_ok_def active_ok_def advances_def st')
qed

lemma step_is_ok:
  assumes "node_step E G st l events st'" and ok: "active_ok E G st" and order: "\<And>ts. mset (env_order E ts) = mset ts"
  shows "step_ok E G st l events st'"
  using assms(1)
proof cases
  case (Step_vote a v now)
  obtain vs el effects where v: "election_vote E now (ns_ledger st) (ns_votes st) (ns_heap st ! a) v = Ret (vs, el, effects)"
    and st': "st' = st\<lparr>ns_votes := vs, ns_heap := (ns_heap st)[a := el]\<rparr>" "events = map (Effect a) effects"
    using Step_vote by (auto simp: vote_election_def obind_eq_Ret)
  note ev = election_vote_evolves [OF v active_okD(6) [OF ok nth_mem [OF Step_vote(2)]]]
  have "heap_rel (ns_heap st) events (ns_heap st')" using heap_rel_update [OF Step_vote(2) ev] by (simp add: st')
  then show ?thesis using Step_vote(1) same_roots [OF ok] active_okD(1) [OF ok] by (simp add: st')
next
  case (Step_broadcast a)
  obtain vs el effects where v: "broadcast_winner E (ns_ledger st) (ns_votes st) (ns_heap st ! a) = Ret (vs, el, effects)"
    and st': "st' = st\<lparr>ns_votes := vs, ns_heap := (ns_heap st)[a := el]\<rparr>" "events = map (Effect a) effects"
    using Step_broadcast by (auto simp: run_broadcast_def obind_eq_Ret)
  note ev = broadcast_evolves [OF v active_okD(6) [OF ok nth_mem [OF Step_broadcast(2)]]]
  have "heap_rel (ns_heap st) events (ns_heap st')" using heap_rel_update [OF Step_broadcast(2) ev] by (simp add: st')
  then show ?thesis using Step_broadcast(1) same_roots [OF ok] active_okD(1) [OF ok] by (simp add: st')
next
  case Step_stop
  then show ?thesis using ok by (simp add: step_ok_def active_ok_def active_stop_def)
next
  case (Step_ledger s)
  then show ?thesis using same_roots [OF ok] by simp
next
  case (Step_tables vs)
  then show ?thesis using same_roots [OF ok] active_okD(1) [OF ok] by simp
qed (use start_ok [OF ok] announce_ok [OF ok order] in auto)

text \<open>Finding the election and voting at once is one of these steps, or no step.\<close>

lemma active_vote_step:
  assumes ok: "active_ok E G st" and v: "active_vote E now st v = Ret (st', events)"
  shows "node_step E G st Other events st' \<or> st' = st \<and> events = []"
proof (cases "find_root (root (vote_block v)) (ns_roots st)")
  case (Some c)
  then have c: "c \<in> set (ns_roots st)" "ci_root c = root (vote_block v)" by (blast dest: find_root_Some)+
  have "vote_election E now st (ci_election c) v = Ret (st', events)"
    using v Some by (simp add: active_vote_def find_election_def)
  then show ?thesis using active_okD(5) [OF ok c(1)] c(2) by (intro disjI1 Step_vote) (auto simp: info_ok_def)
qed (use v in \<open>simp add: active_vote_def find_election_def\<close>)

lemma node_init_ok: "node_init E G st \<Longrightarrow> active_ok E G st"
  by (simp add: node_init_def active_ok_def)

definition any_step :: "node_env \<Rightarrow> block \<Rightarrow> node_state \<Rightarrow> node_state \<Rightarrow> bool" where
  "any_step E G st st' \<longleftrightarrow> (\<forall>ts. mset (env_order E ts) = mset ts) \<and> (\<exists>l events. node_step E G st l events st')"

interpretation elections: invariant_system "node_init E G" "any_step E G" "active_ok E G" for E G
proof
  fix st st' assume ok: "active_ok E G st" and "any_step E G st st'"
  then obtain l events where "node_step E G st l events st'" and order: "\<And>ts. mset (env_order E ts) = mset ts"
    by (auto simp: any_step_def)
  from step_is_ok [OF this(1) ok order] show "active_ok E G st'" by (simp add: step_ok_def)
qed (rule node_init_ok)

lemma run_any_step:
  assumes "node_run E G st ls events st'" and "\<And>ts. mset (env_order E ts) = mset ts"
  shows "(any_step E G)\<^sup>*\<^sup>* st st'"
  using assms(1)
proof induction
  case (Run_step st ls events st' l events' st'')
  then have "any_step E G st' st''" using assms(2) by (auto simp: any_step_def)
  with Run_step.IH show ?case by (rule rtranclp.rtrancl_into_rtrancl)
qed simp

lemma run_heap_rel:
  assumes "node_run E G st ls events st'" and ok: "active_ok E G st" and order: "\<And>ts. mset (env_order E ts) = mset ts"
  shows "heap_rel (ns_heap st) events (ns_heap st')"
  using assms(1,2)
proof induction
  case (Run_step st ls events st' l events' st'')
  have ok': "active_ok E G st'"
    using elections.inv_steps [OF run_any_step [OF Run_step.hyps(1) order] Run_step.prems] .
  have "heap_rel (ns_heap st') events' (ns_heap st'')"
    using step_is_ok [OF Run_step.hyps(2) ok' order] by (simp add: step_ok_def)
  with Run_step.IH [OF Run_step.prems] show ?case by (rule heap_rel_trans)
qed simp

lemma run_advances:
  assumes "node_run E G st ls events st'" and ok: "active_ok E G st" and order: "\<And>ts. mset (env_order E ts) = mset ts"
    and "Stop \<notin> set ls" and c: "c \<in> set (ns_roots st)"
  shows "is_confirmed (ns_heap st') (ci_election c) \<or>
      (\<exists>c'\<in>set (ns_roots st'). ci_election c' = ci_election c \<and>
        announcements c' = announcements c + length (filter (\<lambda>l. l = Announce) ls))"
  using assms(1,2,4,5)
proof induction
  case (Run_step st ls events st' l events' st'')
  have ok': "active_ok E G st'"
    using elections.inv_steps [OF run_any_step [OF Run_step.hyps(1) order] Run_step.prems(1)] .
  have l: "l \<noteq> Stop" and ls: "Stop \<notin> set ls" using Run_step.prems(2) by auto
  have adv: "advances l st' st''" and rel: "heap_rel (ns_heap st') events' (ns_heap st'')"
    using step_is_ok [OF Run_step.hyps(2) ok' order] l by (simp_all add: step_ok_def)
  from Run_step.IH [OF Run_step.prems(1) ls Run_step.prems(3)] show ?case
  proof
    assume "is_confirmed (ns_heap st') (ci_election c)"
    then show ?thesis using heap_rel_confirmed [OF rel] by simp
  next
    assume "\<exists>c'\<in>set (ns_roots st'). ci_election c' = ci_election c \<and>
        announcements c' = announcements c + length (filter (\<lambda>l. l = Announce) ls)"
    then obtain c' where "c' \<in> set (ns_roots st')" "ci_election c' = ci_election c"
        "announcements c' = announcements c + length (filter (\<lambda>l. l = Announce) ls)" by blast
    with adv show ?thesis by (auto simp: advances_def)
  qed
qed auto

section \<open>A run\<close>

definition demo_node :: "block_store \<Rightarrow> node_state" where
  "demo_node s = \<lparr>ns_ledger = s, ns_votes = empty_vote_store, ns_roots = [], ns_heap = []\<rparr>"

definition demo_started :: "block_store \<Rightarrow> node_state" where
  "demo_started s = (demo_node s)\<lparr>ns_heap := [\<lparr>el_votes = votes_make 1 demo_open, last_vote = 0, last_winner = demo_open, confirmed = False\<rparr>],
     ns_roots := [\<lparr>ci_root = root demo_open, ci_election = 0, announcements = 0\<rparr>]\<rparr>"

lemma demo_order: "mset (env_order demo_env ts) = mset ts"
  by (simp add: demo_env_def)

lemma demo_node_init: "reachable demo_params demo_genesis s \<Longrightarrow> node_init demo_env demo_genesis (demo_node s)"
  by (simp add: node_init_def demo_node_def demo_env_def)

lemma demo_start:
  assumes r: "reachable demo_params demo_genesis s" and v: "view_of s = demo_view2"
  shows "start demo_env 0 (demo_node s) demo_open = Ret (demo_started s, False)"
proof -
  have "represents s demo_view2" using reachable_good [OF r] v by (auto elim: goodD)
  moreover have "vblk demo_view2 (hash demo_params demo_open) \<noteq> None"
    by (simp add: demo_view2_def demo_views demo_open_def accept_open_def transformers)
  ultimately have "block_exists s (hash demo_params demo_open)" by (simp add: get_views)
  then show ?thesis
    by (simp add: start_def demo_node_def find_root_def election_make_def demo_env_def compute_rep_votes_def demo_started_def)
qed

lemma demo_run_start:
  assumes "reachable demo_params demo_genesis s" "view_of s = demo_view2"
  shows "node_run demo_env demo_genesis (demo_node s) [Other] [] (demo_started s)"
  using Run_step [OF Run_none Step_start [OF demo_start [OF assms]]] by simp

lemma announce_runs:
  assumes ok: "active_ok E G st" and order: "\<And>ts. mset (env_order E ts) = mset ts"
  shows "\<exists>events st'. node_run E G st (replicate n Announce) events st'"
proof (induction n)
  case 0
  show ?case by (simp, blast intro: Run_none)
next
  case (Suc n)
  then obtain events st' where run: "node_run E G st (replicate n Announce) events st'" by blast
  have ok': "active_ok E G st'" using elections.inv_steps [OF run_any_step [OF run order] ok] .
  obtain st'' events' where "announce_votes E st' = Ret (st'', events')" by (rule announce_votes_eq [OF ok' order])
  from Run_step [OF run Step_announce [OF this]] show ?case by (auto simp: replicate_append_same)
qed

section \<open>Properties\<close>

text \<open>
  C16: An election confirms at most one block, once, whatever votes, announcements, broadcasts, changes of the ledger
  and stops are interleaved: along every run of the node the number of its confirmations is one if its flag is set
  and zero otherwise, and the block it confirmed is its winner from then on.
\<close>

theorem confirmed_at_most_once:
  assumes "node_init E G st0" and "node_run E G st0 ls events st" and "\<And>ts. mset (env_order E ts) = mset ts"
  shows "confirmed_at a events = of_bool (is_confirmed (ns_heap st) a) \<and>
    (\<forall>b. Effect a (Confirmed b) \<in> set events \<longrightarrow> last_winner (ns_heap st ! a) = b)"
proof -
  have "heap_rel (ns_heap st0) events (ns_heap st)" by (rule run_heap_rel [OF assms(2) node_init_ok [OF assms(1)] assms(3)])
  moreover have "ns_heap st0 = []" using assms(1) by (simp add: node_init_def)
  ultimately show ?thesis by (auto simp: heap_rel_def is_confirmed_def)
qed

theorem confirmed_at_most_once_witness:
  "\<exists>s events st. node_init demo_env demo_genesis (demo_node s) \<and>
    node_run demo_env demo_genesis (demo_started s) (replicate 4 Announce) events st \<and>
    confirmed_at 0 events = of_bool (is_confirmed (ns_heap st) 0)"
proof -
  obtain s where s: "reachable demo_params demo_genesis s" "view_of s = demo_view2" using demo_run by blast
  note init = demo_node_init [OF s(1)] and run = demo_run_start [OF s]
  have "active_ok demo_env demo_genesis (demo_started s)"
    using elections.inv_reachable [OF init run_any_step [OF run demo_order]] .
  then obtain events st where r4: "node_run demo_env demo_genesis (demo_started s) (replicate 4 Announce) events st"
    using announce_runs demo_order by blast
  have "node_run demo_env demo_genesis (demo_node s) ([Other] @ replicate 4 Announce) ([] @ events) st"
    using run r4 by (rule run_append)
  from confirmed_at_most_once [OF init this demo_order, of 0]
  have "confirmed_at 0 events = of_bool (is_confirmed (ns_heap st) 0)" by simp
  with init r4 show ?thesis by blast
qed

text \<open>
  C17: Every election comes to an end: four announcements after any point of a run, with anything but a stop in
  between, each election that was active at that point has confirmed a block.
\<close>

theorem elections_end:
  assumes init: "node_init E G st0" and run: "node_run E G st0 ls events st" and order: "\<And>ts. mset (env_order E ts) = mset ts"
    and c: "c \<in> set (ns_roots st)" and run': "node_run E G st ls' events' st'"
    and ls': "Stop \<notin> set ls'" "4 \<le> length (filter (\<lambda>l. l = Announce) ls')"
  shows "is_confirmed (ns_heap st') (ci_election c)"
proof -
  have ok: "active_ok E G st" using elections.inv_reachable [OF init run_any_step [OF run order]] .
  have ok': "active_ok E G st'" using elections.inv_steps [OF run_any_step [OF run' order] ok] .
  have "announcements c' < 4" if "c' \<in> set (ns_roots st')" for c'
    using active_okD(5) [OF ok' that] by (simp add: info_ok_def contigious_announcements_def)
  with run_advances [OF run' ok order ls'(1) c] ls'(2) show ?thesis by fastforce
qed

theorem elections_end_witness:
  "\<exists>s events st. node_run demo_env demo_genesis (demo_node s) [Other] [] (demo_started s) \<and>
    node_run demo_env demo_genesis (demo_started s) (replicate 4 Announce) events st \<and> is_confirmed (ns_heap st) 0"
proof -
  obtain s where s: "reachable demo_params demo_genesis s" "view_of s = demo_view2" using demo_run by blast
  note init = demo_node_init [OF s(1)] and run = demo_run_start [OF s]
  have "active_ok demo_env demo_genesis (demo_started s)"
    using elections.inv_reachable [OF init run_any_step [OF run demo_order]] .
  then obtain events st where r4: "node_run demo_env demo_genesis (demo_started s) (replicate 4 Announce) events st"
    using announce_runs demo_order by blast
  have c: "\<lparr>ci_root = root demo_open, ci_election = 0, announcements = 0\<rparr> \<in> set (ns_roots (demo_started s))"
    by (simp add: demo_started_def)
  from elections_end [OF init run demo_order c r4] run r4 show ?thesis by auto
qed

text \<open>
  C25: An announcement always completes and treats every root, however many there are: each is broadcast, those with
  three announcements behind them are confirmed and erased, and all others are counted up.  The limit of 32 per
  interval has no effect.
\<close>

theorem announcement_treats_every_root:
  assumes init: "node_init E G st0" and run: "node_run E G st0 ls events st" and order: "\<And>ts. mset (env_order E ts) = mset ts"
  shows "\<exists>heap events. announce_votes E st = Ret (st\<lparr>ns_heap := heap, ns_roots := map bump (filter (\<lambda>c. \<not> due c) (ns_roots st))\<rparr>, events) \<and>
    (\<forall>c\<in>set (ns_roots st). due c \<longrightarrow> is_confirmed heap (ci_election c)) \<and>
    (\<forall>c\<in>set (ns_roots st). Broadcast (ci_election c) \<in> set events)"
proof -
  have ok: "active_ok E G st" using elections.inv_reachable [OF init run_any_step [OF run order]] .
  show ?thesis by (rule announce_votes_eq [OF ok order]) blast
qed

theorem announcement_treats_every_root_witness:
  "\<exists>s heap events. announce_votes demo_env (demo_started s) =
      Ret ((demo_started s)\<lparr>ns_heap := heap, ns_roots := map bump (filter (\<lambda>c. \<not> due c) (ns_roots (demo_started s)))\<rparr>, events) \<and>
    Broadcast 0 \<in> set events"
proof -
  obtain s where s: "reachable demo_params demo_genesis s" "view_of s = demo_view2" using demo_run by blast
  from announcement_treats_every_root [OF demo_node_init [OF s(1)] demo_run_start [OF s] demo_order]
  obtain heap events where h: "announce_votes demo_env (demo_started s) =
      Ret ((demo_started s)\<lparr>ns_heap := heap, ns_roots := map bump (filter (\<lambda>c. \<not> due c) (ns_roots (demo_started s)))\<rparr>, events)"
    "\<forall>c\<in>set (ns_roots (demo_started s)). Broadcast (ci_election c) \<in> set events" by blast
  have "\<lparr>ci_root = root demo_open, ci_election = 0, announcements = 0\<rparr> \<in> set (ns_roots (demo_started s))"
    by (simp add: demo_started_def)
  with h(2) have "Broadcast 0 \<in> set events" by force
  with h(1) show ?thesis by blast
qed

end
