(* ===== verification/Spec2Isabelle.thy ===== *)
theory Spec2Isabelle
  imports Ledger_Limits Block_Classes Block_Json Block_Hash Work Active
begin

text \<open>
  Verification of the core of the pyraiblocks node, a RaiBlocks (Nano) node whose send blocks can carry an
  action for a virtual machine.  The sources are the C++ files under \<^verbatim>\<open>src/rai\<close> and the C files of
  \<^verbatim>\<open>src/blake2\<close>.

  \<^bold>\<open>The program.\<close>  Every account owns a chain of blocks; a block names its predecessor and is signed by the
  account.  The ledger (\<^verbatim>\<open>rai/secure.cpp\<close>) accepts blocks one by one and keeps tables of blocks, heads,
  balances, receivable amounts and voting weights in LMDB; it can also roll blocks back.  Blocks have a wire
  format and a JSON form (\<^verbatim>\<open>rai/lib/blocks.cpp\<close>), built on wide integers and their texts
  (\<^verbatim>\<open>rai/lib/numbers.cpp\<close>) and hashed with BLAKE2b (\<^verbatim>\<open>blake2/blake2b-ref.c\<close>).  A block carries a proof of work,
  which a pool of threads searches for (\<^verbatim>\<open>rai/lib/work.cpp\<close>).  Forks are decided by votes of representatives,
  weighted with the balances of the ledger: the elections of \<^verbatim>\<open>rai/node/node.cpp\<close>, on top of the vote tables of
  \<^verbatim>\<open>rai/secure.cpp\<close>.

  \<^bold>\<open>How calls are modelled.\<close>  A call returns an \<open>outcome\<close> (\<open>Prelude\<close>): \<open>Ret\<close> a value, \<open>Abort\<close> for a failed
  assertion or a null dereference (the model is the program built with assertions), \<open>Diverge\<close> for a loop that
  used up its fuel.  Errors that the code reports are values.  State is passed explicitly: a store operation
  takes a \<open>block_store\<close> record and returns the new one.  Integers keep their width.

  \<^bold>\<open>Theories.\<close>
  \<^item> \<open>Prelude\<close>, \<open>Codec\<close>: outcomes, sums over maps, streams of bytes, the interface \<open>codec\<close> of a serialiser and
    its deserialiser, the interface \<open>invariant_system\<close> of a state machine with an invariant.
  \<^item> \<open>Blake2b\<close>: \<^verbatim>\<open>blake2b-ref.c\<close>, with the proof that the streaming interface hashes the concatenation of
    its inputs according to a reference definition.  \<open>Block_Hash\<close>: what the hash of a block says about it.
  \<^item> \<open>Blocks\<close>, \<open>Block_Classes\<close>, \<open>Block_Json\<close>: the block classes, their wire format, in-place readers,
    constructors, comparison and JSON form, with round trips.
  \<^item> \<open>Numbers\<close>: unions and numbers, account texts, hexadecimal and decimal texts, balance formatting.
  \<^item> \<open>Work\<close>: \<^verbatim>\<open>rai::work_pool\<close> as a step relation over the threads, the queue of requests and the condition
    variable: answers are right, given once, and no wake-up is lost.
  \<^item> \<open>Block_Store\<close>: \<^verbatim>\<open>rai::block_store\<close>, every table a finite map from keys to the stored bytes.
    \<open>Store_View\<close>: the abstraction \<open>view\<close> of the tables and what each operation does to it.
  \<^item> \<open>Ledger\<close>: \<^verbatim>\<open>rai::ledger\<close> with the visitors, \<^verbatim>\<open>ledger_processor\<close>, \<^verbatim>\<open>rollback_visitor\<close> and the genesis
    block.
  \<^item> \<open>Ledger_Inv\<close>, \<open>Ledger_Extend\<close>, \<open>Ledger_Steps\<close>, \<open>Ledger_Process\<close>: the invariant \<open>linv\<close> of the ledger (with
    a ghost that gives each block its account, balance, representative and height), its preservation, and
    the specification \<open>spec_process\<close> that \<open>process\<close> refines.
  \<^item> \<open>Ledger_Retract\<close>, \<open>Ledger_Undo\<close>, \<open>Ledger_Rollback\<close>: removing a head keeps the invariant; rollback ends
    and removes exactly the dependent blocks.
  \<^item> \<open>Ledger_Unique\<close>, \<open>Ledger_Reach\<close>, \<open>Ledger_Example\<close>, \<open>Ledger_Limits\<close>: the blocks determine the tables;
    reachable ledgers; a concrete run used by the witnesses; inputs on which the code hangs or aborts.
  \<^item> \<open>Ledger_Supply\<close>: the sums over pending entries and the money supply on reachable ledgers.
  \<^item> \<open>Votes\<close>: vote objects, the vote table, the unchecked blocks and their caches in memory.  \<open>Elections\<close>: the
    votes of a fork, tally, winner and quorum, and \<^verbatim>\<open>rai::election\<close>.  \<open>Active\<close>: \<^verbatim>\<open>rai::active_transactions\<close>, the
    running elections as a step relation interleaved with votes, announcements and changes of the ledger.

  The properties of the ledger are at the end of this theory; those of one component are in its theory.

  \<^bold>\<open>Fuel.\<close>  The visitors and the rollback loops take a fuel of \<open>8 * n + 16\<close> for a store of \<open>n\<close> blocks.  On
  every reachable ledger it is enough: \<open>process_refines_spec\<close> and \<open>rollback_removes_dependents\<close> state that the
  calls return.  The recursion of a rollback of \<open>k\<close> dependent blocks is at most \<open>4 * k + 2\<close> deep.

  \<^bold>\<open>Hypotheses on code outside the sources.\<close>  Signature verification (ed25519) and the clock are arguments
  without hypotheses; LMDB tables are finite maps.  The texts of Boost multiprecision integers are described by
  \<open>multiprecision_ok\<close>: a number is inserted as its digits, in hexadecimal with letters of either case, and
  digits are extracted as their number, in decimal only when there is no leading zero; \<open>stops_at_r\<close> says that
  the extraction of a hexadecimal number stops at a letter that is no digit.  A device that computes work is asked
  to return sufficient work only, and the order in which the unordered map of the totals of a tally is traversed
  is any permutation.  A block is \<open>usable\<close> when its hash is none of the values the program reserves (zero,
  the genesis account), its representative is not zero and it is not a send_v2 block, for which the code does
  not keep the ledger consistent (\<open>Ledger_Limits\<close>).

  \<^bold>\<open>Not modelled.\<close>  Networking, the message formats, bootstrapping, wallets, RPC, the virtual machine, which a
  send_v2 block would call when it is accepted, and the user interface: they are asynchronous code over Boost.Asio, LMDB cursors, OpenSSL, Qt and embedded interpreters.  The SIMD
  variants of BLAKE2b and ed25519.
\<close>

section \<open>The ledger\<close>

text \<open>
  C1: On every reachable ledger and for every usable block, \<open>process\<close> returns (no assertion fails and every
  visitor loop ends), and its verdict and the new state of all tables are those of the specification
  \<open>spec_process\<close>.  The new ledger is reachable again.
\<close>

theorem process_refines_spec:
  assumes r: "reachable P G s" and u: "usable P b"
  shows "\<exists>s' ret. process P now s b = Ret (s', ret) \<and> reachable P G s' \<and>
    (view_of s', ret) = spec_process P now (view_of s) b"
proof -
  note good = reachable_good [OF r]
  obtain s' ret where p: "process P now s b = Ret (s', ret)" using process_returns [OF good u] by blast
  with process_good [OF good u p] reachable_process [OF r u p] show ?thesis by blast
qed

theorem process_refines_spec_witness:
  "\<exists>s. reachable demo_params demo_genesis s \<and> view_of s = demo_view0 \<and> usable demo_params demo_send \<and>
    (\<exists>s' ret. process demo_params 0 s demo_send = Ret (s', ret) \<and> reachable demo_params demo_genesis s' \<and>
      (view_of s', ret) = spec_process demo_params 0 demo_view0 demo_send)"
proof -
  obtain s where s: "reachable demo_params demo_genesis s" "view_of s = demo_view0" using demo_run by blast
  from s demo_usable(1) process_refines_spec [OF s(1) demo_usable(1), of 0] show ?thesis by auto
qed

text \<open>
  C2: On every reachable ledger, \<open>rollback\<close> of a stored block other than the genesis block returns, and the
  blocks that are left are exactly those that do not depend on it through previous and source links.
\<close>

theorem rollback_removes_dependents:
  assumes r: "reachable P G s" and h: "block_exists s h" "h \<noteq> hash P G"
  shows "\<exists>s'. rollback P now s h = Ret s' \<and> reachable P G s' \<and>
    vblk (view_of s') = vblk (view_of s) |` (- {y. (dep (vblk (view_of s)))\<^sup>*\<^sup>* h y})"
  using rollback_good [OF reachable_good [OF r] h, of now] reachable_rollback [OF r h]
  by (auto simp: returns_def)

theorem rollback_removes_dependents_witness:
  "\<exists>s. reachable demo_params demo_genesis s \<and> block_exists s 20580 \<and> (20580 :: u256) \<noteq> hash demo_params demo_genesis \<and>
    (\<exists>s'. rollback demo_params 0 s 20580 = Ret s' \<and> reachable demo_params demo_genesis s' \<and>
      vblk (view_of s') = vblk (view_of s) |` (- {y. (dep (vblk (view_of s)))\<^sup>*\<^sup>* 20580 y}))"
proof -
  obtain s where s: "reachable demo_params demo_genesis s" "view_of s = demo_view1" using demo_run by blast
  have e: "block_exists s 20580" using good_exists [OF reachable_good [OF s(1)]] s(2) by (simp add: demo_views)
  have n: "(20580 :: u256) \<noteq> hash demo_params demo_genesis" by (simp add: demo_hashes)
  from s(1) e n rollback_removes_dependents [OF s(1) e n, of 0] show ?thesis by blast
qed

text \<open>
  C4: Rolling back a usable block right after it was accepted on a reachable ledger returns and gives the ledger
  back: the tables of the five kinds of blocks (with the successors), of frontiers, of pending entries and of
  block infos and the checksum are byte for byte as before; there are the same accounts, whose records differ at
  most in the time stamp; and every representative has the same weight, where a missing entry of the table of
  weights counts as zero (the code leaves an entry that has become zero in the table).  A send_v2 block is not
  usable, nor is one with a reserved hash or with representative zero.
\<close>

theorem rollback_undoes_process:
  assumes r: "reachable P G s" and u: "usable P b" and p: "process P now s b = Ret (s', ret)" "code ret = Progress"
  shows "\<exists>t. rollback P later s' (hash P b) = Ret t \<and> same_tables s t \<and> same_ledger (view_of s) (view_of t)"
proof -
  note good = reachable_good [OF r]
  note D = process_good [OF good u p(1)]
  have acc: "decide P (view_of s) b = Progress"
    using D p(2) by (auto simp: spec_process_def just_def split: if_splits)
  then have M: "vblk (view_of s') = (vblk (view_of s))(hash P b \<mapsto> b)"
    using D spec_process_blocks [of P now "view_of s" b] by (metis fst_conv)
  have new: "vblk (view_of s) (hash P b) = None" using acc by (cases b) (auto split: if_splits)
  have un: "\<not> reserved P (hash P b)" using u by (simp add: usable_def)
  note F = fresh_dependents [OF good _ new un M]
  have e: "block_exists s' (hash P b)" "hash P b \<noteq> hash P G"
    using good_exists [OF conjunct1 [OF D]] good_genesis [OF good] M new by auto
  obtain t where t: "rollback P later s' (hash P b) = Ret t" "good P G t"
    "vblk (view_of t) = vblk (view_of s') |` (- {y. (dep (vblk (view_of s')))\<^sup>*\<^sup>* (hash P b) y})"
    using rollback_good [OF conjunct1 [OF D] e, of later] by (auto simp: returns_def)
  have "vblk (view_of t) = vblk (view_of s)"
    using t(3) F [OF conjunct1 [OF D]] M new by (auto simp: restrict_map_def fun_eq_iff)
  then have same: "same_ledger (view_of s) (view_of t)" by (rule good_unique [OF good t(2)])
  have "represents s (view_of s)" "represents t (view_of t)" using good t(2) by (auto elim: goodD)
  with same_ledger_tables [OF _ _ same] same t(1) show ?thesis by blast
qed

theorem rollback_undoes_process_witness:
  "\<exists>s s' ret. reachable demo_params demo_genesis s \<and> usable demo_params demo_send \<and>
    process demo_params 0 s demo_send = Ret (s', ret) \<and> code ret = Progress \<and>
    (\<exists>t. rollback demo_params 9 s' (hash demo_params demo_send) = Ret t \<and> same_tables s t \<and>
      same_ledger (view_of s) (view_of t))"
proof -
  obtain s s' where s: "reachable demo_params demo_genesis s" "view_of s = demo_view0"
    "process demo_params 0 s demo_send = Ret (s', snd (accept demo_params 0 demo_view0 demo_send))" using demo_run by blast
  moreover have "code (snd (accept demo_params 0 demo_view0 demo_send)) = Progress" by (simp add: demo_send_def Let_def)
  ultimately show ?thesis using rollback_undoes_process [OF s(1) demo_usable(1) s(3), of 9] demo_usable(1) by blast
qed

text \<open>
  C3: Money is conserved: on every reachable ledger the balances of all accounts and the amounts of all
  pending entries add up, without wrap-around, to the genesis amount.
\<close>

theorem supply_conserved:
  assumes "reachable P G s"
  shows "msum (\<lambda>i. unat (balance i)) (vacc (view_of s)) + msum (\<lambda>p. unat (pending_amount p)) (vpnd (view_of s)) =
    2 ^ 128 - 1"
proof -
  obtain g where "linv P g (view_of s)" using reachable_good [OF assms] by (rule goodD)
  from linvD(8) [OF this] show ?thesis by (simp add: supply_inv_def)
qed

theorem supply_conserved_witness:
  "\<exists>s. reachable demo_params demo_genesis s \<and> view_of s = demo_view1 \<and>
    msum (\<lambda>i. unat (balance i)) (vacc demo_view1) + msum (\<lambda>p. unat (pending_amount p)) (vpnd demo_view1) = 2 ^ 128 - 1"
proof -
  obtain s where s: "reachable demo_params demo_genesis s" "view_of s = demo_view1" using demo_run by blast
  from s supply_conserved [OF s(1)] show ?thesis by auto
qed

text \<open>
  C7: The voting weight of a representative is the sum of the balances of the accounts whose representative
  block names it; the weight table never wraps around.
\<close>

theorem weight_is_sum_of_balances:
  assumes r: "reachable P G s"
  shows "\<exists>w. ledger_weight s a = Ret w \<and> unat w =
    msum (\<lambda>i. if rep_of (view_of s) (rep_block i) = a then unat (balance i) else 0) (vacc (view_of s))"
proof -
  have "represents s (view_of s)" using reachable_good [OF r] by (rule goodD)
  then have "ledger_weight s a = Ret (vrep (view_of s) a)" by (simp add: ledger_weight_def get_views)
  with good_weights [OF reachable_good [OF r], of a] show ?thesis by blast
qed

theorem weight_is_sum_of_balances_witness:
  "\<exists>s. reachable demo_params demo_genesis s \<and> view_of s = demo_view1 \<and>
    (\<exists>w. ledger_weight s 5 = Ret w \<and> unat w =
      msum (\<lambda>i. if rep_of demo_view1 (rep_block i) = 5 then unat (balance i) else 0) (vacc demo_view1))"
proof -
  obtain s where s: "reachable demo_params demo_genesis s" "view_of s = demo_view1" using demo_run by blast
  from s weight_is_sum_of_balances [OF s(1), of 5] show ?thesis by auto
qed

text \<open>
  C6: A block is received at most once and its amount is available exactly until then: two stored receive or
  open blocks with the same source are the same block, and the pending entry of a stored send block is
  there if and only if no stored block receives it.
\<close>

theorem received_once:
  assumes r: "reachable P G s"
  shows "(\<forall>h h' b b' c. vblk (view_of s) h = Some b \<longrightarrow> vblk (view_of s) h' = Some b' \<longrightarrow>
      receives b c \<longrightarrow> receives b' c \<longrightarrow> h = h') \<and>
    (\<forall>h x sig w. vblk (view_of s) h = Some (Send x sig w) \<longrightarrow>
      (vpnd (view_of s) (send_destination x, h) \<noteq> None \<longleftrightarrow> \<not> received (vblk (view_of s)) h))"
proof -
  obtain g where g: "linv P g (view_of s)" using reachable_good [OF r] by (rule goodD)
  note p = linvD(5) [OF g]
  show ?thesis
  proof (intro conjI allI impI)
    show "h = h'" if "vblk (view_of s) h = Some b" "vblk (view_of s) h' = Some b'" "receives b c" "receives b' c" for h h' b b' c
      using pending_invD(3) [OF p] that by blast
    show "vpnd (view_of s) (send_destination x, h) \<noteq> None \<longleftrightarrow> \<not> received (vblk (view_of s)) h"
      if "vblk (view_of s) h = Some (Send x sig w)" for h x sig w
      using pending_invD(1,2) [OF p] that by blast
  qed
qed

theorem received_once_witness:
  "\<exists>s. reachable demo_params demo_genesis s \<and> view_of s = demo_view1 \<and>
    (vpnd demo_view1 (7, 20580) \<noteq> None \<longleftrightarrow> \<not> received (vblk demo_view1) 20580)"
proof -
  obtain s where s: "reachable demo_params demo_genesis s" "view_of s = demo_view1" using demo_run by blast
  have "vblk demo_view1 20580 = Some (Send \<lparr>send_previous = 24581, send_destination = 7, send_balance = 100\<rparr> 0 0)"
    by (simp add: demo_views demo_send_def)
  then have "vpnd demo_view1 (7, 20580) \<noteq> None \<longleftrightarrow> \<not> received (vblk demo_view1) 20580"
    using conjunct2 [OF received_once [OF s(1)], rule_format, of 20580] s(2) by simp
  with s show ?thesis by blast
qed

text \<open>
  C5: The blocks determine the ledger: two reachable ledgers with the same genesis block and the same stored
  blocks have the same balances, frontiers, pending entries, weights and checksum, whatever the order in
  which the blocks were processed and whatever was rolled back in between.
\<close>

theorem ledger_determined_by_blocks:
  assumes "reachable P G s" "reachable P G t" "vblk (view_of t) = vblk (view_of s)"
  shows "same_ledger (view_of s) (view_of t)"
  using good_unique [OF reachable_good [OF assms(1)] reachable_good [OF assms(2)] assms(3)] .

theorem ledger_determined_by_blocks_witness:
  "\<exists>s t. reachable demo_params demo_genesis s \<and> reachable demo_params demo_genesis t \<and> view_of s \<noteq> view_of t \<and>
    vblk (view_of t) = vblk (view_of s) \<and> same_ledger (view_of s) (view_of t)"
proof -
  obtain s where s: "reachable demo_params demo_genesis s" "view_of s = demo_view0" using demo_run by blast
  obtain t where t: "reachable demo_params demo_genesis t" "view_of t = fst (accept demo_params 0 demo_view0 demo_send)"
    using demo_process [OF s demo_usable(1) demo_decide(1)] by blast
  obtain u where u: "reachable demo_params demo_genesis u" "view_of u = fst (accept demo_params 1 demo_view0 demo_send)"
    using demo_process [OF s demo_usable(1) demo_decide(1)] by blast
  have f: "vfrt demo_view0 24581 = Some 5" by (simp add: demo_views)
  have "vblk (view_of u) = vblk (view_of t)" "map_option modified (vacc (view_of t) 5) = Some 0"
    "map_option modified (vacc (view_of u) 5) = Some 1"
    unfolding t(2) u(2) using f by (simp_all add: demo_send_def accept_send_def transformers demo_views)
  moreover from this(2,3) have "view_of t \<noteq> view_of u" by auto
  ultimately show ?thesis using t(1) u(1) ledger_determined_by_blocks [OF t(1) u(1)] by blast
qed

text \<open>
  C9: The visitors agree with the account table: for every account the balance, the account and the
  representative block computed by walking the chain from its head are the ones stored in its record, and
  \<open>ledger_latest\<close> gives the head.
\<close>

theorem queries_agree_with_accounts:
  assumes r: "reachable P G s" and i: "account_get s a = Ret (Some i)"
  shows "ledger_balance P s (head i) = Ret (balance i) \<and> ledger_account s (head i) = Ret a \<and>
    ledger_representative P s (head i) = Ret (rep_block i) \<and> ledger_latest s a = Ret (head i)"
proof -
  obtain g where g: "represents s (view_of s)" "linv P g (view_of s)" using reachable_good [OF r] by (rule goodD)
  have "vacc (view_of s) a = Some i" using i by (simp add: get_views [OF g(1)])
  note I = accounts_invD [OF linvD(4) [OF g(2)] this]
  note ok = linvD(1) [OF g(2)] infos_inv_ok [OF linvD(6) [OF g(2)]]
  show ?thesis
    using ledger_balance_eval [OF g(1) ok I(1)] ledger_account_own [OF g I(1)]
      ledger_representative_eval [OF g(1) ok(1) I(1)] I i by (simp add: ledger_latest_def)
qed

theorem queries_agree_with_accounts_witness:
  "\<exists>s i. reachable demo_params demo_genesis s \<and> account_get s 5 = Ret (Some i) \<and> balance i = 100 \<and>
    ledger_balance demo_params s (head i) = Ret (balance i) \<and> ledger_account s (head i) = Ret 5 \<and>
    ledger_representative demo_params s (head i) = Ret (rep_block i) \<and> ledger_latest s 5 = Ret (head i)"
proof -
  obtain s where s: "reachable demo_params demo_genesis s" "view_of s = demo_view1" using demo_run by blast
  have "represents s (view_of s)" using reachable_good [OF s(1)] by (rule goodD)
  then have "account_get s 5 = Ret (vacc demo_view1 5)" using s(2) by (simp add: get_views)
  then obtain i where i: "account_get s 5 = Ret (Some i)" "balance i = 100" by (simp add: demo_views)
  with s(1) queries_agree_with_accounts [OF s(1) i(1)] show ?thesis by blast
qed

text \<open>
  C10: The ledger checksum is the exclusive or of the heads of all accounts: bit \<open>n\<close> is set if and only if an
  odd number of heads have it set.
\<close>

theorem checksum_is_xor_of_heads:
  assumes r: "reachable P G s"
  shows "\<exists>c. ledger_checksum s = Ret c \<and>
    (\<forall>n. bit c n \<longleftrightarrow> odd (card {a. \<exists>i. account_get s a = Ret (Some i) \<and> bit (head i) n}))"
proof -
  have v: "represents s (view_of s)" using reachable_good [OF r] by (rule goodD)
  then have "ledger_checksum s = Ret (vcks (view_of s))" by (simp add: ledger_checksum_def get_views)
  with good_checksum [OF reachable_good [OF r]] show ?thesis by (simp add: get_views [OF v])
qed

theorem checksum_is_xor_of_heads_witness:
  "\<exists>s. reachable demo_params demo_genesis s \<and> view_of s = demo_view1 \<and> (\<exists>c. ledger_checksum s = Ret c \<and>
    (\<forall>n. bit c n \<longleftrightarrow> odd (card {a. \<exists>i. account_get s a = Ret (Some i) \<and> bit (head i) n})))"
proof -
  obtain s where s: "reachable demo_params demo_genesis s" "view_of s = demo_view1" using demo_run by blast
  from s checksum_is_xor_of_heads [OF s(1)] show ?thesis by auto
qed

text \<open>
  C12: A block that is not accepted leaves the store untouched: whenever \<open>process\<close> returns with a verdict other
  than progress, for any block on any store, the store is the one it was given.
\<close>

theorem refused_block_changes_nothing:
  assumes "process P now s b = Ret (s', ret)" "code ret \<noteq> Progress"
  shows "s' = s"
  using assms
  by (cases b) (auto simp: process_send_block_def process_send_block_v2_def process_receive_block_def
      process_open_block_def process_change_block_def obind_eq_Ret Let_def just_def split: if_splits option.splits)

theorem refused_block_changes_nothing_witness:
  "\<exists>s s' ret. reachable demo_params demo_genesis s \<and> process demo_params 0 s demo_genesis = Ret (s', ret) \<and>
    code ret = Old \<and> s' = s"
proof -
  obtain s where s: "reachable demo_params demo_genesis s" "view_of s = demo_view0" using demo_run by blast
  have "block_exists s (hash demo_params demo_genesis)"
    using good_exists [OF reachable_good [OF s(1)]] good_genesis [OF reachable_good [OF s(1)]] by simp
  then have p: "process demo_params 0 s demo_genesis = Ret (s, just Old)"
    by (simp add: demo_genesis_def process_open_block_def)
  with refused_block_changes_nothing [OF p] s(1) show ?thesis by (auto simp: just_def)
qed

text \<open>
  C8: Only the owner moves an account: an accepted block carries a valid signature of the account that the
  result names, becomes the head of that account, and leaves the record of every other account as it was.
\<close>

theorem accepted_block_is_signed:
  assumes r: "reachable P G s" and u: "usable P b" and p: "process P now s b = Ret (s', ret)" "code ret = Progress"
  shows "\<exists>a. result_account ret = Some a \<and> \<not> validate_message P a (hash P b) (block_signature b) \<and>
    ledger_latest s' a = Ret (hash P b) \<and> (\<forall>c. c \<noteq> a \<longrightarrow> account_get s' c = account_get s c)"
proof -
  note good = reachable_good [OF r]
  note D = process_good [OF good u p(1)]
  have acc: "decide P (view_of s) b = Progress"
    using D p(2) by (auto simp: spec_process_def just_def split: if_splits)
  have eq: "(view_of s', ret) = accept P now (view_of s) b" using D acc by (simp add: spec_process_def)
  have v: "represents s (view_of s)" using good by (rule goodD)
  have v': "represents s' (view_of s')" using conjunct1 [OF D] by (rule goodD)
  have "\<exists>a. result_account ret = Some a \<and> \<not> validate_message P a (hash P b) (block_signature b) \<and>
    (\<exists>i. vacc (view_of s') a = Some i \<and> head i = hash P b) \<and> (\<forall>c. c \<noteq> a \<longrightarrow> vacc (view_of s') c = vacc (view_of s) c)"
    using acc eq
    by (cases b) (auto simp: Let_def accept_send_def accept_receive_def accept_open_def accept_change_def transformers
        split: if_splits option.splits)
  then show ?thesis by (auto simp: ledger_latest_def get_views [OF v] get_views [OF v'])
qed

theorem accepted_block_is_signed_witness:
  "\<exists>s s' ret. reachable demo_params demo_genesis s \<and> process demo_params 0 s demo_send = Ret (s', ret) \<and>
    code ret = Progress \<and> (\<exists>a. result_account ret = Some a \<and>
      \<not> validate_message demo_params a (hash demo_params demo_send) (block_signature demo_send) \<and>
      ledger_latest s' a = Ret (hash demo_params demo_send) \<and> (\<forall>c. c \<noteq> a \<longrightarrow> account_get s' c = account_get s c))"
proof -
  obtain s s' where s: "reachable demo_params demo_genesis s"
    "process demo_params 0 s demo_send = Ret (s', snd (accept demo_params 0 demo_view0 demo_send))" using demo_run by blast
  have c: "code (snd (accept demo_params 0 demo_view0 demo_send)) = Progress" by (simp add: demo_send_def Let_def)
  from s c accepted_block_is_signed [OF s(1) demo_usable(1) s(2) c] show ?thesis by blast
qed

text \<open>
  C11: There are no forks in the store: two stored blocks with the same root (the previous block, or the account
  for two open blocks) are the same block.
\<close>

theorem no_stored_forks:
  assumes r: "reachable P G s" and b: "block_get P s h = Ret (Some b)" "block_get P s h' = Ret (Some b')" and e: "root b = root b'"
    and t: "type_of_block b = Type_open \<longleftrightarrow> type_of_block b' = Type_open"
  shows "h = h'"
proof -
  obtain g where g: "represents s (view_of s)" "linv P g (view_of s)" using reachable_good [OF r] by (rule goodD)
  note inv = linvD(1) [OF g(2)]
  have B: "vblk (view_of s) h = Some b" "vblk (view_of s) h' = Some b'" using b by (simp_all add: get_views [OF g(1)])
  note C = blocks_invD(7) [OF inv B(1)] blocks_invD(7) [OF inv B(2)]
  show ?thesis using C e t linvD(2) [OF g(2)] B by (cases b; cases b') (auto simp: linked_def chain_inv_def)
qed

theorem no_stored_forks_witness:
  "\<exists>s. reachable demo_params demo_genesis s \<and> block_get demo_params s 24581 = Ret (Some demo_genesis) \<and>
    (\<forall>h'. block_get demo_params s h' = Ret (Some demo_genesis) \<longrightarrow> 24581 = h')"
proof -
  obtain s where s: "reachable demo_params demo_genesis s" "view_of s = demo_view1" using demo_run by blast
  have "represents s (view_of s)" using reachable_good [OF s(1)] by (rule goodD)
  then have b: "block_get demo_params s 24581 = Ret (Some demo_genesis)" using s(2) by (simp add: get_views demo_views)
  with s(1) no_stored_forks [OF s(1) b _ refl refl] show ?thesis by blast
qed

end
